(* ===== verification/Setu_Prelude.thy ===== *)
theory Setu_Prelude
  imports
    Main
    "HOL-Library.Word"
    "HOL-Library.Finite_Map"
    "HOL-Library.Char_ord"
    "HOL-Library.List_Lexorder"
    "HOL-Library.Multiset"
begin

text \<open>
  Shared vocabulary of the development.

  \<^item> Rust's machine integers are words of their width: \<open>u64\<close>, \<open>u32\<close> and \<open>u8\<close>. An unchecked
    \<open>+\<close> or \<open>-\<close> wraps, as it does in the release profile of the workspace (no Cargo profile of
    the repository turns overflow checks on). \<open>usize\<close> lengths of collections that fit in memory
    are natural numbers.
  \<^item> A \<open>HashMap\<close> is a finite map, a \<open>HashSet\<close> a finite set. Where the source iterates over a
    hash map, the model iterates over \<open>entries\<close>, one enumeration of the map; the components
    show that the result is the same for every enumeration where it matters.
  \<^item> A \<open>Result\<close> is a sum with the error on the left.

  The theory also holds the facts on words, finite maps and sums over finite maps that the
  components share, and the rule collection \<open>word_nat\<close>.
\<close>

named_theorems word_nat \<open>facts that move word arithmetic to natural numbers\<close>

type_synonym u8 = "8 word"
type_synonym u32 = "32 word"
type_synonym u64 = "64 word"
type_synonym bytes = "8 word list"

section \<open>Machine integers\<close>

text \<open>Rust's \<open>checked_add\<close>, \<open>checked_sub\<close> and \<open>saturating_sub\<close> on unsigned integers.\<close>

definition checked_add :: "'a::len word \<Rightarrow> 'a word \<Rightarrow> 'a word option" where
  "checked_add a b = (if unat a + unat b < 2 ^ LENGTH('a) then Some (a + b) else None)"

definition checked_mul :: "'a::len word \<Rightarrow> 'a word \<Rightarrow> 'a word option" where
  "checked_mul a b = (if unat a * unat b < 2 ^ LENGTH('a) then Some (a * b) else None)"

definition saturating_sub :: "'a::len word \<Rightarrow> 'a word \<Rightarrow> 'a word" where
  "saturating_sub a b = (if b \<le> a then a - b else 0)"

lemma unat_add_no_overflow [word_nat]:
  "unat a + unat b < 2 ^ LENGTH('a) \<Longrightarrow> unat (a + b) = unat a + unat b"
  for a b :: "'a::len word"
  by (simp add: unat_word_ariths)

lemma unat_sub_no_borrow [word_nat]:
  "b \<le> a \<Longrightarrow> unat (a - b) = unat a - unat b"
  for a b :: "'a::len word"
  by (rule unat_sub)

lemma unat_inc [word_nat]: "x \<noteq> - 1 \<Longrightarrow> unat (x + 1) = Suc (unat x)"
  for x :: "'a::len word"
proof -
  assume "x \<noteq> - 1"
  then have "1 + x \<noteq> 0"
    by (metis add.commute add_eq_0_iff)
  then show ?thesis
    using unatSuc [of x] by (simp add: add.commute)
qed

lemma word_less_inc: "x \<noteq> - 1 \<Longrightarrow> x < x + 1"
  for x :: "'a::len word"
  by (simp add: word_less_nat_alt unat_inc)

lemma word_le_less_inc: "x \<le> y \<Longrightarrow> y \<noteq> - 1 \<Longrightarrow> x < y + 1"
  for x y :: "'a::len word"
  using word_less_inc [of y] by simp

lemma checked_add_Some:
  "checked_add a b = Some c \<longleftrightarrow> unat a + unat b < 2 ^ LENGTH('a) \<and> c = a + b"
  for a b c :: "'a::len word"
  by (auto simp: checked_add_def)

lemma checked_add_SomeD: "checked_add a b = Some c \<Longrightarrow> unat c = unat a + unat b"
  for a b c :: "'a::len word"
  by (simp add: checked_add_Some unat_add_no_overflow)

lemma checked_add_None: "checked_add a b = None \<longleftrightarrow> 2 ^ LENGTH('a) \<le> unat a + unat b"
  for a b :: "'a::len word"
  by (auto simp: checked_add_def)

lemma checked_add_1: "x \<noteq> - 1 \<Longrightarrow> checked_add x 1 = Some (x + 1)"
  for x :: "'a::len word"
  using unsigned_less [of "x + 1", where 'a = nat] by (simp add: checked_add_Some unat_inc)

lemma checked_add_max [simp]: "checked_add (- 1 :: 'a::len word) 1 = None"
  by (simp add: checked_add_None unsigned_minus_1_eq_mask mask_eq_exp_minus_1)

lemma unat_saturating_sub: "unat (saturating_sub a b) = unat a - unat b"
  for a b :: "'a::len word"
  by (auto simp: saturating_sub_def unat_sub word_le_nat_alt)

section \<open>Enumerating a finite map\<close>

abbreviation entries :: "('k::linorder, 'v) fmap \<Rightarrow> ('k \<times> 'v) list" where
  "entries \<equiv> sorted_list_of_fmap"

text \<open>Any order in which a hash map may hand out its entries.\<close>

definition enumerates :: "('k \<times> 'v) list \<Rightarrow> ('k, 'v) fmap \<Rightarrow> bool" where
  "enumerates es m \<longleftrightarrow> distinct (map fst es) \<and> map_of es = fmlookup m"

lemma map_fst_entries: "map fst (entries m) = sorted_list_of_fset (fmdom m)"
  by (simp add: sorted_list_of_fmap_def comp_def)

lemma distinct_entries [simp]: "distinct (map fst (entries m))"
  by (simp add: map_fst_entries sorted_list_of_fset.rep_eq)

lemma enumerates_entries [simp, intro]: "enumerates (entries m) m"
  by (simp add: enumerates_def)

lemma enumerates_mem: "enumerates es m \<Longrightarrow> (k, v) \<in> set es \<longleftrightarrow> fmlookup m k = Some v"
  by (metis enumerates_def map_of_eq_Some_iff)

lemma mem_entries [simp]: "(k, v) \<in> set (entries m) \<longleftrightarrow> fmlookup m k = Some v"
  using enumerates_mem [OF enumerates_entries] .

text \<open>\<open>HashMap::retain\<close>: keep the entries that satisfy a predicate on key and value.\<close>

definition fmretain :: "('k \<Rightarrow> 'v \<Rightarrow> bool) \<Rightarrow> ('k, 'v) fmap \<Rightarrow> ('k, 'v) fmap" where
  "fmretain P m = fmfilter (\<lambda>k. P k (the (fmlookup m k))) m"

lemma fmlookup_fmretain [simp]:
  "fmlookup (fmretain P m) k =
     (case fmlookup m k of None \<Rightarrow> None | Some v \<Rightarrow> if P k v then Some v else None)"
  by (auto simp: fmretain_def split: option.splits)

text \<open>\<open>HashMap::len\<close>.\<close>

abbreviation fmlen :: "('k, 'v) fmap \<Rightarrow> nat" where
  "fmlen m \<equiv> fcard (fmdom m)"

section \<open>Sums over finite maps\<close>

definition fmsum :: "('k \<Rightarrow> 'v \<Rightarrow> nat) \<Rightarrow> ('k, 'v) fmap \<Rightarrow> nat" where
  "fmsum f m = (\<Sum>k \<in> fset (fmdom m). f k (the (fmlookup m k)))"

lemma fmsum_empty [simp]: "fmsum f fmempty = 0"
  by (simp add: fmsum_def)

lemma fmsum_drop:
  assumes "fmlookup m k = Some v"
  shows "fmsum f m = f k v + fmsum f (fmdrop k m)"
proof -
  have "k |\<in>| fmdom m"
    using assms by (simp add: fmdomI)
  then have "fmsum f m = f k (the (fmlookup m k))
      + (\<Sum>x \<in> fset (fmdom m) - {k}. f x (the (fmlookup m x)))"
    unfolding fmsum_def by (subst sum.remove [of _ k]) auto
  then show ?thesis
    using assms by (auto simp: fmsum_def intro!: sum.cong)
qed

lemma fmdrop_None: "fmlookup m k = None \<Longrightarrow> fmdrop k m = m"
  by (rule fmap_ext) auto

lemma fmsum_upd: "fmsum f (fmupd k v m) = f k v + fmsum f (fmdrop k m)"
  using fmsum_drop [of "fmupd k v m" k v f] by (simp add: fmdrop_fmupd)

lemma fmsum_upd_new: "fmlookup m k = None \<Longrightarrow> fmsum f (fmupd k v m) = f k v + fmsum f m"
  by (simp add: fmsum_upd fmdrop_None)

lemma fmsum_upd_old:
  "fmlookup m k = Some u \<Longrightarrow> fmsum f (fmupd k v m) + f k u = f k v + fmsum f m"
  by (simp add: fmsum_upd fmsum_drop)

lemma fmsum_cong_drop:
  "fmsum f (fmdrop k m) = fmsum f m - (case fmlookup m k of None \<Rightarrow> 0 | Some v \<Rightarrow> f k v)"
  by (cases "fmlookup m k") (auto simp: fmdrop_None dest: fmsum_drop [where f = f])

section \<open>Small list and option facts\<close>

lemma fold_max_ge: "x \<le> fold max xs x" for x :: "'a::linorder"
proof (induction xs arbitrary: x)
  case (Cons y ys)
  have "x \<le> max y x" by simp
  also have "\<dots> \<le> fold max ys (max y x)" by (rule Cons.IH)
  finally show ?case by simp
qed simp

lemma distinct_sort_key: "distinct (map g (sort_key f xs)) = distinct (map g xs)"
  by (rule mset_eq_imp_distinct_iff) (simp only: mset_map mset_sort)

text \<open>Sorting by distinct keys does not depend on the order of the input.\<close>

lemma sort_key_unique:
  assumes "mset xs = mset ys" and "distinct (map f xs)"
  shows "sort_key f xs = sort_key f ys"
proof (rule map_sorted_distinct_set_unique [of f])
  have "distinct (map f ys)"
    using assms by (metis mset_eq_imp_distinct_iff mset_map)
  then show "distinct (map f (sort_key f ys))"
    by (simp only: distinct_sort_key)
  show "inj_on f (set (sort_key f xs) \<union> set (sort_key f ys))"
    using assms mset_eq_setD [OF assms(1)] by (simp add: distinct_map)
  show "set (sort_key f xs) = set (sort_key f ys)"
    using mset_eq_setD [OF assms(1)] by simp
qed (use assms in \<open>simp_all only: distinct_sort_key sorted_sort_key\<close>)

end
