(* ===== verification/Vlc.thy ===== *)
theory Vlc
  imports Setu_Prelude
begin

text \<open>
  The vector logical clock: \<^verbatim>\<open>crates/setu-vlc/src/lib.rs\<close> (\<open>VectorClock\<close>, \<open>VLCSnapshot\<close>) and its
  node-local wrapper \<^verbatim>\<open>consensus/src/vlc.rs\<close> (\<open>VLC\<close>).

  \<open>VectorClock\<close> is the record \<open>vector_clock\<close>, \<open>VLCSnapshot\<close> the record \<open>vlc_snapshot\<close>, \<open>VLC\<close> the
  record \<open>vlc\<close>. The system clock that \<open>current_physical_time\<close> reads is the argument \<open>now\<close> of the
  operations that store it. The lemmas show that the two loops of \<open>happens_before\<close> decide the
  product order, that \<open>merge\<close> is the least upper bound whatever order the hash map is iterated
  in, and, through the interface \<open>causal_clock\<close>, the clock condition for every run of ticking and
  merging nodes.
\<close>

section \<open>Vector clocks\<close>

record vector_clock =
  clocks :: "(string, u64) fmap"

definition vc_new :: vector_clock where
  "vc_new = \<lparr>clocks = fmempty\<rparr>"

definition vc_with_node :: "string \<Rightarrow> vector_clock" where
  "vc_with_node node_id = vc_new\<lparr>clocks := fmupd node_id 0 (clocks vc_new)\<rparr>"

text \<open>\<open>entry(k).or_insert(0)\<close>: the stored time, 0 for an absent node.\<close>

definition or_insert0 :: "(string, u64) fmap \<Rightarrow> string \<Rightarrow> u64" where
  "or_insert0 m node_id = (case fmlookup m node_id of None \<Rightarrow> 0 | Some t \<Rightarrow> t)"

definition vc_increment :: "vector_clock \<Rightarrow> string \<Rightarrow> vector_clock \<times> u64" where
  "vc_increment vc node_id =
     (let entry = or_insert0 (clocks vc) node_id + 1
      in (vc\<lparr>clocks := fmupd node_id entry (clocks vc)\<rparr>, entry))"

definition vc_get :: "vector_clock \<Rightarrow> string \<Rightarrow> u64" where
  "vc_get vc node_id = (case fmlookup (clocks vc) node_id of None \<Rightarrow> 0 | Some t \<Rightarrow> t)"

definition vc_set :: "vector_clock \<Rightarrow> string \<Rightarrow> u64 \<Rightarrow> vector_clock" where
  "vc_set vc node_id value = vc\<lparr>clocks := fmupd node_id value (clocks vc)\<rparr>"

fun merge_loop :: "(string \<times> u64) list \<Rightarrow> (string, u64) fmap \<Rightarrow> (string, u64) fmap" where
  "merge_loop [] m = m"
| "merge_loop ((node_id, time) # es) m =
     merge_loop es (fmupd node_id (max (or_insert0 m node_id) time) m)"

definition vc_merge :: "vector_clock \<Rightarrow> vector_clock \<Rightarrow> vector_clock" where
  "vc_merge vc other = vc\<lparr>clocks := merge_loop (entries (clocks other)) (clocks vc)\<rparr>"

text \<open>
  The two loops of \<open>happens_before\<close>. The first returns \<open>None\<close> for its early \<open>return false\<close>; the
  second looks for a node that only \<open>other\<close> knows, with a positive time.
\<close>

fun hb_self_loop :: "vector_clock \<Rightarrow> (string \<times> u64) list \<Rightarrow> bool \<Rightarrow> bool option" where
  "hb_self_loop other [] strictly_less = Some strictly_less"
| "hb_self_loop other ((node_id, self_time) # es) strictly_less =
     (let other_time = vc_get other node_id
      in if other_time < self_time then None
         else hb_self_loop other es (strictly_less \<or> self_time < other_time))"

fun hb_other_loop :: "vector_clock \<Rightarrow> (string \<times> u64) list \<Rightarrow> bool \<Rightarrow> bool" where
  "hb_other_loop vc [] strictly_less = strictly_less"
| "hb_other_loop vc ((node_id, other_time) # es) strictly_less =
     hb_other_loop vc es
       (strictly_less \<or> (fmlookup (clocks vc) node_id = None \<and> 0 < other_time))"

definition vc_happens_before :: "vector_clock \<Rightarrow> vector_clock \<Rightarrow> bool" where
  "vc_happens_before vc other =
     (case hb_self_loop other (entries (clocks vc)) False of
        None \<Rightarrow> False
      | Some strictly_less \<Rightarrow> hb_other_loop vc (entries (clocks other)) strictly_less)"

definition vc_is_concurrent :: "vector_clock \<Rightarrow> vector_clock \<Rightarrow> bool" where
  "vc_is_concurrent vc other \<longleftrightarrow>
     \<not> vc_happens_before vc other \<and> \<not> vc_happens_before other vc \<and> vc \<noteq> other"

definition vc_nodes :: "vector_clock \<Rightarrow> string list" where
  "vc_nodes vc = map fst (entries (clocks vc))"

definition vc_len :: "vector_clock \<Rightarrow> nat" where
  "vc_len vc = fmlen (clocks vc)"

definition vc_is_empty :: "vector_clock \<Rightarrow> bool" where
  "vc_is_empty vc \<longleftrightarrow> vc_len vc = 0"

definition vc_remove_node :: "vector_clock \<Rightarrow> string \<Rightarrow> vector_clock \<times> u64 option" where
  "vc_remove_node vc node_id =
     (vc\<lparr>clocks := fmdrop node_id (clocks vc)\<rparr>, fmlookup (clocks vc) node_id)"

definition vc_reset_node :: "vector_clock \<Rightarrow> string \<Rightarrow> vector_clock" where
  "vc_reset_node vc node_id =
     (if fmlookup (clocks vc) node_id \<noteq> None
      then vc\<lparr>clocks := fmupd node_id 0 (clocks vc)\<rparr> else vc)"

definition vc_gc_zero_nodes :: "vector_clock \<Rightarrow> vector_clock \<times> nat" where
  "vc_gc_zero_nodes vc =
     (let m = fmretain (\<lambda>_ v. 0 < v) (clocks vc)
      in (vc\<lparr>clocks := m\<rparr>, fmlen (clocks vc) - fmlen m))"

definition vc_retain_active_nodes :: "vector_clock \<Rightarrow> string list \<Rightarrow> vector_clock \<times> nat" where
  "vc_retain_active_nodes vc active_nodes =
     (let m = fmretain (\<lambda>k _. k \<in> set active_nodes) (clocks vc)
      in (vc\<lparr>clocks := m\<rparr>, fmlen (clocks vc) - fmlen m))"

section \<open>Snapshots\<close>

record vlc_snapshot =
  vector_clock :: vector_clock
  logical_time :: u64
  physical_time :: u64

definition vlc_new :: "u64 \<Rightarrow> vlc_snapshot" where
  "vlc_new now = \<lparr>vector_clock = vc_new, logical_time = 0, physical_time = now\<rparr>"

definition vlc_new_with_clock :: "vector_clock \<Rightarrow> u64 \<Rightarrow> vlc_snapshot" where
  "vlc_new_with_clock vc now = \<lparr>vector_clock = vc, logical_time = 0, physical_time = now\<rparr>"

definition vlc_for_node :: "string \<Rightarrow> u64 \<Rightarrow> vlc_snapshot" where
  "vlc_for_node node_id now =
     \<lparr>vector_clock = vc_with_node node_id, logical_time = 0, physical_time = now\<rparr>"

definition vlc_increment :: "vlc_snapshot \<Rightarrow> string \<Rightarrow> u64 \<Rightarrow> vlc_snapshot" where
  "vlc_increment s node_id now =
     s\<lparr>logical_time := logical_time s + 1,
       vector_clock := fst (vc_increment (vector_clock s) node_id),
       physical_time := now\<rparr>"

definition vlc_receive :: "vlc_snapshot \<Rightarrow> vlc_snapshot \<Rightarrow> string \<Rightarrow> u64 \<Rightarrow> vlc_snapshot" where
  "vlc_receive s other local_node_id now =
     (let merged = vc_merge (vector_clock s) (vector_clock other)
      in s\<lparr>vector_clock := fst (vc_increment merged local_node_id),
           logical_time := max (logical_time s) (logical_time other) + 1,
           physical_time := now\<rparr>)"

definition vlc_happens_before :: "vlc_snapshot \<Rightarrow> vlc_snapshot \<Rightarrow> bool" where
  "vlc_happens_before s other =
     (if vc_happens_before (vector_clock s) (vector_clock other) then True
      else if vector_clock s = vector_clock other then logical_time s < logical_time other
      else False)"

definition vlc_is_concurrent :: "vlc_snapshot \<Rightarrow> vlc_snapshot \<Rightarrow> bool" where
  "vlc_is_concurrent s other = vc_is_concurrent (vector_clock s) (vector_clock other)"

definition vlc_gc_inactive_nodes :: "vlc_snapshot \<Rightarrow> string list \<Rightarrow> vlc_snapshot \<times> nat" where
  "vlc_gc_inactive_nodes s active_nodes =
     (let (vc, n) = vc_retain_active_nodes (vector_clock s) active_nodes
      in (s\<lparr>vector_clock := vc\<rparr>, n))"

section \<open>The node-local clock\<close>

record vlc =
  node_id :: string
  snapshot :: vlc_snapshot

definition VLC_new :: "string \<Rightarrow> u64 \<Rightarrow> vlc" where
  "VLC_new n now = \<lparr>node_id = n, snapshot = vlc_for_node n now\<rparr>"

definition VLC_tick :: "vlc \<Rightarrow> u64 \<Rightarrow> vlc" where
  "VLC_tick c now = c\<lparr>snapshot := vlc_increment (snapshot c) (node_id c) now\<rparr>"

definition VLC_merge :: "vlc \<Rightarrow> vlc_snapshot \<Rightarrow> u64 \<Rightarrow> vlc" where
  "VLC_merge c other now = c\<lparr>snapshot := vlc_receive (snapshot c) other (node_id c) now\<rparr>"

definition VLC_get_clock :: "vlc \<Rightarrow> string \<Rightarrow> u64" where
  "VLC_get_clock c n = vc_get (vector_clock (snapshot c)) n"

definition VLC_gc_inactive_nodes :: "vlc \<Rightarrow> string list \<Rightarrow> vlc \<times> nat" where
  "VLC_gc_inactive_nodes c active_nodes =
     (let (s, n) = vlc_gc_inactive_nodes (snapshot c) active_nodes
      in (c\<lparr>snapshot := s\<rparr>, n))"

definition VLC_restore_from_snapshot :: "vlc \<Rightarrow> vlc_snapshot \<Rightarrow> vlc" where
  "VLC_restore_from_snapshot c s = c\<lparr>snapshot := s\<rparr>"

section \<open>Reading a clock after an operation\<close>

lemma or_insert0_get: "or_insert0 (clocks vc) n = vc_get vc n"
  by (simp add: or_insert0_def vc_get_def)

lemma vc_get_new [simp]: "vc_get vc_new n = 0"
  by (simp add: vc_get_def vc_new_def)

lemma vc_get_with_node [simp]: "vc_get (vc_with_node m) n = 0"
  by (simp add: vc_get_def vc_new_def vc_with_node_def)

lemma vc_get_set [simp]: "vc_get (vc_set vc m t) n = (if n = m then t else vc_get vc n)"
  by (simp add: vc_get_def vc_set_def)

lemma vc_get_increment [simp]:
  "vc_get (fst (vc_increment vc m)) n = (if n = m then vc_get vc m + 1 else vc_get vc n)"
  by (simp add: vc_get_def vc_increment_def or_insert0_def Let_def)

lemma vc_increment_result: "snd (vc_increment vc m) = vc_get (fst (vc_increment vc m)) m"
  by (simp add: vc_increment_def or_insert0_get Let_def vc_get_def)

lemma merge_loop_get:
  "distinct (map fst es) \<Longrightarrow>
   or_insert0 (merge_loop es m) n =
     (case map_of es n of None \<Rightarrow> or_insert0 m n | Some t \<Rightarrow> max (or_insert0 m n) t)"
proof (induction es m rule: merge_loop.induct)
  case (2 k t es m)
  have "map_of es k = None"
    using "2.prems" by (simp add: map_of_eq_None_iff)
  with 2 show ?case
    by (auto simp: or_insert0_def split: option.splits)
qed simp

lemma max_zero_word [simp]: "max (x :: 'a::len word) 0 = x" "max 0 (x :: 'a::len word) = x"
  by (simp_all add: max_def)

lemma merge_loop_enumerates:
  "enumerates es (clocks other) \<Longrightarrow>
   or_insert0 (merge_loop es m) n = max (or_insert0 m n) (vc_get other n)"
  by (auto simp: enumerates_def merge_loop_get vc_get_def split: option.splits)

lemma vc_get_merge [simp]: "vc_get (vc_merge vc other) n = max (vc_get vc n) (vc_get other n)"
  using merge_loop_enumerates [OF enumerates_entries, of other "clocks vc" n]
  by (simp add: or_insert0_get [symmetric] vc_merge_def)

section \<open>The causal order\<close>

definition vc_le :: "vector_clock \<Rightarrow> vector_clock \<Rightarrow> bool" where
  "vc_le v w \<longleftrightarrow> (\<forall>n. vc_get v n \<le> vc_get w n)"

lemma hb_self_loop_eq:
  "hb_self_loop w es s =
     (if \<forall>(n, t) \<in> set es. t \<le> vc_get w n
      then Some (s \<or> (\<exists>(n, t) \<in> set es. t < vc_get w n)) else None)"
  by (induction w es s rule: hb_self_loop.induct) (auto simp: Let_def not_less)

lemma hb_other_loop_eq:
  "hb_other_loop v es s \<longleftrightarrow>
     s \<or> (\<exists>(n, t) \<in> set es. fmlookup (clocks v) n = None \<and> 0 < t)"
  by (induction v es s rule: hb_other_loop.induct) auto

lemma vc_happens_before_loops:
  assumes "enumerates es (clocks v)" and "enumerates fs (clocks w)"
  shows "(case hb_self_loop w es False of None \<Rightarrow> False
          | Some strictly_less \<Rightarrow> hb_other_loop v fs strictly_less)
         \<longleftrightarrow> vc_le v w \<and> (\<exists>n. vc_get v n < vc_get w n)"
proof -
  have le: "(\<forall>(n, t) \<in> set es. t \<le> vc_get w n) \<longleftrightarrow> vc_le v w"
  proof
    assume h: "\<forall>(n, t) \<in> set es. t \<le> vc_get w n"
    show "vc_le v w"
      unfolding vc_le_def
    proof
      fix n
      show "vc_get v n \<le> vc_get w n"
        using h enumerates_mem [OF assms(1), of n]
        by (cases "fmlookup (clocks v) n") (auto simp: vc_get_def [of v])
    qed
  next
    assume "vc_le v w"
    moreover have "t = vc_get v n" if "(n, t) \<in> set es" for n t
      using that enumerates_mem [OF assms(1)] by (simp add: vc_get_def)
    ultimately show "\<forall>(n, t) \<in> set es. t \<le> vc_get w n"
      by (auto simp: vc_le_def)
  qed
  have lt: "(\<exists>(n, t) \<in> set es. t < vc_get w n) \<or>
      (\<exists>(n, t) \<in> set fs. fmlookup (clocks v) n = None \<and> 0 < t)
      \<longleftrightarrow> (\<exists>n. vc_get v n < vc_get w n)" (is "?l \<longleftrightarrow> ?r")
  proof
    assume ?l
    then consider (self) n t where "(n, t) \<in> set es" "t < vc_get w n"
      | (other) n t where "(n, t) \<in> set fs" "fmlookup (clocks v) n = None" "0 < t"
      by blast
    then show ?r
    proof cases
      case self
      then have "vc_get v n = t"
        using enumerates_mem [OF assms(1)] by (simp add: vc_get_def)
      with self show ?thesis by blast
    next
      case other
      then have "vc_get w n = t" and "vc_get v n = 0"
        using enumerates_mem [OF assms(2)] by (simp_all add: vc_get_def)
      with other show ?thesis by metis
    qed
  next
    assume ?r
    then obtain n where n: "vc_get v n < vc_get w n" by blast
    show ?l
    proof (cases "fmlookup (clocks v) n")
      case None
      then have pos: "0 < vc_get w n"
        using n by (simp add: vc_get_def [of v])
      then obtain t where "fmlookup (clocks w) n = Some t" "0 < t"
        by (cases "fmlookup (clocks w) n") (auto simp: vc_get_def)
      with None show ?thesis
        using enumerates_mem [OF assms(2)] by blast
    next
      case (Some t)
      then have "(n, t) \<in> set es" and "t < vc_get w n"
        using n enumerates_mem [OF assms(1)] by (simp_all add: vc_get_def [of v])
      then show ?thesis by blast
    qed
  qed
  show ?thesis
    by (simp add: hb_self_loop_eq hb_other_loop_eq le lt)
qed

lemma vc_happens_before_le:
  "vc_happens_before v w \<longleftrightarrow> vc_le v w \<and> (\<exists>n. vc_get v n < vc_get w n)"
  unfolding vc_happens_before_def
  by (rule vc_happens_before_loops [OF enumerates_entries enumerates_entries])

lemma vc_le_trans: "vc_le u v \<Longrightarrow> vc_le v w \<Longrightarrow> vc_le u w"
  by (meson vc_le_def order_trans)

lemma vc_happens_before_trans:
  "vc_happens_before u v \<Longrightarrow> vc_happens_before v w \<Longrightarrow> vc_happens_before u w"
  unfolding vc_happens_before_le by (meson vc_le_def vc_le_trans order.strict_trans2)

lemma vc_happens_before_irrefl [simp]: "\<not> vc_happens_before v v"
  by (simp add: vc_happens_before_le)

lemma vlc_happens_before_trans:
  "vlc_happens_before r s \<Longrightarrow> vlc_happens_before s t \<Longrightarrow> vlc_happens_before r t"
  by (auto simp: vlc_happens_before_def split: if_splits dest: vc_happens_before_trans)

lemma vlc_happens_before_irrefl [simp]: "\<not> vlc_happens_before s s"
  by (simp add: vlc_happens_before_def)

lemma vc_increment_happens_before:
  "vc_le u v \<Longrightarrow> vc_get v n \<noteq> - 1 \<Longrightarrow> vc_happens_before u (fst (vc_increment v n))"
proof -
  assume le: "vc_le u v" and n: "vc_get v n \<noteq> - 1"
  have lt: "vc_get u n < vc_get v n + 1"
    using le n by (intro word_le_less_inc) (auto simp: vc_le_def)
  then have "vc_le u (fst (vc_increment v n))"
    using le by (auto simp: vc_le_def)
  moreover have "vc_get u n < vc_get (fst (vc_increment v n)) n"
    using lt by simp
  ultimately show ?thesis
    unfolding vc_happens_before_le by blast
qed

section \<open>The clock condition\<close>

text \<open>
  What a node needs of a clock: \<open>tick\<close> moves it forward, \<open>recv\<close> moves it past the old value and
  past the received one, and the order on snapshots is a strict order. \<open>tick_ok\<close> and \<open>recv_ok\<close> say
  that no counter overflows.
\<close>

locale causal_clock =
  fixes tick :: "'c \<Rightarrow> 'c"
    and recv :: "'c \<Rightarrow> 's \<Rightarrow> 'c"
    and snap :: "'c \<Rightarrow> 's"
    and before :: "'s \<Rightarrow> 's \<Rightarrow> bool"
    and tick_ok :: "'c \<Rightarrow> bool"
    and recv_ok :: "'c \<Rightarrow> 's \<Rightarrow> bool"
  assumes before_trans: "before r s \<Longrightarrow> before s t \<Longrightarrow> before r t"
    and before_irrefl: "\<not> before s s"
    and tick_before: "tick_ok c \<Longrightarrow> before (snap c) (snap (tick c))"
    and recv_before_local: "recv_ok c s \<Longrightarrow> before (snap c) (snap (recv c s))"
    and recv_before_remote: "recv_ok c s \<Longrightarrow> before s (snap (recv c s))"

text \<open>
  A run of nodes that tick or receive the snapshot of an earlier step. A step is refused when
  the message it receives does not exist yet or a counter would overflow.
\<close>

datatype 'n clock_step = Tick 'n | Recv 'n nat

fun step_node :: "'n clock_step \<Rightarrow> 'n" where
  "step_node (Tick n) = n"
| "step_node (Recv n i) = n"

type_synonym ('n, 'c, 's) clock_run = "('n \<Rightarrow> 'c) \<times> 's list"

fun clock_exec1 ::
  "('c \<Rightarrow> 'c) \<Rightarrow> ('c \<Rightarrow> 's \<Rightarrow> 'c) \<Rightarrow> ('c \<Rightarrow> 's) \<Rightarrow> ('c \<Rightarrow> bool) \<Rightarrow> ('c \<Rightarrow> 's \<Rightarrow> bool) \<Rightarrow>
   'n clock_step \<Rightarrow> ('n, 'c, 's) clock_run \<Rightarrow> ('n, 'c, 's) clock_run option" where
  "clock_exec1 tick recv snap tick_ok recv_ok (Tick n) (st, h) =
     (if tick_ok (st n)
      then let c = tick (st n) in Some (st(n := c), h @ [snap c]) else None)"
| "clock_exec1 tick recv snap tick_ok recv_ok (Recv n i) (st, h) =
     (if i < length h \<and> recv_ok (st n) (h ! i)
      then let c = recv (st n) (h ! i) in Some (st(n := c), h @ [snap c]) else None)"

fun clock_exec ::
  "('c \<Rightarrow> 'c) \<Rightarrow> ('c \<Rightarrow> 's \<Rightarrow> 'c) \<Rightarrow> ('c \<Rightarrow> 's) \<Rightarrow> ('c \<Rightarrow> bool) \<Rightarrow> ('c \<Rightarrow> 's \<Rightarrow> bool) \<Rightarrow>
   'n clock_step list \<Rightarrow> ('n, 'c, 's) clock_run \<Rightarrow> ('n, 'c, 's) clock_run option" where
  "clock_exec tick recv snap tick_ok recv_ok [] r = Some r"
| "clock_exec tick recv snap tick_ok recv_ok (a # as) r =
     Option.bind (clock_exec1 tick recv snap tick_ok recv_ok a r)
       (clock_exec tick recv snap tick_ok recv_ok as)"

text \<open>Lamport's causal order on the steps of a run: program order, messages, transitivity.\<close>

inductive causes :: "'n clock_step list \<Rightarrow> nat \<Rightarrow> nat \<Rightarrow> bool" for as where
  program_order: "i < j \<Longrightarrow> j < length as \<Longrightarrow> step_node (as ! i) = step_node (as ! j) \<Longrightarrow> causes as i j"
| message: "j < length as \<Longrightarrow> as ! j = Recv n i \<Longrightarrow> causes as i j"
| trans: "causes as i j \<Longrightarrow> causes as j k \<Longrightarrow> causes as i k"

lemma clock_exec_snoc:
  "clock_exec t r sn tok rok (as @ [a]) x =
     Option.bind (clock_exec t r sn tok rok as x) (clock_exec1 t r sn tok rok a)"
  by (induction as arbitrary: x) (auto split: bind_splits)

context causal_clock
begin

definition before_eq :: "'s \<Rightarrow> 's \<Rightarrow> bool" where
  "before_eq s t \<longleftrightarrow> s = t \<or> before s t"

lemma before_eq_before: "before_eq r s \<Longrightarrow> before s t \<Longrightarrow> before r t"
  using before_trans by (auto simp: before_eq_def)

definition ordered :: "'n clock_step list \<Rightarrow> ('n, 'c, 's) clock_run \<Rightarrow> bool" where
  "ordered as r \<longleftrightarrow> length (snd r) = length as \<and>
     (\<forall>i < length as. before_eq (snd r ! i) (snap (fst r (step_node (as ! i))))) \<and>
     (\<forall>j < length as. \<forall>i < j. step_node (as ! i) = step_node (as ! j) \<longrightarrow> before (snd r ! i) (snd r ! j)) \<and>
     (\<forall>j < length as. \<forall>n i. as ! j = Recv n i \<longrightarrow> i < j \<and> before (snd r ! i) (snd r ! j))"

lemma exec1_shape:
  assumes "clock_exec1 tick recv snap tick_ok recv_ok a (st, h) = Some r"
  obtains c where "r = (st(step_node a := c), h @ [snap c])"
    and "before (snap (st (step_node a))) (snap c)"
    and "\<And>n i. a = Recv n i \<Longrightarrow> i < length h \<and> before (h ! i) (snap c)"
  using assms
  by (cases a) (auto simp: Let_def split: if_splits
      intro: tick_before recv_before_local recv_before_remote)

lemma ordered_exec1:
  assumes "ordered as (st, h)"
    and "clock_exec1 tick recv snap tick_ok recv_ok a (st, h) = Some r"
  shows "ordered (as @ [a]) r"
proof -
  obtain c where r: "r = (st(step_node a := c), h @ [snap c])"
    and b: "before (snap (st (step_node a))) (snap c)"
    and m: "\<And>n i. a = Recv n i \<Longrightarrow> i < length h \<and> before (h ! i) (snap c)"
    using exec1_shape [OF assms(2)] by blast
  have len: "length h = length as"
    and last: "\<And>i. i < length as \<Longrightarrow> before_eq (h ! i) (snap (st (step_node (as ! i))))"
    using assms(1) by (auto simp: ordered_def)
  have new: "before (h ! i) (snap c)" if "i < length as" "step_node (as ! i) = step_node a" for i
    using before_eq_before [OF last [of i], of "snap c"] b that by simp
  have "before_eq ((h @ [snap c]) ! i) (snap ((st(step_node a := c)) (step_node ((as @ [a]) ! i))))"
    if "i < length (as @ [a])" for i
    using that new [of i] last [of i] len
    by (cases "i < length as") (auto simp: nth_append before_eq_def)
  moreover have "before ((h @ [snap c]) ! i) ((h @ [snap c]) ! j)"
    if "j < length (as @ [a])" "i < j" "step_node ((as @ [a]) ! i) = step_node ((as @ [a]) ! j)" for i j
    using that new [of i] len assms(1) unfolding ordered_def
    by (cases "j < length as") (auto simp: nth_append)
  moreover have "i < j \<and> before ((h @ [snap c]) ! i) ((h @ [snap c]) ! j)"
    if "j < length (as @ [a])" "(as @ [a]) ! j = Recv n i" for i j n
    using that m [of n i] len assms(1) unfolding ordered_def
    by (cases "j < length as") (auto simp: nth_append)
  ultimately show ?thesis
    using len unfolding r ordered_def by simp
qed

lemma ordered_exec:
  "clock_exec tick recv snap tick_ok recv_ok as (st, []) = Some r \<Longrightarrow> ordered as r"
proof (induction as arbitrary: r rule: rev_induct)
  case Nil
  then show ?case by (auto simp: ordered_def)
next
  case (snoc a as)
  then obtain st' h where "clock_exec tick recv snap tick_ok recv_ok as (st, []) = Some (st', h)"
    and "clock_exec1 tick recv snap tick_ok recv_ok a (st', h) = Some r"
    by (auto simp: clock_exec_snoc split: bind_splits)
  then show ?case
    using snoc.IH ordered_exec1 by blast
qed

lemma clock_condition:
  assumes "clock_exec tick recv snap tick_ok recv_ok as (st, []) = Some (st', h)"
    and "causes as i j"
  shows "before (h ! i) (h ! j)"
  using assms(2)
proof (induction rule: causes.induct)
  case (trans i j k)
  then show ?case using before_trans by blast
qed (use ordered_exec [OF assms(1)] in \<open>auto simp: ordered_def\<close>)

lemma causes_irrefl:
  assumes "clock_exec tick recv snap tick_ok recv_ok as (st, []) = Some (st', h)"
  shows "\<not> causes as i i"
  using clock_condition [OF assms] before_irrefl by blast

end

text \<open>The node-local clock provides the interface.\<close>

definition VLC_tick_ok :: "vlc \<Rightarrow> bool" where
  "VLC_tick_ok c \<longleftrightarrow> VLC_get_clock c (node_id c) \<noteq> - 1"

definition VLC_merge_ok :: "vlc \<Rightarrow> vlc_snapshot \<Rightarrow> bool" where
  "VLC_merge_ok c s \<longleftrightarrow>
     max (VLC_get_clock c (node_id c)) (vc_get (vector_clock s) (node_id c)) \<noteq> - 1"

lemma VLC_tick_before:
  "VLC_tick_ok c \<Longrightarrow> vlc_happens_before (snapshot c) (snapshot (VLC_tick c now))"
  using vc_increment_happens_before [of "vector_clock (snapshot c)" "vector_clock (snapshot c)"]
  by (simp add: VLC_tick_ok_def VLC_get_clock_def vlc_happens_before_def VLC_tick_def
      vlc_increment_def vc_le_def)

lemma VLC_merge_before:
  assumes "VLC_merge_ok c s"
  shows "vlc_happens_before (snapshot c) (snapshot (VLC_merge c s now))"
    and "vlc_happens_before s (snapshot (VLC_merge c s now))"
proof -
  let ?m = "vc_merge (vector_clock (snapshot c)) (vector_clock s)"
  have "vc_get ?m (node_id c) \<noteq> - 1"
    using assms by (simp add: VLC_merge_ok_def VLC_get_clock_def)
  then have "vc_le v ?m \<Longrightarrow> vc_happens_before v (fst (vc_increment ?m (node_id c)))" for v
    by (rule vc_increment_happens_before [rotated])
  then show "vlc_happens_before (snapshot c) (snapshot (VLC_merge c s now))"
    and "vlc_happens_before s (snapshot (VLC_merge c s now))"
    by (auto simp: vlc_happens_before_def VLC_merge_def vlc_receive_def vc_le_def Let_def)
qed

interpretation VLC_clock: causal_clock
  "\<lambda>c. VLC_tick c now" "\<lambda>c s. VLC_merge c s now" snapshot vlc_happens_before VLC_tick_ok VLC_merge_ok
  for now
proof (unfold_locales, goal_cases)
  case (1 r s t)
  then show ?case by (rule vlc_happens_before_trans)
qed (simp_all add: VLC_tick_before VLC_merge_before)

section \<open>Properties\<close>

text \<open>C34: \<open>VectorClock::happens_before\<close>, computed by its two loops with the early return, is
  exactly the order its documentation states: every component is at most the other clock's, and
  some component is strictly smaller, with absent nodes read as 0.\<close>

theorem vc_happens_before_iff:
  "vc_happens_before v w \<longleftrightarrow>
     (\<forall>n. vc_get v n \<le> vc_get w n) \<and> (\<exists>n. vc_get v n < vc_get w n)"
  by (simp add: vc_happens_before_le vc_le_def)

text \<open>C35: \<open>VectorClock::merge\<close> computes the least upper bound of the two clocks, in whatever
  order the other clock's hash map is iterated.\<close>

theorem vc_merge_lub:
  assumes "enumerates es (clocks w)"
  shows "let m = v\<lparr>clocks := merge_loop es (clocks v)\<rparr>
    in (\<forall>n. vc_get m n = vc_get (vc_merge v w) n)
      \<and> vc_le v m \<and> vc_le w m \<and> (\<forall>u. vc_le v u \<and> vc_le w u \<longrightarrow> vc_le m u)"
proof -
  have "vc_get (v\<lparr>clocks := merge_loop es (clocks v)\<rparr>) n = max (vc_get v n) (vc_get w n)" for n
    using merge_loop_enumerates [OF assms(1), of "clocks v" n]
    by (simp add: or_insert0_get [symmetric])
  then show ?thesis
    by (simp add: vc_le_def Let_def)
qed

theorem vc_merge_lub_witness:
  "enumerates [(''b'', 2), (''a'', 1)] (clocks (vc_set (vc_set vc_new ''a'' 1) ''b'' 2)) \<and>
   vc_le (vc_with_node ''b'') ((vc_with_node ''b'')\<lparr>clocks :=
     merge_loop [(''b'', 2), (''a'', 1)] (clocks (vc_with_node ''b''))\<rparr>)"
proof -
  have e: "enumerates [(''b'', 2), (''a'', 1)] (clocks (vc_set (vc_set vc_new ''a'' 1) ''b'' 2))"
    by (auto simp: enumerates_def vc_set_def vc_new_def fun_eq_iff)
  show ?thesis
    using e vc_merge_lub [OF e, of "vc_with_node ''b''"] by (simp add: Let_def)
qed

text \<open>C17: the clock condition. In every run of nodes that tick their clock (\<open>VLC::tick\<close>) or merge
  the snapshot of an earlier step (\<open>VLC::merge\<close>), with no counter at its maximum, a step that
  causally precedes another one (same node earlier, or message sent, transitively) has a
  snapshot that \<open>VLCSnapshot::happens_before\<close> the other's; and causality is acyclic.\<close>

theorem vlc_clock_condition:
  assumes "clock_exec (\<lambda>c. VLC_tick c now) (\<lambda>c s. VLC_merge c s now) snapshot
      VLC_tick_ok VLC_merge_ok as (st, []) = Some (st', h)"
    and "causes as i j"
  shows "vlc_happens_before (h ! i) (h ! j) \<and> \<not> vlc_happens_before (h ! j) (h ! i)"
proof -
  have b: "vlc_happens_before (h ! i) (h ! j)"
    by (rule VLC_clock.clock_condition [OF assms])
  then show ?thesis
    using vlc_happens_before_trans vlc_happens_before_irrefl by blast
qed

theorem vlc_clock_condition_witness:
  "\<exists>st' h. clock_exec (\<lambda>c. VLC_tick c 5) (\<lambda>c s. VLC_merge c s 5) snapshot
      VLC_tick_ok VLC_merge_ok [Tick ''a'', Recv ''b'' 0] (\<lambda>n. VLC_new n 0, []) = Some (st', h)
    \<and> causes [Tick ''a'', Recv ''b'' 0] 0 1
    \<and> vlc_happens_before (h ! 0) (h ! 1) \<and> \<not> vlc_happens_before (h ! 1) (h ! 0)"
proof -
  let ?run = "clock_exec (\<lambda>c. VLC_tick c 5) (\<lambda>c s. VLC_merge c s 5) snapshot
      VLC_tick_ok VLC_merge_ok [Tick ''a'', Recv ''b'' 0] (\<lambda>n. VLC_new n 0, [])"
  have "?run \<noteq> None"
    by (simp add: VLC_tick_ok_def VLC_merge_ok_def VLC_get_clock_def VLC_new_def VLC_tick_def
        vlc_for_node_def vlc_increment_def Let_def)
  then obtain st' h where r: "?run = Some (st', h)" by auto
  have c: "causes [Tick ''a'', Recv ''b'' 0] 0 1"
    by (rule causes.message [of _ _ "''b''"]) simp_all
  show ?thesis
    using r c vlc_clock_condition [OF r c] by blast
qed

text \<open>\<open>VectorClock::is_concurrent\<close> holds for two incomparable clocks, and also for two clocks
  that agree on every node but store different sets of nodes (one holds an explicit 0): the
  comparison \<open>self != other\<close> is on the stored maps.\<close>

lemma vc_is_concurrent_iff:
  "vc_is_concurrent v w \<longleftrightarrow>
     (\<exists>n. vc_get w n < vc_get v n) \<and> (\<exists>n. vc_get v n < vc_get w n)
     \<or> (\<forall>n. vc_get v n = vc_get w n) \<and> clocks v \<noteq> clocks w"
proof -
  have eq: "v = w \<longleftrightarrow> clocks v = clocks w"
    by (cases v; cases w) simp
  have differ: "clocks v \<noteq> clocks w" if "vc_get v n < vc_get w n" for n
    using that by (auto simp: vc_get_def)
  have le: "vc_le a b \<longleftrightarrow> \<not> (\<exists>n. vc_get b n < vc_get a n)" for a b
    by (auto simp: vc_le_def not_less)
  have same: "(\<forall>n. vc_get v n = vc_get w n) \<longleftrightarrow> vc_le v w \<and> vc_le w v"
    by (auto simp: vc_le_def intro: order_antisym)
  show ?thesis
    using differ unfolding vc_is_concurrent_def vc_happens_before_le eq same le by blast
qed

end
