(* ===== verification/Coin_Object.thy ===== *)
theory Coin_Object
  imports Setu_Prelude
begin

text \<open>
  The object model of \<^verbatim>\<open>types/src/object.rs\<close>, \<^verbatim>\<open>types/src/coin.rs\<close>, \<^verbatim>\<open>types/src/state_key.rs\<close> and
  \<^verbatim>\<open>types/src/hash_utils.rs\<close>.

  A 32-byte identifier (\<open>ObjectId\<close>, \<open>Address\<close>, \<open>ObjectDigest\<close>) is the \<open>256 word\<close> its bytes spell in
  big-endian order, so that the derived ordering of the byte arrays is the order of the words.
  The external crates are arguments: \<open>blake3\<close> maps the bytes fed to the hasher to the 32-byte
  output, \<open>bcs_...\<close> are the BCS encoders and decoders, \<open>hex_encode\<close> and \<open>hex_decode\<close> those of the
  hex crate. They are the fields of the record \<open>ext\<close>.
\<close>

section \<open>Bytes\<close>

text \<open>\<open>to_le_bytes\<close> of an integer of \<open>n\<close> bytes, and its inverse.\<close>

fun le_bytes :: "nat \<Rightarrow> 'a::len word \<Rightarrow> bytes" where
  "le_bytes 0 w = []"
| "le_bytes (Suc n) w = ucast w # le_bytes n (drop_bit 8 w)"

fun from_le_bytes :: "bytes \<Rightarrow> 'a::len word" where
  "from_le_bytes [] = 0"
| "from_le_bytes (b # bs) = or (ucast b) (push_bit 8 (from_le_bytes bs))"

definition be_bytes :: "nat \<Rightarrow> 'a::len word \<Rightarrow> bytes" where
  "be_bytes n w = rev (le_bytes n w)"

text \<open>\<open>str::as_bytes\<close>.\<close>

definition str_bytes :: "string \<Rightarrow> bytes" where
  "str_bytes s = map of_char s"

text \<open>Code equations over the integers.\<close>

fun int_bytes :: "nat \<Rightarrow> int \<Rightarrow> bytes" where
  "int_bytes 0 x = []"
| "int_bytes (Suc n) x = word_of_int (x mod 256) # int_bytes n (x div 256)"

fun bytes_int :: "bytes \<Rightarrow> int" where
  "bytes_int [] = 0"
| "bytes_int (b # bs) = uint b + 256 * bytes_int bs"

lemma le_bytes_code [code]: "le_bytes n w = int_bytes n (uint w)"
proof (induction n arbitrary: w)
  case (Suc n)
  have "ucast w = (word_of_int (uint w mod 256) :: 8 word)"
  proof (rule bit_word_eqI)
    have "uint w mod 256 = take_bit 8 (uint w)"
      by (simp add: take_bit_eq_mod)
    then show "bit (ucast w :: 8 word) m = bit (word_of_int (uint w mod 256) :: 8 word) m" if "m < LENGTH(8)" for m
      using that by (simp add: bit_simps)
  qed
  moreover have "uint (drop_bit 8 w) = uint w div 256"
  proof -
    have "uint (drop_bit 8 w) = drop_bit 8 (uint w)"
      by (rule bit_eqI) (auto simp: bit_simps dest: bit_imp_le_length)
    then show ?thesis
      by (simp add: drop_bit_eq_div)
  qed
  ultimately show ?case
    using Suc [of "drop_bit 8 w"] by simp
qed simp

lemma from_le_bytes_code [code]: "from_le_bytes bs = word_of_int (bytes_int bs)"
proof (induction bs)
  case (Cons b bs)
  have "or (ucast b) (push_bit 8 w) = ucast b + 256 * w" for w :: "'a word"
  proof -
    have "or (ucast b) (push_bit 8 w) = ucast b + push_bit 8 w"
    proof (rule disjunctive_add [symmetric])
      fix n
      have "bit b n \<Longrightarrow> n < 8"
        using bit_imp_le_length [of b n] by simp
      then show "\<not> bit (ucast b :: 'a word) n \<or> \<not> bit (push_bit 8 w) n"
        by (auto simp: bit_unsigned_iff bit_push_bit_iff)
    qed
    then show ?thesis
      by (simp add: push_bit_eq_mult)
  qed
  then have "from_le_bytes (b # bs) = (ucast b :: 'a word) + 256 * word_of_int (bytes_int bs)"
    by (simp only: from_le_bytes.simps Cons)
  also have "\<dots> = word_of_int (uint b + 256 * bytes_int bs)"
    by simp
  finally show ?case
    by (simp only: bytes_int.simps)
qed simp

lemma length_le_bytes [simp]: "length (le_bytes n w) = n"
  by (induction n arbitrary: w) simp_all

lemma length_be_bytes [simp]: "length (be_bytes n w) = n"
  by (simp add: be_bytes_def)

lemma from_le_bytes_le_bytes:
  "from_le_bytes (le_bytes n w) = take_bit (8 * n) (w :: 'a::len word)"
proof (induction n arbitrary: w)
  case (Suc n)
  show ?case
    unfolding le_bytes.simps from_le_bytes.simps Suc
    by (rule bit_word_eqI) (auto simp: bit_simps)
qed simp

lemma le_bytes_inj:
  assumes "le_bytes n v = le_bytes n w" and "LENGTH('a) \<le> 8 * n"
  shows "v = (w :: 'a::len word)"
proof -
  have "take_bit (8 * n) v = take_bit (8 * n) w"
    unfolding from_le_bytes_le_bytes [symmetric] assms(1) ..
  then show ?thesis
    using assms(2) by (simp add: take_bit_word_eq_self)
qed

lemma of_char_u8_inj: "(of_char c :: u8) = of_char d \<longleftrightarrow> c = d"
proof
  assume "(of_char c :: u8) = of_char d"
  moreover have "unat (of_char e :: u8) = of_char e" for e :: char
  proof -
    have "(of_char e :: u8) = word_of_nat (of_char e)"
      by (simp add: of_nat_of_char)
    moreover have "(of_char e :: nat) < 256"
      by simp
    ultimately show ?thesis
      by (simp only: unat_of_nat) simp
  qed
  ultimately have "(of_char c :: nat) = of_char d"
    by metis
  then show "c = d"
    by simp
qed simp

lemma str_bytes_inj [simp]: "str_bytes s = str_bytes t \<longleftrightarrow> s = t"
  unfolding str_bytes_def
  by (metis inj_map_eq_map injI of_char_u8_inj)

section \<open>Identifiers\<close>

type_synonym object_id = "256 word"
type_synonym address = "256 word"
type_synonym object_digest = "256 word"

record balance =
  bal_value :: u64

record coin_data =
  cd_coin_type :: string
  cd_balance :: balance

record coin_state =
  cs_owner :: string
  cs_balance :: u64
  cs_version :: u64
  cs_coin_type :: string

text \<open>
  JSON values, by the fields in the order the source writes them, and the external crates:
  \<open>json_to_vec\<close> is \<open>serde_json::to_vec\<close>, \<open>json_to_id\<close> is \<open>serde_json::from_value\<close> at the 32-byte
  identifiers.
\<close>

datatype json_value =
    JNull
  | JStr string
  | JNum u64
  | JObj "(string \<times> json_value) list"

record ext =
  blake3 :: "bytes \<Rightarrow> 256 word"
  bcs_coin_data :: "coin_data \<Rightarrow> bytes option"
  bcs_coin_data_de :: "bytes \<Rightarrow> coin_data option"
  bcs_coin_state :: "coin_state \<Rightarrow> bytes"
  bcs_coin_state_de :: "bytes \<Rightarrow> coin_state option"
  hex_encode :: "bytes \<Rightarrow> string"
  hex_decode :: "string \<Rightarrow> bytes option"
  json_to_vec :: "json_value \<Rightarrow> bytes option"
  json_to_id :: "json_value \<Rightarrow> 256 word option"

text \<open>
  What the model relies on: decoding a hex string or a BCS encoding yields what was encoded.
\<close>

definition hex_roundtrip :: "ext \<Rightarrow> bool" where
  "hex_roundtrip E \<longleftrightarrow> (\<forall>bs. hex_decode E (hex_encode E bs) = Some bs)"

definition bcs_roundtrip :: "ext \<Rightarrow> bool" where
  "bcs_roundtrip E \<longleftrightarrow>
     (\<forall>d. \<exists>bs. bcs_coin_data E d = Some bs \<and> bcs_coin_data_de E bs = Some d)"

definition id_from_bytes :: "string \<Rightarrow> bytes \<Rightarrow> string + 256 word" where
  "id_from_bytes err bs = (if length bs \<noteq> 32 then Inl err else Inr (from_le_bytes (rev bs)))"

definition ObjectId_from_bytes :: "bytes \<Rightarrow> string + object_id" where
  "ObjectId_from_bytes = id_from_bytes ''ObjectId must be 32 bytes''"

definition Address_from_bytes :: "bytes \<Rightarrow> string + address" where
  "Address_from_bytes = id_from_bytes ''Address must be 32 bytes''"

definition as_bytes :: "256 word \<Rightarrow> bytes" where
  "as_bytes w = be_bytes 32 w"

definition strip_prefix :: "string \<Rightarrow> string \<Rightarrow> string option" where
  "strip_prefix p s = (if take (length p) s = p then Some (drop (length p) s) else None)"

definition unprefix0x :: "string \<Rightarrow> string" where
  "unprefix0x s = (case strip_prefix ''0x'' s of None \<Rightarrow> s | Some t \<Rightarrow> t)"

definition ObjectId_from_hex :: "ext \<Rightarrow> string \<Rightarrow> string + object_id" where
  "ObjectId_from_hex E s =
     (case hex_decode E (unprefix0x s) of
        None \<Rightarrow> Inl ''Invalid hex string''
      | Some bs \<Rightarrow> ObjectId_from_bytes bs)"

definition Address_from_hex :: "ext \<Rightarrow> string \<Rightarrow> string + address" where
  "Address_from_hex E s =
     (case hex_decode E (unprefix0x s) of
        None \<Rightarrow> Inl ''Invalid hex string''
      | Some bs \<Rightarrow> Address_from_bytes bs)"

text \<open>\<open>Display\<close> of \<open>ObjectId\<close> and \<open>Address\<close>.\<close>

definition id_to_string :: "ext \<Rightarrow> 256 word \<Rightarrow> string" where
  "id_to_string E w = ''0x'' @ hex_encode E (as_bytes w)"

definition Address_normalize :: "ext \<Rightarrow> string \<Rightarrow> address" where
  "Address_normalize E s =
     (case Address_from_hex E s of Inr a \<Rightarrow> a | Inl _ \<Rightarrow> blake3 E (str_bytes s))"

definition setu_hash_with_domain :: "ext \<Rightarrow> string \<Rightarrow> bytes \<Rightarrow> 256 word" where
  "setu_hash_with_domain E domain d = blake3 E (str_bytes domain @ d)"

definition object_key :: "ext \<Rightarrow> object_id \<Rightarrow> string" where
  "object_key E i = ''oid:'' @ hex_encode E (as_bytes i)"

definition parse_object_key :: "ext \<Rightarrow> string \<Rightarrow> object_id option" where
  "parse_object_key E key =
     (case strip_prefix ''oid:'' key of
        None \<Rightarrow> None
      | Some hex_str \<Rightarrow>
          (case hex_decode E hex_str of
             None \<Rightarrow> None
           | Some bs \<Rightarrow> if length bs \<noteq> 32 then None else Some (from_le_bytes (rev bs))))"

definition starts_with :: "string \<Rightarrow> string \<Rightarrow> bool" where
  "starts_with s p \<longleftrightarrow> take (length p) s = p"

definition is_known_metadata_key :: "string \<Rightarrow> bool" where
  "is_known_metadata_key key \<longleftrightarrow>
     starts_with key ''user:'' \<or> starts_with key ''solver:'' \<or> starts_with key ''validator:''"

section \<open>Objects\<close>

datatype object_type = OwnedObject | SharedObject | ImmutableObject

datatype ownership =
    AddressOwner address
  | ObjectOwner object_id
  | Shared u64
  | Immutable

record object_metadata =
  md_id :: object_id
  md_version :: u64
  md_digest :: object_digest
  md_object_type :: object_type
  md_owner :: "address option"
  md_ownership :: ownership
  md_created_at :: u64
  md_updated_at :: u64

record 'd object =
  metadata :: object_metadata
  data :: 'd

text \<open>
  The digest of an object; \<open>ser\<close> is \<open>bcs::to_bytes\<close> at the type of the data, a failure of which
  leaves the data out of the digest.
\<close>

definition compute_digest ::
  "ext \<Rightarrow> ('d \<Rightarrow> bytes option) \<Rightarrow> 'd object \<Rightarrow> 'd object" where
  "compute_digest E ser obj =
     obj\<lparr>metadata := (metadata obj)\<lparr>md_digest :=
       blake3 E (str_bytes ''SETU_OBJ_DIGEST:'' @ as_bytes (md_id (metadata obj))
         @ le_bytes 8 (md_version (metadata obj))
         @ (case ser (data obj) of Some bs \<Rightarrow> bs | None \<Rightarrow> []))\<rparr>\<rparr>"

definition new_owned_at ::
  "ext \<Rightarrow> ('d \<Rightarrow> bytes option) \<Rightarrow> object_id \<Rightarrow> address \<Rightarrow> 'd \<Rightarrow> u64 \<Rightarrow> 'd object" where
  "new_owned_at E ser i owner d timestamp =
     compute_digest E ser
       \<lparr>metadata = \<lparr>md_id = i, md_version = 1, md_digest = 0, md_object_type = OwnedObject,
          md_owner = Some owner, md_ownership = AddressOwner owner,
          md_created_at = timestamp, md_updated_at = timestamp\<rparr>,
        data = d\<rparr>"

definition new_shared ::
  "ext \<Rightarrow> ('d \<Rightarrow> bytes option) \<Rightarrow> object_id \<Rightarrow> 'd \<Rightarrow> u64 \<Rightarrow> u64 \<Rightarrow> 'd object" where
  "new_shared E ser i d initial_version now =
     compute_digest E ser
       \<lparr>metadata = \<lparr>md_id = i, md_version = initial_version, md_digest = 0,
          md_object_type = SharedObject, md_owner = None, md_ownership = Shared initial_version,
          md_created_at = now, md_updated_at = now\<rparr>,
        data = d\<rparr>"

definition new_immutable ::
  "ext \<Rightarrow> ('d \<Rightarrow> bytes option) \<Rightarrow> object_id \<Rightarrow> 'd \<Rightarrow> u64 \<Rightarrow> 'd object" where
  "new_immutable E ser i d now =
     compute_digest E ser
       \<lparr>metadata = \<lparr>md_id = i, md_version = 1, md_digest = 0,
          md_object_type = ImmutableObject, md_owner = None, md_ownership = Immutable,
          md_created_at = now, md_updated_at = now\<rparr>,
        data = d\<rparr>"

definition is_owned :: "'d object \<Rightarrow> bool" where
  "is_owned obj \<longleftrightarrow> md_object_type (metadata obj) = OwnedObject"

definition is_owned_by :: "'d object \<Rightarrow> address \<Rightarrow> bool" where
  "is_owned_by obj a \<longleftrightarrow> md_owner (metadata obj) = Some a"

definition increment_version ::
  "ext \<Rightarrow> ('d \<Rightarrow> bytes option) \<Rightarrow> 'd object \<Rightarrow> 'd object" where
  "increment_version E ser obj =
     compute_digest E ser
       (obj\<lparr>metadata := (metadata obj)\<lparr>md_version := md_version (metadata obj) + 1\<rparr>\<rparr>)"

definition transfer_to ::
  "ext \<Rightarrow> ('d \<Rightarrow> bytes option) \<Rightarrow> 'd object \<Rightarrow> address \<Rightarrow> 'd object" where
  "transfer_to E ser obj new_owner =
     (if is_owned obj
      then increment_version E ser
             (obj\<lparr>metadata := (metadata obj)\<lparr>md_owner := Some new_owner,
                    md_ownership := AddressOwner new_owner\<rparr>\<rparr>)
      else obj)"

definition generate_object_id :: "ext \<Rightarrow> bytes \<Rightarrow> object_id" where
  "generate_object_id E seed = blake3 E (str_bytes ''SETU_GEN_OID:'' @ seed)"

section \<open>Coins\<close>

definition CoinState_new_with_type :: "string \<Rightarrow> u64 \<Rightarrow> string \<Rightarrow> coin_state" where
  "CoinState_new_with_type owner b ct =
     \<lparr>cs_owner = owner, cs_balance = b, cs_version = 1, cs_coin_type = ct\<rparr>"

definition CoinState_new :: "string \<Rightarrow> u64 \<Rightarrow> coin_state" where
  "CoinState_new owner b = CoinState_new_with_type owner b ''ROOT''"

definition balance_new :: "u64 \<Rightarrow> balance" where
  "balance_new v = \<lparr>bal_value = v\<rparr>"

text \<open>
  The error texts of \<open>withdraw\<close> and \<open>deposit\<close>, by their format arguments. Both operations return
  the balance they leave behind next to their result.
\<close>

datatype balance_error =
    HaveNeed u64 u64
  | BalanceOverflow

definition withdraw :: "balance \<Rightarrow> u64 \<Rightarrow> balance \<times> (balance_error + balance)" where
  "withdraw b amount =
     (if bal_value b < amount then (b, Inl (HaveNeed (bal_value b) amount))
      else (b\<lparr>bal_value := bal_value b - amount\<rparr>, Inr (balance_new amount)))"

definition deposit :: "balance \<Rightarrow> balance \<Rightarrow> balance \<times> (balance_error + unit)" where
  "deposit b other =
     (case checked_add (bal_value b) (bal_value other) of
        None \<Rightarrow> (b, Inl BalanceOverflow)
      | Some v \<Rightarrow> (b\<lparr>bal_value := v\<rparr>, Inr ()))"

type_synonym coin = "coin_data object"

definition coin_value :: "coin \<Rightarrow> u64" where
  "coin_value c = bal_value (cd_balance (data c))"

definition coin_type :: "coin \<Rightarrow> string" where
  "coin_type c = cd_coin_type (data c)"

text \<open>\<open>coin.data.balance = b\<close>.\<close>

definition set_balance :: "coin \<Rightarrow> balance \<Rightarrow> coin" where
  "set_balance c b = c\<lparr>data := (data c)\<lparr>cd_balance := b\<rparr>\<rparr>"

definition to_coin_state :: "ext \<Rightarrow> coin \<Rightarrow> coin_state" where
  "to_coin_state E c =
     \<lparr>cs_owner = (case md_owner (metadata c) of Some a \<Rightarrow> id_to_string E a | None \<Rightarrow> ''''),
      cs_balance = coin_value c, cs_version = md_version (metadata c), cs_coin_type = coin_type c\<rparr>"

definition to_coin_state_bytes :: "ext \<Rightarrow> coin \<Rightarrow> bytes" where
  "to_coin_state_bytes E c = bcs_coin_state E (to_coin_state E c)"

definition deterministic_coin_id :: "ext \<Rightarrow> address \<Rightarrow> string \<Rightarrow> object_id" where
  "deterministic_coin_id E owner subnet_id =
     blake3 E (str_bytes ''SETU_COIN_ID:'' @ str_bytes (id_to_string E owner)
       @ str_bytes '':'' @ str_bytes subnet_id)"

definition deterministic_coin_id_from_str :: "ext \<Rightarrow> string \<Rightarrow> string \<Rightarrow> object_id" where
  "deterministic_coin_id_from_str E owner subnet_id =
     blake3 E (str_bytes ''SETU_COIN_ID:'' @ str_bytes owner
       @ str_bytes '':'' @ str_bytes subnet_id)"

definition deterministic_genesis_coin_id ::
  "ext \<Rightarrow> string \<Rightarrow> string \<Rightarrow> u32 \<Rightarrow> object_id" where
  "deterministic_genesis_coin_id E owner subnet_id index =
     blake3 E (str_bytes ''SETU_GENESIS_MULTI:'' @ str_bytes owner
       @ str_bytes '':'' @ str_bytes subnet_id @ str_bytes '':'' @ le_bytes 4 index)"

definition coin_id_from_tx :: "ext \<Rightarrow> 256 word \<Rightarrow> u32 \<Rightarrow> object_id" where
  "coin_id_from_tx E tx_hash output_index =
     blake3 E (str_bytes ''SETU_COIN_TX:'' @ as_bytes tx_hash
       @ str_bytes '':'' @ le_bytes 4 output_index)"

definition create_coin_with_id ::
  "ext \<Rightarrow> object_id \<Rightarrow> address \<Rightarrow> u64 \<Rightarrow> string \<Rightarrow> u64 \<Rightarrow> coin" where
  "create_coin_with_id E i owner value ct timestamp =
     new_owned_at E (bcs_coin_data E) i owner
       \<lparr>cd_coin_type = ct, cd_balance = balance_new value\<rparr> timestamp"

text \<open>The object operations at the coin's data type.\<close>

abbreviation incr_coin :: "ext \<Rightarrow> coin \<Rightarrow> coin" where
  "incr_coin E \<equiv> increment_version E (bcs_coin_data E)"

abbreviation transfer_coin :: "ext \<Rightarrow> coin \<Rightarrow> address \<Rightarrow> coin" where
  "transfer_coin E \<equiv> transfer_to E (bcs_coin_data E)"

section \<open>What the object operations keep and change\<close>

lemma compute_digest_simps [simp]:
  "data (compute_digest E ser c) = data c"
  "md_id (metadata (compute_digest E ser c)) = md_id (metadata c)"
  "md_version (metadata (compute_digest E ser c)) = md_version (metadata c)"
  "md_object_type (metadata (compute_digest E ser c)) = md_object_type (metadata c)"
  "md_owner (metadata (compute_digest E ser c)) = md_owner (metadata c)"
  "md_ownership (metadata (compute_digest E ser c)) = md_ownership (metadata c)"
  by (simp_all add: compute_digest_def)

lemma increment_version_simps [simp]:
  "data (increment_version E ser c) = data c"
  "md_id (metadata (increment_version E ser c)) = md_id (metadata c)"
  "md_version (metadata (increment_version E ser c)) = md_version (metadata c) + 1"
  "md_object_type (metadata (increment_version E ser c)) = md_object_type (metadata c)"
  "md_owner (metadata (increment_version E ser c)) = md_owner (metadata c)"
  "md_ownership (metadata (increment_version E ser c)) = md_ownership (metadata c)"
  by (simp_all add: increment_version_def)

lemma transfer_to_simps [simp]:
  "data (transfer_to E ser c a) = data c"
  "md_id (metadata (transfer_to E ser c a)) = md_id (metadata c)"
  "md_object_type (metadata (transfer_to E ser c a)) = md_object_type (metadata c)"
  "is_owned c \<Longrightarrow> md_owner (metadata (transfer_to E ser c a)) = Some a"
  "is_owned c \<Longrightarrow> md_version (metadata (transfer_to E ser c a)) = md_version (metadata c) + 1"
  by (simp_all add: transfer_to_def)

lemma create_coin_with_id_simps [simp]:
  "data (create_coin_with_id E i a v ct t) = \<lparr>cd_coin_type = ct, cd_balance = \<lparr>bal_value = v\<rparr>\<rparr>"
  "md_id (metadata (create_coin_with_id E i a v ct t)) = i"
  "md_version (metadata (create_coin_with_id E i a v ct t)) = 1"
  "md_owner (metadata (create_coin_with_id E i a v ct t)) = Some a"
  "is_owned (create_coin_with_id E i a v ct t)"
  by (simp_all add: create_coin_with_id_def new_owned_at_def balance_new_def is_owned_def)

lemma coin_value_simps [simp]:
  "coin_value (increment_version E ser c) = coin_value c"
  "coin_value (transfer_to E ser c a) = coin_value c"
  "coin_value (create_coin_with_id E i a v ct t) = v"
  "coin_value (set_balance c b) = bal_value b"
  "coin_type (increment_version E ser c) = coin_type c"
  "coin_type (transfer_to E ser c a) = coin_type c"
  "coin_type (create_coin_with_id E i a v ct t) = ct"
  "coin_type (set_balance c b) = coin_type c"
  "metadata (set_balance c b) = metadata c"
  by (simp_all add: coin_value_def coin_type_def set_balance_def)

text \<open>A withdrawal moves the amount, a deposit adds it, in unbounded arithmetic.\<close>

lemma withdraw_ok:
  assumes "withdraw b amount = (b', Inr w)"
  shows "unat (bal_value b') + unat amount = unat (bal_value b)" "bal_value w = amount"
    "amount \<le> bal_value b"
  using assms
  by (auto simp: withdraw_def balance_new_def word_nat not_less word_le_nat_alt split: if_splits)

lemma withdraw_error: "withdraw b amount = (b', Inl e) \<Longrightarrow> b' = b \<and> bal_value b < amount"
  by (auto simp: withdraw_def split: if_splits)

lemma deposit_ok:
  assumes "deposit b c = (b', Inr u)"
  shows "unat (bal_value b') = unat (bal_value b) + unat (bal_value c)"
  using assms by (auto simp: deposit_def dest: checked_add_SomeD split: option.splits)

section \<open>Textual forms and derived identifiers\<close>

lemma from_le_bytes_as_bytes [simp]: "from_le_bytes (rev (as_bytes w)) = w"
  by (simp add: as_bytes_def be_bytes_def from_le_bytes_le_bytes take_bit_word_eq_self)

lemma length_as_bytes [simp]: "length (as_bytes w) = 32"
  by (simp add: as_bytes_def)

lemma as_bytes_inj [simp]: "as_bytes v = as_bytes w \<longleftrightarrow> v = w"
  by (metis from_le_bytes_as_bytes)

lemma strip_prefix_append [simp]: "strip_prefix p (p @ s) = Some s"
  by (simp add: strip_prefix_def)

lemma unprefix0x_0x: "unprefix0x (''0x'' @ s) = s"
  unfolding unprefix0x_def strip_prefix_append by simp

lemma Address_parse: "hex_roundtrip E \<Longrightarrow> Address_from_hex E (id_to_string E a) = Inr a"
  unfolding Address_from_hex_def id_to_string_def unprefix0x_0x
  by (simp add: hex_roundtrip_def Address_from_bytes_def id_from_bytes_def)

text \<open>
  C33: the textual forms of identifiers parse back: \<open>from_hex\<close> of the displayed address (or object
  id) is that address, and \<open>parse_object_key\<close> of the storage key of an object is its id, provided
  the hex crate decodes what it encoded.
\<close>

theorem id_text_roundtrip:
  assumes "hex_roundtrip E"
  shows "Address_from_hex E (id_to_string E a) = Inr a
    \<and> ObjectId_from_hex E (id_to_string E a) = Inr a
    \<and> Address_normalize E (id_to_string E a) = a
    \<and> parse_object_key E (object_key E a) = Some a
    \<and> \<not> is_known_metadata_key (object_key E a)"
proof (intro conjI)
  have dec: "hex_decode E (hex_encode E bs) = Some bs" for bs
    using assms by (simp add: hex_roundtrip_def)
  show addr: "Address_from_hex E (id_to_string E a) = Inr a"
    by (rule Address_parse [OF assms])
  show "ObjectId_from_hex E (id_to_string E a) = Inr a"
    unfolding ObjectId_from_hex_def id_to_string_def unprefix0x_0x
    by (simp add: dec ObjectId_from_bytes_def id_from_bytes_def)
  show "Address_normalize E (id_to_string E a) = a"
    by (simp add: Address_normalize_def addr)
  show "parse_object_key E (object_key E a) = Some a"
    unfolding parse_object_key_def object_key_def strip_prefix_append by (simp add: dec)
  show "\<not> is_known_metadata_key (object_key E a)"
    by (simp add: is_known_metadata_key_def starts_with_def object_key_def)
qed

text \<open>A concrete instance of the external crates.\<close>

definition sample_ext :: ext where
  "sample_ext =
     \<lparr>blake3 = (\<lambda>bs. from_le_bytes (drop (length bs - 4) bs)),
      bcs_coin_data = (\<lambda>d. Some (be_bytes 8 (bal_value (cd_balance d)) @ str_bytes (cd_coin_type d))),
      bcs_coin_data_de = (\<lambda>bs. Some \<lparr>cd_coin_type = map (\<lambda>b. char_of (unat b)) (drop 8 bs),
         cd_balance = balance_new (from_le_bytes (rev (take 8 bs)))\<rparr>),
      bcs_coin_state = (\<lambda>s. be_bytes 8 (cs_balance s) @ be_bytes 8 (cs_version s)
         @ str_bytes (cs_owner s) @ str_bytes (cs_coin_type s)),
      bcs_coin_state_de = (\<lambda>bs. None),
      hex_encode = map (\<lambda>b. char_of (unat b)),
      hex_decode = (\<lambda>s. Some (str_bytes s)),
      json_to_vec = (\<lambda>v. Some []),
      json_to_id = (\<lambda>v. case v of JNum n \<Rightarrow> Some (ucast n) | _ \<Rightarrow> None)\<rparr>"

lemma of_char_char_of_u8: "of_char (char_of (unat b) :: char) = (b :: u8)"
proof -
  have "of_char (char_of (unat b) :: char) = (of_nat (of_char (char_of (unat b) :: char)) :: u8)"
    by (simp only: of_nat_of_char)
  also have "of_char (char_of (unat b) :: char) = (unat b :: nat)"
    using unsigned_less [of b, where 'a = nat] by (simp add: of_char_of)
  finally show ?thesis
    by simp
qed

lemma char_of_of_char_u8: "char_of (unat (of_char c :: u8)) = c"
  by (metis of_char_u8_inj of_char_char_of_u8)

lemma sample_ext_laws: "hex_roundtrip sample_ext" "bcs_roundtrip sample_ext"
proof -
  show "hex_roundtrip sample_ext"
    by (simp add: hex_roundtrip_def sample_ext_def str_bytes_def of_char_char_of_u8 comp_def)
  have "from_le_bytes (rev (be_bytes 8 v)) = v" for v :: u64
    by (simp add: be_bytes_def from_le_bytes_le_bytes take_bit_word_eq_self)
  then show "bcs_roundtrip sample_ext"
    by (simp add: bcs_roundtrip_def sample_ext_def str_bytes_def balance_new_def
        char_of_of_char_u8 comp_def)
qed

theorem id_text_roundtrip_witness:
  "hex_roundtrip sample_ext
   \<and> parse_object_key sample_ext (object_key sample_ext 258) = Some 258
   \<and> Address_from_hex sample_ext (id_to_string sample_ext 7) = Inr 7"
  using id_text_roundtrip [OF sample_ext_laws(1), of 258]
    id_text_roundtrip [OF sample_ext_laws(1), of 7] sample_ext_laws(1)
  by simp

text \<open>
  The three ways a coin gets its id: as the output of a transaction, as a genesis coin, and as the
  single coin of an account in a subnet. \<open>origin_bytes\<close> is what each feeds to the hasher.
\<close>

datatype coin_origin =
    TxOutput "256 word" u32
  | GenesisCoin string string u32
  | AccountCoin string string

fun origin_id :: "ext \<Rightarrow> coin_origin \<Rightarrow> object_id" where
  "origin_id E (TxOutput h i) = coin_id_from_tx E h i"
| "origin_id E (GenesisCoin owner subnet i) = deterministic_genesis_coin_id E owner subnet i"
| "origin_id E (AccountCoin owner subnet) = deterministic_coin_id_from_str E owner subnet"

fun origin_bytes :: "coin_origin \<Rightarrow> bytes" where
  "origin_bytes (TxOutput h i) =
     str_bytes ''SETU_COIN_TX:'' @ as_bytes h @ str_bytes '':'' @ le_bytes 4 i"
| "origin_bytes (GenesisCoin owner subnet i) =
     str_bytes ''SETU_GENESIS_MULTI:'' @ str_bytes owner @ str_bytes '':'' @ str_bytes subnet
       @ str_bytes '':'' @ le_bytes 4 i"
| "origin_bytes (AccountCoin owner subnet) =
     str_bytes ''SETU_COIN_ID:'' @ str_bytes owner @ str_bytes '':'' @ str_bytes subnet"

text \<open>The canonical owner string the debug assertions ask for: \<open>0x\<close> and 64 digits.\<close>

fun origin_ok :: "coin_origin \<Rightarrow> bool" where
  "origin_ok (TxOutput h i) = True"
| "origin_ok (GenesisCoin owner subnet i) = (starts_with owner ''0x'' \<and> length owner = 66)"
| "origin_ok (AccountCoin owner subnet) = (starts_with owner ''0x'' \<and> length owner = 66)"

lemma length_str_bytes [simp]: "length (str_bytes s) = length s"
  by (simp add: str_bytes_def)

lemma append_le4_inj:
  "xs @ le_bytes 4 i = ys @ le_bytes 4 j \<longleftrightarrow> xs = ys \<and> i = j" for i j :: u32
  by (auto dest: le_bytes_inj [where 'a = 32])

lemma owner_split_inj:
  assumes "length o1 = length o2"
  shows "str_bytes o1 @ xs = str_bytes o2 @ ys \<longleftrightarrow> o1 = o2 \<and> xs = ys"
  using assms by (simp add: append_eq_append_conv)

lemma domain_differ:
  "str_bytes ''SETU_COIN_TX:'' @ xs \<noteq> str_bytes ''SETU_COIN_ID:'' @ ys"
  "str_bytes ''SETU_COIN_TX:'' @ xs \<noteq> str_bytes ''SETU_GENESIS_MULTI:'' @ ys"
  "str_bytes ''SETU_COIN_ID:'' @ xs \<noteq> str_bytes ''SETU_GENESIS_MULTI:'' @ ys"
  by (simp_all add: str_bytes_def of_char_u8_inj)

lemma genesis_bytes_inj:
  assumes "length o1 = length o2"
  shows "origin_bytes (GenesisCoin o1 s1 i) = origin_bytes (GenesisCoin o2 s2 j)
         \<longleftrightarrow> o1 = o2 \<and> s1 = s2 \<and> i = j"
proof -
  have "str_bytes s1 @ str_bytes '':'' @ le_bytes 4 i = str_bytes s2 @ str_bytes '':'' @ le_bytes 4 j
        \<longleftrightarrow> s1 = s2 \<and> i = j"
    unfolding append_assoc [symmetric] append_le4_inj by simp
  then show ?thesis
    by (simp add: owner_split_inj [OF assms])
qed

lemma origin_bytes_inj:
  assumes "origin_ok x" and "origin_ok y"
  shows "origin_bytes x = origin_bytes y \<longleftrightarrow> x = y"
proof (cases x)
  case (TxOutput h i)
  have "as_bytes h @ str_bytes '':'' @ le_bytes 4 i = as_bytes h' @ str_bytes '':'' @ le_bytes 4 j
        \<longleftrightarrow> h = h' \<and> i = j" for h' j
    unfolding append_assoc [symmetric] append_le4_inj by simp
  then show ?thesis
    using TxOutput domain_differ by (cases y) (simp_all del: append_assoc)
next
  case (GenesisCoin ow s i)
  then show ?thesis
    using assms domain_differ(2,3) [THEN not_sym] genesis_bytes_inj [of ow _ s i]
    by (cases y) (simp_all del: append_assoc origin_bytes.simps(2), simp_all)
next
  case (AccountCoin ow s)
  then show ?thesis
    using assms domain_differ(1) [THEN not_sym] domain_differ(3) owner_split_inj [of ow]
    by (cases y) (simp_all del: append_assoc)
qed

lemma origin_id_blake3: "origin_id E x = blake3 E (origin_bytes x)"
  by (cases x) (simp_all add: coin_id_from_tx_def deterministic_genesis_coin_id_def
      deterministic_coin_id_from_str_def)

text \<open>
  C32: coin ids are unique. Unless BLAKE3 collides on the two byte strings actually hashed, two
  coins have the same id only if they are the same output of the same transaction, the same
  genesis coin, or the same account coin: the domain prefixes and the fixed-width fields make the
  hashed bytes unambiguous. The owner of an account or genesis coin is assumed to be \<open>0x\<close> and 64
  characters, which the code checks with \<open>debug_assert\<close> only.
\<close>

theorem coin_id_unique:
  assumes "inj_on (blake3 E) {origin_bytes x, origin_bytes y}"
    and "origin_ok x" and "origin_ok y"
  shows "origin_id E x = origin_id E y \<longleftrightarrow> x = y"
  using inj_on_eq_iff [OF assms(1), of "origin_bytes x" "origin_bytes y"]
    origin_bytes_inj [OF assms(2,3)]
  by (simp add: origin_id_blake3)

text \<open>The sample hash reads the last four bytes, so the outputs of a transaction are numbered.\<close>

lemma from_le_bytes_u32: "from_le_bytes (le_bytes 4 i) = (ucast (i :: u32) :: 256 word)"
proof -
  have "(from_le_bytes (le_bytes n w) :: 256 word) = ucast (take_bit (8 * n) w)" for n and w :: u32
  proof (induction n arbitrary: w)
    case (Suc n)
    show ?case
      unfolding le_bytes.simps from_le_bytes.simps Suc
      by (rule bit_word_eqI) (auto simp: bit_simps)
  qed simp
  from this [of 4 i] show ?thesis
    by (simp add: take_bit_word_eq_self)
qed

lemma sample_coin_id: "coin_id_from_tx sample_ext h i = ucast i"
  by (simp add: coin_id_from_tx_def sample_ext_def from_le_bytes_u32)

theorem coin_id_unique_witness:
  "coin_id_from_tx sample_ext 5 0 \<noteq> coin_id_from_tx sample_ext 5 1"
proof -
  have "blake3 sample_ext (origin_bytes (TxOutput 5 i)) = ucast i" for i
    using sample_coin_id [of 5 i] by (simp add: coin_id_from_tx_def del: append_assoc)
  then have "inj_on (blake3 sample_ext) {origin_bytes (TxOutput 5 0), origin_bytes (TxOutput 5 1)}"
    by (simp add: inj_on_def del: origin_bytes.simps)
  from coin_id_unique [OF this] show ?thesis
    by simp
qed

end
