(* ===== verification/Runtime_State.thy ===== *)
theory Runtime_State
  imports Coin_Object
begin

text \<open>
  The state storage of \<^verbatim>\<open>crates/setu-runtime/src/state.rs\<close>, its errors
  (\<^verbatim>\<open>crates/setu-runtime/src/error.rs\<close>) and the object envelope of \<^verbatim>\<open>types/src/envelope.rs\<close>.

  The trait \<open>StateStore\<close> is the record \<open>state_store\<close> of its methods: a generic function over
  \<open>S: StateStore\<close> takes that record as an argument. \<open>InMemoryStateStore\<close> and
  \<open>InMemoryObjectStore\<close> are two such records. The locale \<open>coin_store\<close> is the contract of the trait:
  a view of the store as a finite map from ids to coins that the methods read and update. Both
  stores are shown to meet it for coins that have an owner, which includes that the ownership index and
  its reverse index agree with the owners recorded in the stored objects. The properties at the end cover
  runs with coins that have no owner too, for which the indexes keep the last owner.
\<close>

section \<open>Errors\<close>

text \<open>
  The texts of \<open>InvalidTransaction\<close>, by their format arguments.
\<close>

datatype invalid_tx =
    NotOwnedObject object_id
  | TransferAmountZero
  | BalanceProblem balance_error
  | MissingParameter string
  | BalanceOverflowInQuery
  | SimpleTransferInTee
  | TotalBalanceOverflow
  | NoSourceCoins
  | TooManySourceCoins nat nat
  | TargetIsSource object_id
  | DuplicateSource object_id
  | SourceNotOwned object_id address
  | CoinTypeMismatch string string
  | SplitAmountsEmpty
  | SplitAmountZero
  | TooManySplitOutputs nat nat
  | SplitAmountsOverflow

text \<open>\<open>Panic\<close> is the outcome of a Rust panic, which is no value of \<open>RuntimeError\<close>.\<close>

datatype runtime_error =
    ObjectNotFound object_id
  | InsufficientBalance address u64 u64
  | InvalidOwnership object_id address
  | InvalidAddress string
  | InvalidTransaction invalid_tx
  | StateError string
  | SerializationError
  | AccountFrozen string
  | Unknown string
  | Panic string

section \<open>The trait\<close>

record 's state_store =
  get_object :: "'s \<Rightarrow> object_id \<Rightarrow> runtime_error + coin option"
  set_object :: "'s \<Rightarrow> object_id \<Rightarrow> coin \<Rightarrow> (runtime_error + unit) \<times> 's"
  delete_object :: "'s \<Rightarrow> object_id \<Rightarrow> (runtime_error + unit) \<times> 's"
  get_owned_objects :: "'s \<Rightarrow> address \<Rightarrow> runtime_error + object_id list"
  get_raw_object :: "'s \<Rightarrow> object_id \<Rightarrow> runtime_error + bytes option"
  set_raw_object :: "'s \<Rightarrow> object_id \<Rightarrow> bytes \<Rightarrow> (runtime_error + unit) \<times> 's"

text \<open>The provided method \<open>exists\<close>.\<close>

definition store_exists :: "'s state_store \<Rightarrow> 's \<Rightarrow> object_id \<Rightarrow> bool" where
  "store_exists ops s i \<longleftrightarrow> (case get_object ops s i of Inr (Some _) \<Rightarrow> True | _ \<Rightarrow> False)"

section \<open>The ownership index\<close>

text \<open>
  Both stores keep the same pair of indexes: owner to ids, and id to owner.
\<close>

type_synonym owner_index = "(address, object_id list) fmap"
type_synonym reverse_index = "(object_id, address) fmap"

definition owned_ids :: "owner_index \<Rightarrow> address \<Rightarrow> object_id list" where
  "owned_ids idx a = (case fmlookup idx a of None \<Rightarrow> [] | Some l \<Rightarrow> l)"

text \<open>\<open>remove_from_ownership_index\<close>.\<close>

definition index_remove ::
  "owner_index \<Rightarrow> reverse_index \<Rightarrow> object_id \<Rightarrow> owner_index \<times> reverse_index" where
  "index_remove idx rv i =
     (case fmlookup rv i of
        None \<Rightarrow> (idx, rv)
      | Some old_owner \<Rightarrow>
          ((case fmlookup idx old_owner of
              None \<Rightarrow> idx
            | Some l \<Rightarrow> fmupd old_owner (filter (\<lambda>j. j \<noteq> i) l) idx),
           fmdrop i rv))"

text \<open>\<open>update_ownership_index\<close>: out of the old owner's list, onto the new owner's.\<close>

definition index_update ::
  "owner_index \<Rightarrow> reverse_index \<Rightarrow> object_id \<Rightarrow> address \<Rightarrow> owner_index \<times> reverse_index" where
  "index_update idx rv i new_owner =
     (let (idx1, rv1) = index_remove idx rv i
      in (fmupd new_owner (owned_ids idx1 new_owner @ [i]) idx1, fmupd i new_owner rv1))"

section \<open>InMemoryStateStore\<close>

record mem_store =
  objects :: "(object_id, coin) fmap"
  ownership_index :: owner_index
  object_owner :: reverse_index
  raw_objects :: "(object_id, bytes) fmap"

definition mem_new :: mem_store where
  "mem_new = \<lparr>objects = fmempty, ownership_index = fmempty, object_owner = fmempty,
     raw_objects = fmempty\<rparr>"

definition mem_update_ownership_index :: "mem_store \<Rightarrow> object_id \<Rightarrow> address \<Rightarrow> mem_store" where
  "mem_update_ownership_index s i new_owner =
     (let (idx, rv) = index_update (ownership_index s) (object_owner s) i new_owner
      in s\<lparr>ownership_index := idx, object_owner := rv\<rparr>)"

definition mem_remove_from_ownership_index :: "mem_store \<Rightarrow> object_id \<Rightarrow> mem_store" where
  "mem_remove_from_ownership_index s i =
     (let (idx, rv) = index_remove (ownership_index s) (object_owner s) i
      in s\<lparr>ownership_index := idx, object_owner := rv\<rparr>)"

definition mem_get_object :: "mem_store \<Rightarrow> object_id \<Rightarrow> runtime_error + coin option" where
  "mem_get_object s i = Inr (fmlookup (objects s) i)"

definition mem_set_object ::
  "mem_store \<Rightarrow> object_id \<Rightarrow> coin \<Rightarrow> (runtime_error + unit) \<times> mem_store" where
  "mem_set_object s i c =
     (let s1 = (case md_owner (metadata c) of
                  Some owner \<Rightarrow> mem_update_ownership_index s i owner
                | None \<Rightarrow> s)
      in (Inr (), s1\<lparr>objects := fmupd i c (objects s1)\<rparr>))"

definition mem_delete_object ::
  "mem_store \<Rightarrow> object_id \<Rightarrow> (runtime_error + unit) \<times> mem_store" where
  "mem_delete_object s i =
     (Inr (), mem_remove_from_ownership_index (s\<lparr>objects := fmdrop i (objects s)\<rparr>) i)"

definition mem_get_owned_objects :: "mem_store \<Rightarrow> address \<Rightarrow> runtime_error + object_id list" where
  "mem_get_owned_objects s a = Inr (owned_ids (ownership_index s) a)"

definition mem_get_raw_object :: "mem_store \<Rightarrow> object_id \<Rightarrow> runtime_error + bytes option" where
  "mem_get_raw_object s i = Inr (fmlookup (raw_objects s) i)"

definition mem_set_raw_object ::
  "mem_store \<Rightarrow> object_id \<Rightarrow> bytes \<Rightarrow> (runtime_error + unit) \<times> mem_store" where
  "mem_set_raw_object s i d = (Inr (), s\<lparr>raw_objects := fmupd i d (raw_objects s)\<rparr>)"

definition mem_ops :: "mem_store state_store" where
  "mem_ops = \<lparr>get_object = mem_get_object, set_object = mem_set_object,
     delete_object = mem_delete_object, get_owned_objects = mem_get_owned_objects,
     get_raw_object = mem_get_raw_object, set_raw_object = mem_set_raw_object\<rparr>"

definition saturating_add :: "'a::len word \<Rightarrow> 'a word \<Rightarrow> 'a word" where
  "saturating_add a b = (case checked_add a b of None \<Rightarrow> - 1 | Some c \<Rightarrow> c)"

definition get_total_balance :: "mem_store \<Rightarrow> address \<Rightarrow> u64" where
  "get_total_balance s owner =
     foldl (\<lambda>acc c. saturating_add acc (coin_value c)) 0
       (List.map_filter (fmlookup (objects s)) (owned_ids (ownership_index s) owner))"

section \<open>Object envelopes\<close>

definition ENVELOPE_MAGIC :: "16 word" where
  "ENVELOPE_MAGIC = 0x4553"

record envelope_metadata =
  em_id :: object_id
  em_owner :: address
  em_version :: u64
  em_ownership :: ownership
  em_digest :: object_digest

record object_envelope =
  magic :: "16 word"
  env_metadata :: envelope_metadata
  type_tag :: string
  env_data :: bytes

definition env_compute_digest :: "ext \<Rightarrow> bytes \<Rightarrow> object_digest" where
  "env_compute_digest E d = blake3 E (str_bytes ''SETU_OBJ_DIGEST:'' @ d)"

definition from_move_result ::
  "ext \<Rightarrow> object_id \<Rightarrow> address \<Rightarrow> u64 \<Rightarrow> ownership \<Rightarrow> string \<Rightarrow> bytes \<Rightarrow> object_envelope" where
  "from_move_result E i owner version own tag bcs_data =
     \<lparr>magic = ENVELOPE_MAGIC,
      env_metadata = \<lparr>em_id = i, em_owner = owner, em_version = version, em_ownership = own,
        em_digest = env_compute_digest E bcs_data\<rparr>,
      type_tag = tag, env_data = bcs_data\<rparr>"

definition coin_type_tag :: "string \<Rightarrow> string" where
  "coin_type_tag ct = ''0x1::coin::Coin<0x1::setu::'' @ ct @ ''>''"

definition from_coin_object :: "ext \<Rightarrow> coin \<Rightarrow> string + object_envelope" where
  "from_coin_object E c =
     (case bcs_coin_data E (data c) of
        None \<Rightarrow> Inl ''BCS serialize CoinData''
      | Some coin_bcs \<Rightarrow>
          Inr (from_move_result E (md_id (metadata c))
            (case md_owner (metadata c) of Some a \<Rightarrow> a | None \<Rightarrow> 0)
            (md_version (metadata c)) (md_ownership (metadata c))
            (coin_type_tag (coin_type c)) coin_bcs))"

definition from_legacy_coin_state ::
  "ext \<Rightarrow> object_id \<Rightarrow> coin_state \<Rightarrow> string + object_envelope" where
  "from_legacy_coin_state E i cs =
     (let owner = Address_normalize E (cs_owner cs);
          coin_data = \<lparr>cd_coin_type = cs_coin_type cs, cd_balance = balance_new (cs_balance cs)\<rparr>
      in case bcs_coin_data E coin_data of
           None \<Rightarrow> Inl ''BCS serialize CoinData''
         | Some bcs_data \<Rightarrow>
             Inr (from_move_result E i owner (cs_version cs) (AddressOwner owner)
               (coin_type_tag (cs_coin_type cs)) bcs_data))"

definition try_as_coin_object :: "ext \<Rightarrow> object_envelope \<Rightarrow> coin option" where
  "try_as_coin_object E env =
     (case bcs_coin_data_de E (env_data env) of
        None \<Rightarrow> None
      | Some cd \<Rightarrow>
          Some \<lparr>metadata = \<lparr>md_id = em_id (env_metadata env), md_version = em_version (env_metadata env),
                  md_digest = em_digest (env_metadata env), md_object_type = OwnedObject,
                  md_owner = Some (em_owner (env_metadata env)),
                  md_ownership = em_ownership (env_metadata env),
                  md_created_at = 0, md_updated_at = 0\<rparr>,
                data = cd\<rparr>)"

text \<open>
  Format detection: the magic in the first two bytes selects the envelope decoder \<open>de\<close> (the BCS
  decoder at \<open>ObjectEnvelope\<close>), and what does not decode is tried as a legacy coin.
\<close>

datatype storage_format =
    Envelope object_envelope
  | LegacyCoinState coin_state
  | UnknownFormat

definition detect_and_parse ::
  "ext \<Rightarrow> (bytes \<Rightarrow> object_envelope option) \<Rightarrow> bytes \<Rightarrow> storage_format" where
  "detect_and_parse E de bs =
     (let legacy = (case bcs_coin_state_de E bs of
                      Some cs \<Rightarrow> LegacyCoinState cs
                    | None \<Rightarrow> UnknownFormat)
      in if 2 \<le> length bs \<and> from_le_bytes [bs ! 0, bs ! 1] = ENVELOPE_MAGIC
         then (case de bs of Some env \<Rightarrow> Envelope env | None \<Rightarrow> legacy)
         else legacy)"

section \<open>InMemoryObjectStore\<close>

record obj_store =
  envelopes :: "(object_id, object_envelope) fmap"
  os_raw :: "(string, bytes) fmap"
  os_raw_objects :: "(object_id, bytes) fmap"
  os_ownership_index :: owner_index
  os_object_owner :: reverse_index

definition os_new :: obj_store where
  "os_new = \<lparr>envelopes = fmempty, os_raw = fmempty, os_raw_objects = fmempty,
     os_ownership_index = fmempty, os_object_owner = fmempty\<rparr>"

definition os_remove_from_ownership_index :: "obj_store \<Rightarrow> object_id \<Rightarrow> obj_store" where
  "os_remove_from_ownership_index s i =
     (let (idx, rv) = index_remove (os_ownership_index s) (os_object_owner s) i
      in s\<lparr>os_ownership_index := idx, os_object_owner := rv\<rparr>)"

definition os_get_raw :: "obj_store \<Rightarrow> string \<Rightarrow> runtime_error + bytes option" where
  "os_get_raw s key = Inr (fmlookup (os_raw s) key)"

definition os_set_raw :: "obj_store \<Rightarrow> string \<Rightarrow> bytes \<Rightarrow> (runtime_error + unit) \<times> obj_store" where
  "os_set_raw s key v = (Inr (), s\<lparr>os_raw := fmupd key v (os_raw s)\<rparr>)"

definition os_delete_raw :: "obj_store \<Rightarrow> string \<Rightarrow> (runtime_error + unit) \<times> obj_store" where
  "os_delete_raw s key = (Inr (), s\<lparr>os_raw := fmdrop key (os_raw s)\<rparr>)"

definition os_get_envelope :: "obj_store \<Rightarrow> object_id \<Rightarrow> runtime_error + object_envelope option" where
  "os_get_envelope s i = Inr (fmlookup (envelopes s) i)"

definition os_set_envelope ::
  "obj_store \<Rightarrow> object_id \<Rightarrow> object_envelope \<Rightarrow> (runtime_error + unit) \<times> obj_store" where
  "os_set_envelope s i env =
     (let owner = em_owner (env_metadata env);
          s1 = os_remove_from_ownership_index s i;
          s2 = s1\<lparr>os_ownership_index :=
                 fmupd owner (owned_ids (os_ownership_index s1) owner @ [i]) (os_ownership_index s1)\<rparr>;
          s3 = s2\<lparr>os_object_owner := fmupd i owner (os_object_owner s2)\<rparr>
      in (Inr (), s3\<lparr>envelopes := fmupd i env (envelopes s3)\<rparr>))"

definition os_delete_envelope ::
  "obj_store \<Rightarrow> object_id \<Rightarrow> (runtime_error + unit) \<times> obj_store" where
  "os_delete_envelope s i =
     (Inr (), os_remove_from_ownership_index (s\<lparr>envelopes := fmdrop i (envelopes s)\<rparr>) i)"

definition os_get_owned_ids :: "obj_store \<Rightarrow> address \<Rightarrow> runtime_error + object_id list" where
  "os_get_owned_ids s a = Inr (owned_ids (os_ownership_index s) a)"

definition os_get_object :: "ext \<Rightarrow> obj_store \<Rightarrow> object_id \<Rightarrow> runtime_error + coin option" where
  "os_get_object E s i =
     (case fmlookup (envelopes s) i of
        Some env \<Rightarrow> Inr (try_as_coin_object E env)
      | None \<Rightarrow> Inr None)"

definition os_set_object ::
  "ext \<Rightarrow> obj_store \<Rightarrow> object_id \<Rightarrow> coin \<Rightarrow> (runtime_error + unit) \<times> obj_store" where
  "os_set_object E s i c =
     (case from_coin_object E c of
        Inl e \<Rightarrow> (Inl (StateError e), s)
      | Inr env \<Rightarrow> os_set_envelope s i env)"

definition os_get_raw_object :: "obj_store \<Rightarrow> object_id \<Rightarrow> runtime_error + bytes option" where
  "os_get_raw_object s i = Inr (fmlookup (os_raw_objects s) i)"

definition os_set_raw_object ::
  "obj_store \<Rightarrow> object_id \<Rightarrow> bytes \<Rightarrow> (runtime_error + unit) \<times> obj_store" where
  "os_set_raw_object s i d = (Inr (), s\<lparr>os_raw_objects := fmupd i d (os_raw_objects s)\<rparr>)"

definition os_ops :: "ext \<Rightarrow> obj_store state_store" where
  "os_ops E = \<lparr>get_object = os_get_object E, set_object = os_set_object E,
     delete_object = os_delete_envelope, get_owned_objects = os_get_owned_ids,
     get_raw_object = os_get_raw_object, set_raw_object = os_set_raw_object\<rparr>"

section \<open>The indexes agree\<close>

definition index_ok :: "owner_index \<Rightarrow> reverse_index \<Rightarrow> bool" where
  "index_ok idx rv \<longleftrightarrow>
     (\<forall>i a. fmlookup rv i = Some a \<longleftrightarrow> i \<in> set (owned_ids idx a)) \<and>
     (\<forall>a. distinct (owned_ids idx a))"

lemma index_okD:
  assumes "index_ok idx rv"
  shows "i \<in> set (owned_ids idx a) \<longleftrightarrow> fmlookup rv i = Some a" "distinct (owned_ids idx a)"
  using assms by (simp_all add: index_ok_def)

lemma index_ok_empty [simp]: "index_ok fmempty fmempty"
  by (simp add: index_ok_def owned_ids_def)

lemma owned_ids_upd [simp]:
  "owned_ids (fmupd b l idx) a = (if a = b then l else owned_ids idx a)"
  by (simp add: owned_ids_def)

lemma index_remove_rev [simp]: "snd (index_remove idx rv i) = fmdrop i rv"
  by (simp add: index_remove_def fmdrop_None split: option.split)

lemma index_remove_owned:
  assumes "index_ok idx rv"
  shows "owned_ids (fst (index_remove idx rv i)) a = filter (\<lambda>j. j \<noteq> i) (owned_ids idx a)"
proof (cases "fmlookup rv i = Some a")
  case True
  then have "i \<in> set (owned_ids idx a)"
    by (simp add: index_okD [OF assms])
  then obtain l where "fmlookup idx a = Some l"
    by (cases "fmlookup idx a") (auto simp: owned_ids_def)
  then show ?thesis
    using True by (simp add: index_remove_def) (simp add: owned_ids_def)
next
  case False
  then have "i \<notin> set (owned_ids idx a)"
    by (simp add: index_okD [OF assms])
  then have "filter (\<lambda>j. j \<noteq> i) (owned_ids idx a) = owned_ids idx a"
    by (auto simp: filter_id_conv)
  then show ?thesis
    using False by (auto simp: index_remove_def split: option.split)
qed

lemma index_remove_ok:
  assumes "index_ok idx rv"
  shows "index_ok (fst (index_remove idx rv i)) (fmdrop i rv)"
  using assms by (auto simp: index_ok_def index_remove_owned)

lemma index_update_rev [simp]: "snd (index_update idx rv i a) = fmupd i a rv"
proof -
  have "fmupd i a (fmdrop i rv) = fmupd i a rv"
    by (rule fmap_ext) simp
  then show ?thesis
    using index_remove_rev [of idx rv i] by (simp add: index_update_def split_beta)
qed

lemma index_update_ok:
  assumes "index_ok idx rv"
  shows "index_ok (fst (index_update idx rv i a)) (fmupd i a rv)"
  using assms
  by (auto simp: index_ok_def index_update_def split_beta index_remove_owned)

section \<open>The contract of the trait\<close>

text \<open>
  A state satisfying \<open>inv\<close> stands for the map \<open>view\<close> from ids to coins. A store may keep a coin in
  a normal form \<open>norm\<close>, which has the same data, id, version and owner. The list of owned ids has
  no repetition and has exactly the coins whose recorded owner is the address (a store may list
  other objects too).
\<close>

locale coin_store =
  fixes ops :: "'s state_store"
    and inv :: "'s \<Rightarrow> bool"
    and view :: "'s \<Rightarrow> (object_id, coin) fmap"
    and norm :: "coin \<Rightarrow> coin"
  assumes get_law: "inv s \<Longrightarrow> get_object ops s i = Inr (fmlookup (view s) i)"
    and set_ok: "inv s \<Longrightarrow> md_owner (metadata c) = Some a \<Longrightarrow> fst (set_object ops s i c) = Inr ()"
    and set_inv: "inv s \<Longrightarrow> md_owner (metadata c) = Some a \<Longrightarrow> inv (snd (set_object ops s i c))"
    and set_view: "inv s \<Longrightarrow> md_owner (metadata c) = Some a \<Longrightarrow>
      view (snd (set_object ops s i c)) = fmupd i (norm c) (view s)"
    and delete_ok: "inv s \<Longrightarrow> fst (delete_object ops s i) = Inr ()"
    and delete_inv: "inv s \<Longrightarrow> inv (snd (delete_object ops s i))"
    and delete_view: "inv s \<Longrightarrow> view (snd (delete_object ops s i)) = fmdrop i (view s)"
    and owned_law: "inv s \<Longrightarrow> \<exists>l. get_owned_objects ops s a = Inr l \<and> distinct l \<and>
      (\<forall>i c. fmlookup (view s) i = Some c \<longrightarrow> (i \<in> set l \<longleftrightarrow> md_owner (metadata c) = Some a))"
    and raw_get_ok: "inv s \<Longrightarrow> \<exists>v. get_raw_object ops s i = Inr v"
    and raw_set_ok: "inv s \<Longrightarrow> fst (set_raw_object ops s i d) = Inr ()"
    and raw_set_inv: "inv s \<Longrightarrow> inv (snd (set_raw_object ops s i d))"
    and raw_set_view: "inv s \<Longrightarrow> view (snd (set_raw_object ops s i d)) = view s"
    and raw_get_set: "inv s \<Longrightarrow>
      get_raw_object ops (snd (set_raw_object ops s i d)) j
        = (if j = i then Inr (Some d) else get_raw_object ops s j)"
    and norm_data: "data (norm c) = data c"
    and norm_id: "md_id (metadata (norm c)) = md_id (metadata c)"
    and norm_version: "md_version (metadata (norm c)) = md_version (metadata c)"
    and norm_owner: "md_owner (metadata c) = Some a \<Longrightarrow> md_owner (metadata (norm c)) = Some a"
    and norm_owned: "is_owned c \<Longrightarrow> is_owned (norm c)"
begin

lemma norm_value [simp]: "coin_value (norm c) = coin_value c" "coin_type (norm c) = coin_type c"
  by (simp_all add: coin_value_def coin_type_def norm_data)

lemma exists_iff: "inv s \<Longrightarrow> store_exists ops s i \<longleftrightarrow> i |\<in>| fmdom (view s)"
  by (auto simp: store_exists_def get_law fmlookup_dom_iff split: option.splits)

end

text \<open>\<open>InMemoryStateStore\<close>: the view is the object map itself.\<close>

definition mem_inv :: "mem_store \<Rightarrow> bool" where
  "mem_inv s \<longleftrightarrow> index_ok (ownership_index s) (object_owner s) \<and>
     (\<forall>i. fmlookup (object_owner s) i = Option.bind (fmlookup (objects s) i) (\<lambda>c. md_owner (metadata c)))"

lemma mem_set_object_simps:
  assumes "md_owner (metadata c) = Some a"
  shows "fst (mem_set_object s i c) = Inr ()"
    and "objects (snd (mem_set_object s i c)) = fmupd i c (objects s)"
    and "ownership_index (snd (mem_set_object s i c))
           = fst (index_update (ownership_index s) (object_owner s) i a)"
    and "object_owner (snd (mem_set_object s i c)) = fmupd i a (object_owner s)"
    and "raw_objects (snd (mem_set_object s i c)) = raw_objects s"
  using assms index_update_rev [of "ownership_index s" "object_owner s" i a]
  by (simp_all add: mem_set_object_def mem_update_ownership_index_def split_beta)

lemma mem_delete_object_simps:
  "fst (mem_delete_object s i) = Inr ()"
  "objects (snd (mem_delete_object s i)) = fmdrop i (objects s)"
  "ownership_index (snd (mem_delete_object s i))
     = fst (index_remove (ownership_index s) (object_owner s) i)"
  "object_owner (snd (mem_delete_object s i)) = fmdrop i (object_owner s)"
  "raw_objects (snd (mem_delete_object s i)) = raw_objects s"
  by (simp_all add: mem_delete_object_def mem_remove_from_ownership_index_def split_beta)

lemma mem_set_object_inv:
  "mem_inv s \<Longrightarrow> md_owner (metadata c) = Some a \<Longrightarrow> mem_inv (snd (mem_set_object s i c))"
  by (auto simp: mem_inv_def mem_set_object_simps index_update_ok)

lemma mem_delete_object_inv: "mem_inv s \<Longrightarrow> mem_inv (snd (mem_delete_object s i))"
  by (auto simp: mem_inv_def mem_delete_object_simps index_remove_ok)

lemma mem_inv_owned:
  assumes "mem_inv s"
  shows "i \<in> set (owned_ids (ownership_index s) a) \<longleftrightarrow>
         (\<exists>c. fmlookup (objects s) i = Some c \<and> md_owner (metadata c) = Some a)"
  using assms by (auto simp: mem_inv_def index_okD bind_eq_Some_conv)

lemma mem_inv_distinct: "mem_inv s \<Longrightarrow> distinct (owned_ids (ownership_index s) a)"
  using index_okD(2) by (auto simp: mem_inv_def)

interpretation mem: coin_store mem_ops mem_inv objects id
  by unfold_locales
    (simp_all add: mem_ops_def mem_get_object_def mem_set_object_simps mem_set_object_inv
      mem_delete_object_simps mem_delete_object_inv mem_get_owned_objects_def mem_inv_owned
      mem_inv_distinct mem_get_raw_object_def mem_set_raw_object_def,
      simp_all add: mem_inv_def)

text \<open>
  \<open>InMemoryObjectStore\<close>: the view decodes the stored envelopes; the normal form is what a coin
  reads back as after its envelope was stored.
\<close>

definition os_inv :: "obj_store \<Rightarrow> bool" where
  "os_inv s \<longleftrightarrow> index_ok (os_ownership_index s) (os_object_owner s) \<and>
     (\<forall>i. fmlookup (os_object_owner s) i =
        map_option (\<lambda>env. em_owner (env_metadata env)) (fmlookup (envelopes s) i))"

definition os_view :: "ext \<Rightarrow> obj_store \<Rightarrow> (object_id, coin) fmap" where
  "os_view E s = fmmap (\<lambda>env. the (try_as_coin_object E env))
     (fmfilter (\<lambda>i. Option.bind (fmlookup (envelopes s) i) (try_as_coin_object E) \<noteq> None)
       (envelopes s))"

definition os_norm :: "ext \<Rightarrow> coin \<Rightarrow> coin" where
  "os_norm E c =
     \<lparr>metadata = \<lparr>md_id = md_id (metadata c), md_version = md_version (metadata c),
        md_digest = env_compute_digest E (the (bcs_coin_data E (data c))),
        md_object_type = OwnedObject,
        md_owner = Some (case md_owner (metadata c) of Some a \<Rightarrow> a | None \<Rightarrow> 0),
        md_ownership = md_ownership (metadata c), md_created_at = 0, md_updated_at = 0\<rparr>,
      data = data c\<rparr>"

lemma os_view_lookup:
  "fmlookup (os_view E s) i = Option.bind (fmlookup (envelopes s) i) (try_as_coin_object E)"
  by (cases "fmlookup (envelopes s) i") (auto simp: os_view_def)

lemma from_coin_object_roundtrip:
  assumes "bcs_roundtrip E"
  obtains env where "from_coin_object E c = Inr env"
    and "try_as_coin_object E env = Some (os_norm E c)"
    and "em_owner (env_metadata env) = (case md_owner (metadata c) of Some a \<Rightarrow> a | None \<Rightarrow> 0)"
proof -
  obtain bs where "bcs_coin_data E (data c) = Some bs" "bcs_coin_data_de E bs = Some (data c)"
    using assms by (auto simp: bcs_roundtrip_def)
  then show thesis
    by (intro that) (auto simp: from_coin_object_def try_as_coin_object_def from_move_result_def
        os_norm_def)
qed

lemma os_set_envelope_simps:
  "fst (os_set_envelope s i env) = Inr ()"
  "envelopes (snd (os_set_envelope s i env)) = fmupd i env (envelopes s)"
  "os_ownership_index (snd (os_set_envelope s i env))
     = fst (index_update (os_ownership_index s) (os_object_owner s) i (em_owner (env_metadata env)))"
  "os_object_owner (snd (os_set_envelope s i env))
     = fmupd i (em_owner (env_metadata env)) (os_object_owner s)"
  "os_raw_objects (snd (os_set_envelope s i env)) = os_raw_objects s"
  using index_update_rev [of "os_ownership_index s" "os_object_owner s" i "em_owner (env_metadata env)"]
  by (simp_all add: os_set_envelope_def os_remove_from_ownership_index_def index_update_def
      split_beta Let_def)

lemma os_delete_envelope_simps:
  "fst (os_delete_envelope s i) = Inr ()"
  "envelopes (snd (os_delete_envelope s i)) = fmdrop i (envelopes s)"
  "os_ownership_index (snd (os_delete_envelope s i))
     = fst (index_remove (os_ownership_index s) (os_object_owner s) i)"
  "os_object_owner (snd (os_delete_envelope s i)) = fmdrop i (os_object_owner s)"
  "os_raw_objects (snd (os_delete_envelope s i)) = os_raw_objects s"
  by (simp_all add: os_delete_envelope_def os_remove_from_ownership_index_def split_beta)

lemma os_set_envelope_inv: "os_inv s \<Longrightarrow> os_inv (snd (os_set_envelope s i env))"
  by (auto simp: os_inv_def os_set_envelope_simps index_update_ok)

lemma os_delete_envelope_inv: "os_inv s \<Longrightarrow> os_inv (snd (os_delete_envelope s i))"
  by (auto simp: os_inv_def os_delete_envelope_simps index_remove_ok)

lemma os_inv_owned:
  assumes "os_inv s"
  shows "i \<in> set (owned_ids (os_ownership_index s) a) \<longleftrightarrow>
         (\<exists>env. fmlookup (envelopes s) i = Some env \<and> em_owner (env_metadata env) = a)"
  using assms by (auto simp: os_inv_def index_okD)

lemma os_set_object_simps:
  assumes "bcs_roundtrip E" "os_inv s" "md_owner (metadata c) = Some a"
  shows "fst (os_set_object E s i c) = Inr ()"
    and "os_inv (snd (os_set_object E s i c))"
    and "os_view E (snd (os_set_object E s i c)) = fmupd i (os_norm E c) (os_view E s)"
proof -
  obtain env where env: "from_coin_object E c = Inr env"
    "try_as_coin_object E env = Some (os_norm E c)"
    using from_coin_object_roundtrip [OF assms(1)] by metis
  show "fst (os_set_object E s i c) = Inr ()" "os_inv (snd (os_set_object E s i c))"
    using env assms(2) by (simp_all add: os_set_object_def os_set_envelope_simps os_set_envelope_inv)
  show "os_view E (snd (os_set_object E s i c)) = fmupd i (os_norm E c) (os_view E s)"
    using env by (intro fmap_ext) (simp add: os_set_object_def os_set_envelope_simps os_view_lookup)
qed

lemma os_store:
  assumes "bcs_roundtrip E"
  shows "coin_store (os_ops E) os_inv (os_view E) (os_norm E)"
proof (unfold_locales, goal_cases)
  case (1 s i)
  show ?case
    by (simp add: os_ops_def os_get_object_def os_view_lookup split: option.split)
next
  case (7 s i)
  show ?case
    by (rule fmap_ext) (simp add: os_ops_def os_delete_envelope_simps os_view_lookup)
next
  case (8 s a)
  have "distinct (owned_ids (os_ownership_index s) a)"
    using 8 index_okD(2) by (auto simp: os_inv_def)
  moreover have "i \<in> set (owned_ids (os_ownership_index s) a) \<longleftrightarrow> md_owner (metadata c) = Some a"
    if "fmlookup (os_view E s) i = Some c" for i c
    using that 8
    by (auto simp: os_inv_owned os_view_lookup try_as_coin_object_def bind_eq_Some_conv
        split: option.splits)
  ultimately show ?case
    by (simp add: os_ops_def os_get_owned_ids_def)
next
  case (11 s i d)
  then show ?case
    by (simp add: os_ops_def os_set_raw_object_def os_inv_def)
next
  case (12 s i d)
  show ?case
    by (rule fmap_ext) (simp add: os_ops_def os_set_raw_object_def os_view_lookup)
qed (simp_all add: os_ops_def os_set_object_simps [OF assms] os_delete_envelope_simps
      os_delete_envelope_inv os_get_raw_object_def os_set_raw_object_def os_norm_def is_owned_def)

section \<open>Runs of store operations\<close>

datatype store_op =
    SetObj object_id coin
  | DelObj object_id
  | SetRaw object_id bytes

fun store_step :: "'s state_store \<Rightarrow> 's \<Rightarrow> store_op \<Rightarrow> 's" where
  "store_step ops s (SetObj i c) = snd (set_object ops s i c)"
| "store_step ops s (DelObj i) = snd (delete_object ops s i)"
| "store_step ops s (SetRaw i d) = snd (set_raw_object ops s i d)"

text \<open>The coins written have an owner, as every coin the executor writes does.\<close>

fun op_owned :: "store_op \<Rightarrow> bool" where
  "op_owned (SetObj i c) = (md_owner (metadata c) \<noteq> None)"
| "op_owned (DelObj i) = True"
| "op_owned (SetRaw i d) = True"

definition store_run :: "'s state_store \<Rightarrow> 's \<Rightarrow> store_op list \<Rightarrow> 's" where
  "store_run ops = foldl (store_step ops)"

context coin_store
begin

lemma step_inv: "inv s \<Longrightarrow> op_owned x \<Longrightarrow> inv (store_step ops s x)"
  by (cases x) (auto intro: set_inv delete_inv raw_set_inv)

lemma run_inv: "inv s \<Longrightarrow> list_all op_owned xs \<Longrightarrow> inv (store_run ops s xs)"
  by (induction xs arbitrary: s) (simp_all add: store_run_def step_inv)

end

lemma mem_new_inv [simp]: "mem_inv mem_new"
  by (simp add: mem_inv_def mem_new_def)

lemma os_new_inv [simp]: "os_inv os_new"
  by (simp add: os_inv_def os_new_def)

text \<open>
  The owner last written for an id since it was last deleted. A coin without an owner leaves it
  alone, as \<open>set_object\<close> of the \<open>InMemoryStateStore\<close> does with its indexes.
\<close>

fun owner_step :: "store_op \<Rightarrow> (object_id \<Rightarrow> address option) \<Rightarrow> object_id \<Rightarrow> address option" where
  "owner_step (SetObj i c) f = (case md_owner (metadata c) of None \<Rightarrow> f | Some a \<Rightarrow> f(i := Some a))"
| "owner_step (DelObj i) f = f(i := None)"
| "owner_step (SetRaw i d) f = f"

definition last_owner :: "store_op list \<Rightarrow> object_id \<Rightarrow> address option" where
  "last_owner xs = fold owner_step xs (\<lambda>_. None)"

definition listed_for :: "store_op list \<Rightarrow> address \<Rightarrow> object_id \<Rightarrow> coin \<Rightarrow> bool" where
  "listed_for xs a i c \<longleftrightarrow>
     md_owner (metadata c) = Some a \<or> md_owner (metadata c) = None \<and> last_owner xs i = Some a"

text \<open>The indexes hold the last owners, from which the recorded owners only differ by being absent.\<close>

definition mem_owners :: "mem_store \<Rightarrow> (object_id \<Rightarrow> address option) \<Rightarrow> bool" where
  "mem_owners s f \<longleftrightarrow> index_ok (ownership_index s) (object_owner s) \<and> fmlookup (object_owner s) = f \<and>
     (\<forall>i. fmlookup (objects s) i = None \<longrightarrow> f i = None) \<and>
     (\<forall>i c. fmlookup (objects s) i = Some c \<longrightarrow> md_owner (metadata c) = None \<or> md_owner (metadata c) = f i)"

lemma mem_set_ownerless:
  "md_owner (metadata c) = None \<Longrightarrow> mem_set_object s i c = (Inr (), s\<lparr>objects := fmupd i c (objects s)\<rparr>)"
  by (simp add: mem_set_object_def)

lemma mem_owners_step:
  assumes "mem_owners s f"
  shows "mem_owners (store_step mem_ops s x) (owner_step x f)"
proof (cases x)
  case (SetObj i c)
  show ?thesis
  proof (cases "md_owner (metadata c)")
    case None
    then show ?thesis
      using assms SetObj by (auto simp: mem_owners_def mem_ops_def mem_set_ownerless)
  next
    case (Some a)
    then show ?thesis
      using assms SetObj
      by (auto simp: mem_owners_def mem_ops_def mem_set_object_simps index_update_ok)
  qed
next
  case (DelObj i)
  then show ?thesis
    using assms by (auto simp: mem_owners_def mem_ops_def mem_delete_object_simps index_remove_ok)
next
  case (SetRaw i d)
  then show ?thesis
    using assms by (simp add: mem_owners_def mem_ops_def mem_set_raw_object_def)
qed

lemma mem_owners_run: "mem_owners s f \<Longrightarrow> mem_owners (store_run mem_ops s xs) (fold owner_step xs f)"
  by (induction xs arbitrary: s f) (simp_all add: store_run_def mem_owners_step)

lemma mem_owners_new: "mem_owners (store_run mem_ops mem_new xs) (last_owner xs)"
  unfolding last_owner_def
  by (rule mem_owners_run) (auto simp: mem_owners_def mem_new_def)

lemma mem_listed:
  fixes xs
  defines "s \<equiv> store_run mem_ops mem_new xs"
  shows "i \<in> set (owned_ids (ownership_index s) a) \<longleftrightarrow> last_owner xs i = Some a"
    and "last_owner xs i = Some a \<longleftrightarrow> (\<exists>c. fmlookup (objects s) i = Some c \<and> listed_for xs a i c)"
    and "distinct (owned_ids (ownership_index s) a)"
proof -
  have inv: "mem_owners s (last_owner xs)"
    unfolding s_def by (rule mem_owners_new)
  then show "i \<in> set (owned_ids (ownership_index s) a) \<longleftrightarrow> last_owner xs i = Some a"
      "distinct (owned_ids (ownership_index s) a)"
    by (auto simp: mem_owners_def index_okD)
  show "last_owner xs i = Some a \<longleftrightarrow> (\<exists>c. fmlookup (objects s) i = Some c \<and> listed_for xs a i c)"
    using inv unfolding mem_owners_def listed_for_def by (metis option.distinct(1) option.exhaust)
qed

lemmas mem_listed_coin = trans [OF mem_listed(1) mem_listed(2)]

text \<open>
  C29: what the ownership index of a new \<open>InMemoryStateStore\<close> lists after any sequence of object
  writes, deletes and raw writes. \<open>get_owned_objects\<close> of an address returns, without repetition, the
  stored coins whose metadata records that address as the owner, all of them, and besides exactly the
  stored coins that record no owner and whose last owner was the address: \<open>set_object\<close> of a coin
  without an owner leaves the entry of the coin it replaces.
\<close>

theorem mem_owned_objects_exact:
  "let s = store_run mem_ops mem_new xs
   in \<exists>l. mem_get_owned_objects s a = Inr l \<and> distinct l \<and>
     (\<forall>i. i \<in> set l \<longleftrightarrow> (\<exists>c. mem_get_object s i = Inr (Some c) \<and>
        (md_owner (metadata c) = Some a \<or> md_owner (metadata c) = None \<and> last_owner xs i = Some a)))"
  unfolding Let_def mem_get_owned_objects_def mem_get_object_def
  by (intro exI [of _ "owned_ids (ownership_index (store_run mem_ops mem_new xs)) a"])
    (simp add: mem_listed(3) mem_listed_coin listed_for_def)

definition sample_coin :: "object_id \<Rightarrow> address \<Rightarrow> u64 \<Rightarrow> coin" where
  "sample_coin i a v = create_coin_with_id sample_ext i a v ''ROOT'' 0"

lemma sample_coin_simps [simp]:
  "md_owner (metadata (sample_coin i a v)) = Some a"
  "coin_value (sample_coin i a v) = v"
  "coin_type (sample_coin i a v) = ''ROOT''"
  "is_owned (sample_coin i a v)"
  "cd_balance (data (sample_coin i a v)) = \<lparr>bal_value = v\<rparr>"
  by (simp_all add: sample_coin_def)

text \<open>The stale entry, on a coin that is replaced by one without an owner.\<close>

definition ownerless :: "coin \<Rightarrow> coin" where
  "ownerless c = c\<lparr>metadata := (metadata c)\<lparr>md_owner := None, md_ownership := Immutable\<rparr>\<rparr>"

lemma ownerless_coin_stays_listed:
  "let s = store_run mem_ops mem_new [SetObj 1 (sample_coin 1 7 5), SetObj 1 (ownerless (sample_coin 1 7 5))]
   in mem_get_owned_objects s 7 = Inr [1] \<and> get_total_balance s 7 = 5 \<and>
      (\<exists>c. mem_get_object s 1 = Inr (Some c) \<and> md_owner (metadata c) = None)"
  by (simp add: store_run_def mem_ops_def mem_new_def mem_set_object_def mem_update_ownership_index_def
      index_update_def index_remove_def mem_get_owned_objects_def owned_ids_def ownerless_def
      mem_get_object_def get_total_balance_def List.map_filter_simps saturating_add_def checked_add_def
      coin_value_def)

text \<open>The same run on both stores: the objects and raw bytes.\<close>

definition same_content :: "ext \<Rightarrow> mem_store \<Rightarrow> obj_store \<Rightarrow> bool" where
  "same_content E s t \<longleftrightarrow>
     os_view E t = fmmap (os_norm E) (objects s) \<and>
     (\<forall>i. fmlookup (envelopes t) i = None \<longleftrightarrow> fmlookup (objects s) i = None) \<and>
     os_raw_objects t = raw_objects s"

lemma mem_set_object_objects:
  "objects (snd (mem_set_object s i c)) = fmupd i c (objects s)"
  "raw_objects (snd (mem_set_object s i c)) = raw_objects s"
  by (cases "md_owner (metadata c)"; simp add: mem_set_object_simps mem_set_ownerless)+

lemma same_content_step:
  assumes "bcs_roundtrip E" "same_content E s t"
  shows "same_content E (store_step mem_ops s x) (store_step (os_ops E) t x)"
proof (cases x)
  case (SetObj i c)
  obtain env where env: "from_coin_object E c = Inr env"
    "try_as_coin_object E env = Some (os_norm E c)"
    using from_coin_object_roundtrip [OF assms(1), of c] by metis
  have "os_view E (snd (os_set_envelope t i env)) = fmupd i (os_norm E c) (os_view E t)"
    using env by (intro fmap_ext) (simp add: os_set_envelope_simps os_view_lookup)
  moreover have "fmupd i (os_norm E c) (fmmap (os_norm E) (objects s))
      = fmmap (os_norm E) (fmupd i c (objects s))"
    by (rule fmap_ext) simp
  ultimately show ?thesis
    using SetObj env assms(2)
    by (simp add: same_content_def mem_ops_def os_ops_def os_set_object_def os_set_envelope_simps
        mem_set_object_objects)
next
  case (DelObj i)
  have "os_view E (snd (os_delete_envelope t i)) = fmdrop i (os_view E t)"
    by (intro fmap_ext) (simp add: os_delete_envelope_simps os_view_lookup)
  moreover have "fmdrop i (fmmap (os_norm E) (objects s)) = fmmap (os_norm E) (fmdrop i (objects s))"
    by (rule fmap_ext) simp
  ultimately show ?thesis
    using DelObj assms(2)
    by (simp add: same_content_def mem_ops_def os_ops_def os_delete_envelope_simps
        mem_delete_object_simps)
next
  case (SetRaw i d)
  have "os_view E (snd (os_set_raw_object t i d)) = os_view E t"
    by (rule fmap_ext) (simp add: os_set_raw_object_def os_view_lookup)
  then show ?thesis
    using SetRaw assms(2)
    by (simp add: same_content_def mem_ops_def os_ops_def os_set_raw_object_def
        mem_set_raw_object_def)
qed

text \<open>The indexes: the lists agree, in order, on the coins that record an owner.\<close>

definition has_owner :: "mem_store \<Rightarrow> object_id \<Rightarrow> bool" where
  "has_owner s i \<longleftrightarrow> (\<exists>c. fmlookup (objects s) i = Some c \<and> md_owner (metadata c) \<noteq> None)"

definition same_lists :: "mem_store \<Rightarrow> obj_store \<Rightarrow> bool" where
  "same_lists s t \<longleftrightarrow> index_ok (ownership_index s) (object_owner s) \<and> os_inv t \<and>
     (\<forall>a. filter (has_owner s) (owned_ids (os_ownership_index t) a)
        = filter (has_owner s) (owned_ids (ownership_index s) a))"

lemma index_update_owned:
  assumes "index_ok idx rv"
  shows "owned_ids (fst (index_update idx rv i b)) a
    = filter (\<lambda>j. j \<noteq> i) (owned_ids idx a) @ (if a = b then [i] else [])"
  using assms by (simp add: index_update_def split_beta index_remove_owned)

lemma filter_without:
  "filter P xs = filter P ys \<Longrightarrow> filter (\<lambda>j. j \<noteq> i \<and> P j) xs = filter (\<lambda>j. j \<noteq> i \<and> P j) ys"
  by (drule arg_cong [of _ _ "filter (\<lambda>j. j \<noteq> i)"]) (simp add: conj_commute)

lemma same_lists_step:
  assumes "bcs_roundtrip E" "same_lists s t"
  shows "same_lists (store_step mem_ops s x) (store_step (os_ops E) t x)"
proof -
  have ok: "index_ok (ownership_index s) (object_owner s)" "os_inv t"
      "index_ok (os_ownership_index t) (os_object_owner t)"
    using assms(2) by (simp_all add: same_lists_def os_inv_def)
  have same: "filter (\<lambda>j. j \<noteq> i \<and> has_owner s j) (owned_ids (os_ownership_index t) a)
      = filter (\<lambda>j. j \<noteq> i \<and> has_owner s j) (owned_ids (ownership_index s) a)" for i a
    by (rule filter_without) (use assms(2) in \<open>simp add: same_lists_def\<close>)
  show ?thesis
  proof (cases x)
    case (SetObj i c)
    obtain env where env: "from_coin_object E c = Inr env"
      "em_owner (env_metadata env) = (case md_owner (metadata c) of Some a \<Rightarrow> a | None \<Rightarrow> 0)"
      using from_coin_object_roundtrip [OF assms(1), of c] by metis
    have P: "has_owner (snd (mem_set_object s i c)) j
        \<longleftrightarrow> (if j = i then md_owner (metadata c) \<noteq> None else has_owner s j)" for j
      by (simp add: has_owner_def mem_set_object_objects)
    show ?thesis
    proof (cases "md_owner (metadata c)")
      case None
      then have "has_owner (snd (mem_set_object s i c)) = (\<lambda>j. j \<noteq> i \<and> has_owner s j)"
        by (auto simp: P fun_eq_iff)
      then show ?thesis
        using SetObj None env ok same [of i]
        by (simp add: same_lists_def mem_ops_def os_ops_def os_set_object_def os_set_envelope_simps
            os_set_envelope_inv index_update_owned mem_set_ownerless)
    next
      case (Some b)
      have "filter (has_owner (snd (mem_set_object s i c))) (filter (\<lambda>j. j \<noteq> i) l)
          = filter (\<lambda>j. j \<noteq> i \<and> has_owner s j) l" for l
        by (auto simp: P intro!: filter_cong)
      moreover have "has_owner (snd (mem_set_object s i c)) i"
        using Some by (simp add: P)
      ultimately show ?thesis
        using SetObj Some env ok same [of i]
        by (simp add: same_lists_def mem_ops_def os_ops_def os_set_object_def os_set_envelope_simps
            os_set_envelope_inv index_update_owned index_update_ok mem_set_object_simps(3,4)
            del: filter_filter)
    qed
  next
    case (DelObj i)
    have "has_owner (snd (mem_delete_object s i)) = (\<lambda>j. j \<noteq> i \<and> has_owner s j)"
      by (auto simp: has_owner_def mem_delete_object_simps fun_eq_iff)
    then show ?thesis
      using DelObj ok same [of i]
      by (simp add: same_lists_def mem_ops_def os_ops_def os_delete_envelope_simps os_delete_envelope_inv
          mem_delete_object_simps index_remove_owned index_remove_ok)
  next
    case (SetRaw i d)
    have "has_owner (snd (mem_set_raw_object s i d)) = has_owner s"
      by (auto simp: has_owner_def mem_set_raw_object_def fun_eq_iff)
    then show ?thesis
      using SetRaw assms(2)
      by (simp add: same_lists_def mem_ops_def os_ops_def os_set_raw_object_def mem_set_raw_object_def os_inv_def)
  qed
qed

lemma same_run:
  assumes "bcs_roundtrip E"
  defines "s \<equiv> \<lambda>xs. store_run mem_ops mem_new xs" and "t \<equiv> \<lambda>xs. store_run (os_ops E) os_new xs"
  shows "same_content E (s xs) (t xs)" "same_lists (s xs) (t xs)"
proof -
  have "same_content E mem_new os_new" "same_lists mem_new os_new"
    by (auto simp: same_content_def same_lists_def mem_new_def os_new_def os_view_lookup os_inv_def
        intro!: fmap_ext)
  then show "same_content E (s xs) (t xs)" "same_lists (s xs) (t xs)"
    unfolding s_def t_def store_run_def
    using same_content_step [OF assms(1)] same_lists_step [OF assms(1)]
    by (induction xs rule: rev_induct) simp_all
qed

lemma owned_run:
  assumes "list_all op_owned xs" "fmlookup (objects (store_run mem_ops mem_new xs)) i = Some c"
  shows "md_owner (metadata c) \<noteq> None"
  using assms
proof (induction xs arbitrary: c rule: rev_induct)
  case (snoc x xs)
  then show ?case
    by (cases x) (auto simp: store_run_def mem_ops_def mem_set_object_objects mem_delete_object_simps
        mem_set_raw_object_def split: if_splits)
qed (simp add: store_run_def mem_new_def)

text \<open>
  C30: how far the two implementations of \<open>StateStore\<close> agree. After the same sequence of operations
  from new stores, \<open>InMemoryObjectStore\<close> (which keeps BCS envelopes) returns for every id the coin
  \<open>InMemoryStateStore\<close> returns, up to the fields an envelope does not keep (same data and version; the
  owner too, where one is recorded, and the zero address otherwise), and the same raw bytes. The
  lists of owned objects agree, in order, on all coins that record an owner. They differ on coins
  that record none: the envelope store lists them for the zero address, the plain store for
  their last owner. So the lists are equal when every coin that is written has an owner.
\<close>

theorem stores_agree:
  assumes "bcs_roundtrip E"
  shows "let s = store_run mem_ops mem_new xs; t = store_run (os_ops E) os_new xs
    in (\<forall>i. os_get_object E t i = map_sum id (map_option (os_norm E)) (mem_get_object s i)) \<and>
       (\<forall>i. os_get_raw_object t i = mem_get_raw_object s i) \<and>
       (\<forall>a. \<exists>k l. os_get_owned_ids t a = Inr k \<and> mem_get_owned_objects s a = Inr l \<and>
          filter (has_owner s) k = filter (has_owner s) l \<and>
          (\<forall>i. \<not> has_owner s i \<longrightarrow>
             (i \<in> set k \<longleftrightarrow> a = 0 \<and> mem_get_object s i \<noteq> Inr None) \<and>
             (i \<in> set l \<longleftrightarrow> last_owner xs i = Some a)) \<and>
          (list_all op_owned xs \<longrightarrow> k = l))"
proof -
  let ?s = "store_run mem_ops mem_new xs" and ?t = "store_run (os_ops E) os_new xs"
  note same = same_run [OF assms, of xs]
  have view: "Option.bind (fmlookup (envelopes ?t) i) (try_as_coin_object E)
      = map_option (os_norm E) (fmlookup (objects ?s) i)" for i
    using same(1) by (metis fmlookup_map os_view_lookup same_content_def)
  have get: "os_get_object E ?t i = map_sum id (map_option (os_norm E)) (mem_get_object ?s i)" for i
    using view [of i]
    by (cases "fmlookup (envelopes ?t) i") (simp_all add: os_get_object_def mem_get_object_def)
  have os: "i \<in> set (owned_ids (os_ownership_index ?t) a) \<longleftrightarrow>
      (\<exists>c. fmlookup (objects ?s) i = Some c \<and> (case md_owner (metadata c) of Some b \<Rightarrow> b | None \<Rightarrow> 0) = a)" for i a
  proof -
    have "i \<in> set (owned_ids (os_ownership_index ?t) a) \<longleftrightarrow>
        (\<exists>env. fmlookup (envelopes ?t) i = Some env \<and> em_owner (env_metadata env) = a)"
      using same(2) by (intro os_inv_owned) (simp add: same_lists_def)
    moreover have "fmlookup (envelopes ?t) i = None \<longleftrightarrow> fmlookup (objects ?s) i = None"
      using same(1) by (simp add: same_content_def)
    moreover have "em_owner (env_metadata env) = (case md_owner (metadata c) of Some b \<Rightarrow> b | None \<Rightarrow> 0)"
      if "fmlookup (envelopes ?t) i = Some env" "fmlookup (objects ?s) i = Some c" for env c
      using view [of i] that by (auto simp: try_as_coin_object_def os_norm_def split: option.splits)
    ultimately show ?thesis
      by (cases "fmlookup (envelopes ?t) i"; cases "fmlookup (objects ?s) i") auto
  qed
  have lists: "filter (has_owner ?s) (owned_ids (os_ownership_index ?t) a)
      = filter (has_owner ?s) (owned_ids (ownership_index ?s) a)" for a
    using same(2) by (simp add: same_lists_def)
  have eq: "owned_ids (os_ownership_index ?t) a = owned_ids (ownership_index ?s) a"
    if "list_all op_owned xs" for a
  proof -
    have "has_owner ?s i" if "i \<in> set (owned_ids (os_ownership_index ?t) a) \<union> set (owned_ids (ownership_index ?s) a)" for i
      using that owned_run [OF \<open>list_all op_owned xs\<close>] by (auto simp: os mem_listed_coin has_owner_def)
    then show ?thesis
      using lists [of a] by (simp add: filter_True)
  qed
  have "i \<in> set (owned_ids (os_ownership_index ?t) a) \<longleftrightarrow> a = 0 \<and> mem_get_object ?s i \<noteq> Inr None"
    if "\<not> has_owner ?s i" for i a
    using that unfolding os by (auto simp: has_owner_def mem_get_object_def)
  moreover have "os_get_raw_object ?t i = mem_get_raw_object ?s i" for i
    using same(1) by (simp add: same_content_def os_get_raw_object_def mem_get_raw_object_def)
  ultimately show ?thesis
    using get lists eq
    by (simp add: Let_def os_get_owned_ids_def mem_get_owned_objects_def mem_listed(1))
qed

theorem stores_agree_witness:
  "bcs_roundtrip sample_ext \<and>
   os_get_object sample_ext
     (store_run (os_ops sample_ext) os_new [SetObj 1 (sample_coin 1 7 5), DelObj 2]) 1
     = Inr (Some (os_norm sample_ext (sample_coin 1 7 5))) \<and>
   os_get_owned_ids (store_run (os_ops sample_ext) os_new [SetObj 1 (sample_coin 1 7 5), DelObj 2]) 7
     = mem_get_owned_objects (store_run mem_ops mem_new [SetObj 1 (sample_coin 1 7 5), DelObj 2]) 7"
proof -
  let ?xs = "[SetObj 1 (sample_coin 1 7 5), DelObj 2]"
  have "mem_get_object (store_run mem_ops mem_new ?xs) 1 = Inr (Some (sample_coin 1 7 5))"
    by (simp add: store_run_def mem_ops_def mem_set_object_simps mem_delete_object_simps mem_get_object_def)
  moreover have "list_all op_owned ?xs"
    by simp
  ultimately show ?thesis
    using stores_agree [OF sample_ext_laws(2), of ?xs] sample_ext_laws(2) unfolding Let_def
    by (auto dest: spec [of _ 7])
qed

text \<open>The balance of an address.\<close>

definition owner_total :: "(object_id, coin) fmap \<Rightarrow> address \<Rightarrow> nat" where
  "owner_total m a =
     fmsum (\<lambda>_ c. if md_owner (metadata c) = Some a then unat (coin_value c) else 0) m"

lemma unat_saturating_add:
  "unat (saturating_add a b) = min (2 ^ LENGTH('a) - 1) (unat a + unat b)" for a b :: "'a::len word"
proof (cases "checked_add a b")
  case None
  then have "2 ^ LENGTH('a) \<le> unat a + unat b"
    by (simp only: checked_add_None)
  then have "min (2 ^ LENGTH('a) - 1) (unat a + unat b) = 2 ^ LENGTH('a) - 1"
    by (meson diff_le_self le_trans min_absorb1)
  then show ?thesis
    using None by (simp add: saturating_add_def unsigned_minus_1_eq_mask mask_eq_exp_minus_1)
next
  case (Some c)
  then have "unat c = unat a + unat b"
    by (rule checked_add_SomeD)
  then show ?thesis
    using Some unsigned_less [of c, where 'a = nat] by (simp add: saturating_add_def)
qed

lemma foldl_saturating:
  "unat (foldl (\<lambda>acc c. saturating_add acc (coin_value c)) (acc :: u64) cs)
     = min (2 ^ 64 - 1) (unat acc + sum_list (map (\<lambda>c. unat (coin_value c)) cs))"
proof (induction cs arbitrary: acc)
  case Nil
  then show ?case
    using unsigned_less [of acc, where 'a = nat] by simp
qed (simp add: unat_saturating_add)

lemma sum_listed:
  assumes d: "distinct l" and l: "\<And>i. i \<in> set l \<longleftrightarrow> (\<exists>c. fmlookup m i = Some c \<and> P i c)"
  shows "sum_list (map (\<lambda>c. unat (coin_value c)) (List.map_filter (fmlookup m) l))
    = fmsum (\<lambda>i c. if P i c then unat (coin_value c) else 0) m"
proof -
  let ?v = "\<lambda>i. unat (coin_value (the (fmlookup m i)))"
  have "map (\<lambda>c. unat (coin_value c)) (List.map_filter (fmlookup m) k) = map ?v k" if "set k \<subseteq> set l" for k
    using that l by (induction k) (fastforce simp: List.map_filter_simps)+
  then have "sum_list (map (\<lambda>c. unat (coin_value c)) (List.map_filter (fmlookup m) l)) = sum ?v (set l)"
    using d by (simp add: sum_list_distinct_conv_sum_set)
  also have "\<dots> = fmsum (\<lambda>i c. if P i c then unat (coin_value c) else 0) m"
    unfolding fmsum_def
  proof (rule sum.mono_neutral_cong_left)
    show "set l \<subseteq> fset (fmdom m)"
      by (auto simp: l intro: fmdomI)
    show "\<forall>i\<in>fset (fmdom m) - set l. (if P i (the (fmlookup m i)) then ?v i else 0) = 0"
      by (auto simp: l fmlookup_dom_iff)
  qed (auto simp: l)
  finally show ?thesis .
qed

text \<open>
  C31: after any sequence of operations, \<open>get_total_balance\<close> of an address is the sum, capped at the
  largest \<open>u64\<close>, of the balances of the coins that record the address as the owner and of the coins
  that record no owner and whose last owner was the address. When every coin that is written has
  an owner, that is the sum over the coins the address owns.
\<close>

theorem get_total_balance_exact:
  "let s = store_run mem_ops mem_new xs
   in unat (get_total_balance s a) = min (2 ^ 64 - 1)
        (fmsum (\<lambda>i c. if md_owner (metadata c) = Some a \<or> md_owner (metadata c) = None \<and> last_owner xs i = Some a
                 then unat (coin_value c) else 0) (objects s)) \<and>
      (list_all op_owned xs \<longrightarrow> unat (get_total_balance s a) = min (2 ^ 64 - 1) (owner_total (objects s) a))"
proof -
  let ?s = "store_run mem_ops mem_new xs"
  have total: "unat (get_total_balance ?s a) = min (2 ^ 64 - 1)
      (fmsum (\<lambda>i c. if listed_for xs a i c then unat (coin_value c) else 0) (objects ?s))"
    unfolding get_total_balance_def foldl_saturating
    by (subst sum_listed [of _ "objects ?s" "listed_for xs a"]) (simp_all add: mem_listed(3) mem_listed_coin)
  have "fmsum (\<lambda>i c. if listed_for xs a i c then unat (coin_value c) else 0) (objects ?s) = owner_total (objects ?s) a"
    if "list_all op_owned xs"
    unfolding owner_total_def fmsum_def
    by (rule sum.cong) (auto simp: listed_for_def fmlookup_dom_iff dest: owned_run [OF that])
  with total show ?thesis
    by (simp add: Let_def listed_for_def)
qed

theorem get_total_balance_exact_witness:
  "unat (get_total_balance (store_run mem_ops mem_new
      [SetObj 1 (sample_coin 1 7 (- 1)), SetObj 2 (sample_coin 2 7 6)]) 7) = 2 ^ 64 - 1"
proof -
  let ?xs = "[SetObj 1 (sample_coin 1 7 (- 1)), SetObj 2 (sample_coin 2 7 6)]"
  have "owner_total (objects (store_run mem_ops mem_new ?xs)) 7 = 2 ^ 64 - 1 + 6"
    by (simp add: owner_total_def store_run_def mem_ops_def mem_set_object_simps mem_new_def
        fmsum_upd_new unsigned_minus_1_eq_mask mask_eq_exp_minus_1)
  moreover have "list_all op_owned ?xs"
    by simp
  ultimately show ?thesis
    using get_total_balance_exact [of ?xs 7] unfolding Let_def by simp
qed

end
