(* ===== verification/Events.thy ===== *)
theory Events
  imports Vlc Coin_Object
begin

text \<open>
  Subnet identifiers (\<^verbatim>\<open>types/src/subnet.rs\<close>) and events (\<^verbatim>\<open>types/src/event.rs\<close>).

  A subnet id is a 256-bit word whose leading byte is the type marker. Strings are ASCII. An event is
  the record of the fields that the DAG, consensus and the state manager read; the payload and the
  legacy transfer field are opaque to that code and left out. The wall clock is an argument.
\<close>

section \<open>Subnet identifiers\<close>

type_synonym subnet_id = "256 word"

definition id_of_bytes :: "bytes \<Rightarrow> 256 word" where
  "id_of_bytes bs = from_le_bytes (rev bs)"

definition SubnetId_ROOT :: subnet_id where
  "SubnetId_ROOT = 0"

definition SYSTEM_PREFIX :: u8 where
  "SYSTEM_PREFIX = 1"

definition APP_PREFIX :: u8 where
  "APP_PREFIX = 2"

definition SubnetId_GOVERNANCE :: subnet_id where
  "SubnetId_GOVERNANCE = id_of_bytes (1 # 0x10 # replicate 30 0)"

definition SubnetId_from_str_id :: "ext \<Rightarrow> string \<Rightarrow> subnet_id" where
  "SubnetId_from_str_id E s =
     id_of_bytes ((as_bytes (blake3 E (str_bytes ''SETU_SUBNET:'' @ str_bytes s)))[0 := APP_PREFIX])"

definition new_app :: "ext \<Rightarrow> address \<Rightarrow> string \<Rightarrow> u64 \<Rightarrow> subnet_id" where
  "new_app E creator name nonce =
     id_of_bytes (APP_PREFIX #
       take 31 (as_bytes (blake3 E (APP_PREFIX # as_bytes creator @ str_bytes name @ le_bytes 8 nonce))))"

definition new_system :: "u8 \<Rightarrow> subnet_id" where
  "new_system i = id_of_bytes (SYSTEM_PREFIX # i # replicate 30 0)"

definition SubnetId_from_hex :: "ext \<Rightarrow> string \<Rightarrow> string + subnet_id" where
  "SubnetId_from_hex E s =
     (case hex_decode E (unprefix0x s) of
        None \<Rightarrow> Inl ''Invalid hex string''
      | Some bs \<Rightarrow>
          if length bs \<noteq> 32 then Inl ''SubnetId must be 32 bytes'' else Inr (id_of_bytes bs))"

text \<open>Classes of ASCII characters.\<close>

definition is_ascii_digit :: "char \<Rightarrow> bool" where
  "is_ascii_digit c \<longleftrightarrow> 48 \<le> (of_char c :: nat) \<and> (of_char c :: nat) \<le> 57"

definition is_ascii_lowercase :: "char \<Rightarrow> bool" where
  "is_ascii_lowercase c \<longleftrightarrow> 97 \<le> (of_char c :: nat) \<and> (of_char c :: nat) \<le> 122"

definition is_ascii_uppercase :: "char \<Rightarrow> bool" where
  "is_ascii_uppercase c \<longleftrightarrow> 65 \<le> (of_char c :: nat) \<and> (of_char c :: nat) \<le> 90"

definition is_ascii_alphanumeric :: "char \<Rightarrow> bool" where
  "is_ascii_alphanumeric c \<longleftrightarrow> is_ascii_digit c \<or> is_ascii_lowercase c \<or> is_ascii_uppercase c"

definition is_ascii_hexdigit :: "char \<Rightarrow> bool" where
  "is_ascii_hexdigit c \<longleftrightarrow> is_ascii_digit c
     \<or> 97 \<le> (of_char c :: nat) \<and> (of_char c :: nat) \<le> 102
     \<or> 65 \<le> (of_char c :: nat) \<and> (of_char c :: nat) \<le> 70"

definition is_space :: "char \<Rightarrow> bool" where
  "is_space c \<longleftrightarrow> of_char c = (32::nat) \<or> 9 \<le> (of_char c :: nat) \<and> (of_char c :: nat) \<le> 13"

definition to_ascii_lowercase :: "char \<Rightarrow> char" where
  "to_ascii_lowercase c = (if is_ascii_uppercase c then char_of (of_char c + (32::nat)) else c)"

definition eq_ignore_ascii_case :: "string \<Rightarrow> string \<Rightarrow> bool" where
  "eq_ignore_ascii_case s t \<longleftrightarrow> map to_ascii_lowercase s = map to_ascii_lowercase t"

definition trim :: "string \<Rightarrow> string" where
  "trim s = rev (dropWhile is_space (rev (dropWhile is_space s)))"

definition validate_public_id_grammar :: "string \<Rightarrow> string + unit" where
  "validate_public_id_grammar raw =
     (let v = trim raw
      in if v = [] then Inl ''Invalid subnet_id: must not be empty''
         else if v \<noteq> raw then Inl ''Invalid subnet_id: leading/trailing whitespace is not allowed''
         else if length v < 3 \<or> length v > 64 then Inl ''Invalid subnet_id: length must be 3-64 characters''
         else if eq_ignore_ascii_case v ''root'' \<or> eq_ignore_ascii_case v ''governance''
         then Inl ''Invalid subnet_id: reserved system id''
         else if \<not> is_ascii_alphanumeric (hd v) \<or> \<not> is_ascii_alphanumeric (last v)
         then Inl ''Invalid subnet_id: must start and end with a letter or digit''
         else if \<not> list_all (\<lambda>c. is_ascii_lowercase c \<or> is_ascii_digit c \<or> c = CHR ''-'') v
         then Inl ''Invalid subnet_id: only lowercase letters, digits, and - are allowed''
         else Inr ())"

datatype subnet_id_parse_error =
    EmptyId
  | InvalidHex string
  | InvalidGrammar string

definition parse_public_or_hex :: "ext \<Rightarrow> string \<Rightarrow> subnet_id_parse_error + subnet_id" where
  "parse_public_or_hex E v =
     (if trim v = [] then Inl EmptyId
      else if v = ''ROOT'' \<or> v = ''root'' then Inr SubnetId_ROOT
      else
        let bare = unprefix0x v
        in if length bare = 64 \<and> list_all is_ascii_hexdigit bare
           then (case SubnetId_from_hex E v of Inl e \<Rightarrow> Inl (InvalidHex e) | Inr i \<Rightarrow> Inr i)
           else (case validate_public_id_grammar v of
                   Inl e \<Rightarrow> Inl (InvalidGrammar e)
                 | Inr _ \<Rightarrow> Inr (SubnetId_from_str_id E v)))"

definition to_full_hex :: "ext \<Rightarrow> subnet_id \<Rightarrow> string" where
  "to_full_hex E i = ''0x'' @ hex_encode E (as_bytes i)"

definition canonical_string :: "ext \<Rightarrow> subnet_id \<Rightarrow> string" where
  "canonical_string E i = (if i = SubnetId_ROOT then ''ROOT'' else to_full_hex E i)"

definition type_byte :: "subnet_id \<Rightarrow> u8" where
  "type_byte i = hd (as_bytes i)"

definition shard_hint :: "subnet_id \<Rightarrow> 16 word" where
  "shard_hint i = from_le_bytes (rev (take 2 (as_bytes i)))"

definition is_system :: "subnet_id \<Rightarrow> bool" where
  "is_system i \<longleftrightarrow> type_byte i \<le> SYSTEM_PREFIX"

definition is_app :: "subnet_id \<Rightarrow> bool" where
  "is_app i \<longleftrightarrow> type_byte i = APP_PREFIX"

datatype subnet_type = RootSubnet | SystemReserved | AppSubnet | Organization | Personal | UnknownSubnet

definition subnet_type_of :: "subnet_id \<Rightarrow> subnet_type" where
  "subnet_type_of i =
     (if type_byte i = 0 \<and> i = SubnetId_ROOT then RootSubnet
      else if type_byte i = 0 \<or> type_byte i = 1 then SystemReserved
      else if type_byte i = 2 then AppSubnet
      else UnknownSubnet)"

section \<open>Subnet membership\<close>

record subnet_membership =
  sm_user :: address
  joined_subnets :: "subnet_id fset"
  primary_subnet :: "subnet_id option"
  last_activity :: "(subnet_id, u64) fmap"

definition membership_new :: "address \<Rightarrow> subnet_membership" where
  "membership_new u = \<lparr>sm_user = u, joined_subnets = {||}, primary_subnet = None, last_activity = fmempty\<rparr>"

definition membership_touch :: "subnet_membership \<Rightarrow> subnet_id \<Rightarrow> u64 \<Rightarrow> subnet_membership" where
  "membership_touch m i t = m\<lparr>last_activity := fmupd i t (last_activity m)\<rparr>"

definition membership_join :: "subnet_membership \<Rightarrow> subnet_id \<Rightarrow> u64 \<Rightarrow> subnet_membership" where
  "membership_join m i t =
     (let m1 = m\<lparr>joined_subnets := finsert i (joined_subnets m)\<rparr>;
          m2 = (if primary_subnet m1 = None then m1\<lparr>primary_subnet := Some i\<rparr> else m1)
      in membership_touch m2 i t)"

text \<open>
  \<open>leave\<close> picks the next member that the hash set iterates over; the model takes the least one.
\<close>

definition membership_leave :: "subnet_membership \<Rightarrow> subnet_id \<Rightarrow> subnet_membership" where
  "membership_leave m i =
     (let m1 = m\<lparr>joined_subnets := joined_subnets m |-| {|i|}, last_activity := fmdrop i (last_activity m)\<rparr>
      in if primary_subnet m1 = Some i
         then m1\<lparr>primary_subnet := (case sorted_list_of_fset (joined_subnets m1) of [] \<Rightarrow> None | x # _ \<Rightarrow> Some x)\<rparr>
         else m1)"

definition is_member :: "subnet_membership \<Rightarrow> subnet_id \<Rightarrow> bool" where
  "is_member m i \<longleftrightarrow> i |\<in>| joined_subnets m"

section \<open>Event types\<close>

datatype event_status = Pending | InWorkQueue | Executed | Confirmed | Finalized | Failed

datatype event_type =
    Genesis | System | TransferEvent | ValidatorRegister | ValidatorUnregister | SolverRegister
  | SolverUnregister | SubnetRegister | UserRegister | PowerConsume | TaskSubmit | AgentChat
  | Relationship | ContractCall | ContractPublish | CoinMerge | CoinSplit | CoinMergeThenTransfer
  | Governance

definition requires_solver_execution :: "event_type \<Rightarrow> bool" where
  "requires_solver_execution t \<longleftrightarrow> t \<in>
     {TransferEvent, ValidatorRegister, ValidatorUnregister, SolverRegister, SolverUnregister,
      SubnetRegister, UserRegister, PowerConsume, TaskSubmit, AgentChat, Relationship, ContractCall,
      ContractPublish, CoinMerge, CoinSplit, CoinMergeThenTransfer, Governance}"

definition is_root_event :: "event_type \<Rightarrow> bool" where
  "is_root_event t \<longleftrightarrow> t \<in>
     {Genesis, System, ValidatorRegister, ValidatorUnregister, SolverRegister, SolverUnregister,
      SubnetRegister, UserRegister, ContractPublish}"

definition is_validator_executed :: "event_type \<Rightarrow> bool" where
  "is_validator_executed t = is_root_event t"

text \<open>\<open>should_consume_power\<close> of the executor.\<close>

definition should_consume_power :: "event_type \<Rightarrow> bool" where
  "should_consume_power t \<longleftrightarrow> \<not> is_validator_executed t"

section \<open>Execution results\<close>

record event_state_change =
  esc_key :: string
  esc_old_value :: "bytes option"
  esc_new_value :: "bytes option"
  esc_target_subnet :: "subnet_id option"

definition StateChange_new :: "string \<Rightarrow> bytes option \<Rightarrow> bytes option \<Rightarrow> event_state_change" where
  "StateChange_new k old new =
     \<lparr>esc_key = k, esc_old_value = old, esc_new_value = new, esc_target_subnet = None\<rparr>"

definition StateChange_insert :: "string \<Rightarrow> bytes \<Rightarrow> event_state_change" where
  "StateChange_insert k v = StateChange_new k None (Some v)"

definition StateChange_delete :: "string \<Rightarrow> bytes \<Rightarrow> event_state_change" where
  "StateChange_delete k old = StateChange_new k (Some old) None"

definition StateChange_update :: "string \<Rightarrow> bytes \<Rightarrow> bytes \<Rightarrow> event_state_change" where
  "StateChange_update k old new = StateChange_new k (Some old) (Some new)"

definition with_target_subnet :: "event_state_change \<Rightarrow> subnet_id \<Rightarrow> event_state_change" where
  "with_target_subnet c i = c\<lparr>esc_target_subnet := Some i\<rparr>"

record execution_result =
  er_success :: bool
  er_message :: "string option"
  er_state_changes :: "event_state_change list"

definition er_succeeded :: execution_result where
  "er_succeeded = \<lparr>er_success = True, er_message = None, er_state_changes = []\<rparr>"

definition er_failure :: "string \<Rightarrow> execution_result" where
  "er_failure m = \<lparr>er_success = False, er_message = Some m, er_state_changes = []\<rparr>"

definition with_changes :: "execution_result \<Rightarrow> event_state_change list \<Rightarrow> execution_result" where
  "with_changes r cs = r\<lparr>er_state_changes := cs\<rparr>"

section \<open>Events\<close>

type_synonym event_id = string

record event =
  ev_id :: event_id
  event_type :: event_type
  parent_ids :: "event_id list"
  ev_subnet :: "subnet_id option"
  ev_vlc :: vlc_snapshot
  creator :: string
  status :: event_status
  ev_result :: "execution_result option"
  ev_timestamp :: u64

definition event_compute_id :: "ext \<Rightarrow> event_id list \<Rightarrow> vlc_snapshot \<Rightarrow> string \<Rightarrow> u64 \<Rightarrow> event_id" where
  "event_compute_id E ps v cr ts =
     hex_encode E (as_bytes (blake3 E (str_bytes ''SETU_EVENT_ID:'' @ concat (map str_bytes ps)
       @ le_bytes 8 (logical_time v) @ str_bytes cr @ le_bytes 8 ts)))"

definition event_new ::
  "ext \<Rightarrow> event_type \<Rightarrow> event_id list \<Rightarrow> vlc_snapshot \<Rightarrow> string \<Rightarrow> u64 \<Rightarrow> event" where
  "event_new E ty ps v cr now =
     \<lparr>ev_id = event_compute_id E ps v cr now, event_type = ty, parent_ids = ps,
      ev_subnet = (if is_root_event ty then Some SubnetId_ROOT
                   else if ty = Governance then Some SubnetId_GOVERNANCE else None),
      ev_vlc = v, creator = cr, status = Pending, ev_result = None, ev_timestamp = now\<rparr>"

definition genesis_event :: "ext \<Rightarrow> string \<Rightarrow> vlc_snapshot \<Rightarrow> u64 \<Rightarrow> event" where
  "genesis_event E cr v now = event_new E Genesis [] v cr now"

definition genesis_event_id :: "ext \<Rightarrow> u64 \<Rightarrow> event_id" where
  "genesis_event_id E now = event_compute_id E [] ((vlc_new now)\<lparr>logical_time := 0\<rparr>) ''genesis'' 0"

definition verify_id :: "ext \<Rightarrow> event \<Rightarrow> bool" where
  "verify_id E e \<longleftrightarrow> event_compute_id E (parent_ids e) (ev_vlc e) (creator e) (ev_timestamp e) = ev_id e"

definition recompute_id :: "ext \<Rightarrow> event \<Rightarrow> event" where
  "recompute_id E e = e\<lparr>ev_id := event_compute_id E (parent_ids e) (ev_vlc e) (creator e) (ev_timestamp e)\<rparr>"

definition set_execution_result :: "event \<Rightarrow> execution_result \<Rightarrow> event" where
  "set_execution_result e r =
     e\<lparr>ev_result := Some r, status := (if er_success r then Executed else Failed)\<rparr>"

definition is_genesis :: "event \<Rightarrow> bool" where
  "is_genesis e \<longleftrightarrow> event_type e = Genesis"

definition has_parents :: "event \<Rightarrow> bool" where
  "has_parents e \<longleftrightarrow> parent_ids e \<noteq> []"

definition depends_on :: "event \<Rightarrow> event_id \<Rightarrow> bool" where
  "depends_on e i \<longleftrightarrow> i \<in> set (parent_ids e)"

definition is_registration :: "event \<Rightarrow> bool" where
  "is_registration e \<longleftrightarrow> event_type e \<in> {ValidatorRegister, SolverRegister, SubnetRegister, UserRegister}"

definition is_unregistration :: "event \<Rightarrow> bool" where
  "is_unregistration e \<longleftrightarrow> event_type e \<in> {ValidatorUnregister, SolverUnregister}"

definition get_subnet_id :: "event \<Rightarrow> subnet_id" where
  "get_subnet_id e =
     (case ev_subnet e of
        Some i \<Rightarrow> i
      | None \<Rightarrow> if is_root_event (event_type e) then SubnetId_ROOT else SubnetId_ROOT)"

definition with_subnet :: "event \<Rightarrow> subnet_id \<Rightarrow> event" where
  "with_subnet e i = e\<lparr>ev_subnet := Some i\<rparr>"

end
