(* ===== verification/Runtime_Executor.thy ===== *)
theory Runtime_Executor
  imports Runtime_State Events
begin

text \<open>
  The transaction executor of \<^verbatim>\<open>crates/setu-runtime/src/executor.rs\<close>, the transactions of
  \<^verbatim>\<open>crates/setu-runtime/src/transaction.rs\<close> and the flux and power resources of
  \<^verbatim>\<open>types/src/resource.rs\<close>.

  Every handler is a function of the store methods (\<open>ops\<close>), the external crates (\<open>E\<close>), and a pair
  of the store and the execution context, whose output counter it advances. It returns the error
  or the output together with that pair, so that what a handler has written before it fails stays
  written, as in the source. The texts of messages are constructors with the format arguments.

  The lemmas show that transfers, merges and splits conserve the amount of every coin type, that a
  failed transfer writes nothing, that nobody but the owner can move a coin, and where a failed
  merge or an empty account breaks this.
\<close>

section \<open>Contexts, outputs and transactions\<close>

record execution_context =
  executor_id :: string
  ctx_timestamp :: u64
  in_tee :: bool
  tx_hash :: "256 word"
  output_counter :: u32
  gas_budget :: "u64 option"

definition context_new :: "string \<Rightarrow> u64 \<Rightarrow> bool \<Rightarrow> 256 word \<Rightarrow> execution_context" where
  "context_new ex ts tee h =
     \<lparr>executor_id = ex, ctx_timestamp = ts, in_tee = tee, tx_hash = h, output_counter = 0,
      gas_budget = None\<rparr>"

definition with_gas_budget :: "execution_context \<Rightarrow> u64 \<Rightarrow> execution_context" where
  "with_gas_budget ctx budget = ctx\<lparr>gas_budget := Some budget\<rparr>"

datatype state_change_type = Create | Update | Delete

record state_change =
  change_type :: state_change_type
  sc_object_id :: object_id
  old_state :: "bytes option"
  new_state :: "bytes option"

definition to_event_state_change :: "ext \<Rightarrow> state_change \<Rightarrow> event_state_change" where
  "to_event_state_change E sc =
     \<lparr>esc_key = object_key E (sc_object_id sc), esc_old_value = old_state sc,
      esc_new_value = new_state sc, esc_target_subnet = None\<rparr>"

datatype out_msg =
    TransferCompleted address address
  | QueryExecuted
  | AutoMerged nat u64 address
  | SubnetRegistered string address "string option"
  | UserRegistered address string
  | ProfileUpdated address
  | JoinedSubnet address string
  | LeftSubnet address string
  | NoTokensToMint
  | Minted u64 address string
  | MergedCoins nat
  | SplitInto nat bool

text \<open>A query result is the value the source hands to \<open>serde_json::to_value\<close>.\<close>

datatype query_value =
    BalancesOf "(string, u64) fmap"
  | ObjectOf "coin option"
  | IdsOf "object_id list"

record execution_output =
  success :: bool
  message :: "out_msg option"
  state_changes :: "state_change list"
  created_objects :: "object_id list"
  deleted_objects :: "object_id list"
  query_result :: "query_value option"

record transfer_tx =
  tx_coin_id :: object_id
  recipient :: address
  amount :: "u64 option"

datatype query_type = QBalance | QObject | QOwnedObjects

record query_tx =
  query_type :: query_type
  params :: json_value

datatype transaction_type =
    Transfer transfer_tx
  | Query query_tx

record transaction =
  tx_id :: string
  sender :: address
  tx_type :: transaction_type
  input_objects :: "object_id list"
  tx_timestamp :: u64

text \<open>\<open>{:x}\<close> of a \<open>u64\<close>. The first argument bounds the number of digits, which is at most 16.\<close>

fun lower_hex_digits :: "nat \<Rightarrow> nat \<Rightarrow> string" where
  "lower_hex_digits 0 n = []"
| "lower_hex_digits (Suc m) n =
     (if n < 16 then [''0123456789abcdef'' ! n]
      else lower_hex_digits m (n div 16) @ [''0123456789abcdef'' ! (n mod 16)])"

definition lower_hex :: "u64 \<Rightarrow> string" where
  "lower_hex n = lower_hex_digits 16 (unat n)"

definition transfer_transaction ::
  "string \<Rightarrow> address \<Rightarrow> object_id \<Rightarrow> address \<Rightarrow> u64 option \<Rightarrow> u64 \<Rightarrow> transaction" where
  "transfer_transaction i snd_addr coin_id rcp amt ts =
     \<lparr>tx_id = i, sender = snd_addr,
      tx_type = Transfer \<lparr>tx_coin_id = coin_id, recipient = rcp, amount = amt\<rparr>,
      input_objects = [coin_id], tx_timestamp = ts\<rparr>"

definition new_transfer ::
  "address \<Rightarrow> object_id \<Rightarrow> address \<Rightarrow> u64 option \<Rightarrow> u64 \<Rightarrow> transaction" where
  "new_transfer snd_addr coin_id rcp amt now =
     transfer_transaction (''tx_'' @ lower_hex now) snd_addr coin_id rcp amt now"

definition new_transfer_deterministic ::
  "ext \<Rightarrow> address \<Rightarrow> object_id \<Rightarrow> address \<Rightarrow> u64 option \<Rightarrow> u64 \<Rightarrow> transaction" where
  "new_transfer_deterministic E snd_addr coin_id rcp amt ts =
     transfer_transaction (''tx_'' @ take 8 (id_to_string E coin_id) @ ''_'' @ lower_hex ts)
       snd_addr coin_id rcp amt ts"

definition new_balance_query :: "(address \<Rightarrow> json_value) \<Rightarrow> address \<Rightarrow> u64 \<Rightarrow> transaction" where
  "new_balance_query to_json a now =
     \<lparr>tx_id = ''query_'' @ lower_hex now, sender = a,
      tx_type = Query \<lparr>query_type = QBalance, params = JObj [(''address'', to_json a)]\<rparr>,
      input_objects = [], tx_timestamp = now\<rparr>"

section \<open>Running on a store and a context\<close>

type_synonym 's conf = "'s \<times> execution_context"
type_synonym ('s, 'a) run = "'s conf \<Rightarrow> (runtime_error + 'a) \<times> 's conf"

definition ret :: "'a \<Rightarrow> ('s, 'a) run" where
  "ret a = (\<lambda>c. (Inr a, c))"

definition throw :: "runtime_error \<Rightarrow> ('s, 'a) run" where
  "throw e = (\<lambda>c. (Inl e, c))"

text \<open>\<open>let a = m?; f(a)\<close>.\<close>

definition bnd :: "('s, 'a) run \<Rightarrow> ('a \<Rightarrow> ('s, 'b) run) \<Rightarrow> ('s, 'b) run" where
  "bnd m f = (\<lambda>c. case m c of (Inl e, c') \<Rightarrow> (Inl e, c') | (Inr a, c') \<Rightarrow> f a c')"

definition lift_opt :: "runtime_error \<Rightarrow> 'a option \<Rightarrow> ('s, 'a) run" where
  "lift_opt e oa = (case oa of None \<Rightarrow> throw e | Some a \<Rightarrow> ret a)"

definition rd_object :: "'s state_store \<Rightarrow> object_id \<Rightarrow> ('s, coin option) run" where
  "rd_object ops i = (\<lambda>(s, ctx). (get_object ops s i, (s, ctx)))"

definition wr_object :: "'s state_store \<Rightarrow> object_id \<Rightarrow> coin \<Rightarrow> ('s, unit) run" where
  "wr_object ops i c = (\<lambda>(s, ctx). case set_object ops s i c of (r, s') \<Rightarrow> (r, (s', ctx)))"

definition rm_object :: "'s state_store \<Rightarrow> object_id \<Rightarrow> ('s, unit) run" where
  "rm_object ops i = (\<lambda>(s, ctx). case delete_object ops s i of (r, s') \<Rightarrow> (r, (s', ctx)))"

definition rd_owned :: "'s state_store \<Rightarrow> address \<Rightarrow> ('s, object_id list) run" where
  "rd_owned ops a = (\<lambda>(s, ctx). (get_owned_objects ops s a, (s, ctx)))"

definition rd_raw :: "'s state_store \<Rightarrow> object_id \<Rightarrow> ('s, bytes option) run" where
  "rd_raw ops i = (\<lambda>(s, ctx). (get_raw_object ops s i, (s, ctx)))"

definition wr_raw :: "'s state_store \<Rightarrow> object_id \<Rightarrow> bytes \<Rightarrow> ('s, unit) run" where
  "wr_raw ops i d = (\<lambda>(s, ctx). case set_raw_object ops s i d of (r, s') \<Rightarrow> (r, (s', ctx)))"

definition get_ctx :: "('s, execution_context) run" where
  "get_ctx = (\<lambda>(s, ctx). (Inr ctx, (s, ctx)))"

text \<open>\<open>next_output_index\<close>: the counter's old value, a panic when it would overflow.\<close>

definition next_output_index :: "('s, u32) run" where
  "next_output_index = (\<lambda>(s, ctx).
     case checked_add (output_counter ctx) 1 of
       None \<Rightarrow> (Inl (Panic ''output_counter overflow: > u32::MAX coins in one tx''), (s, ctx))
     | Some n \<Rightarrow> (Inr (output_counter ctx), (s, ctx\<lparr>output_counter := n\<rparr>)))"

definition new_coin_id :: "ext \<Rightarrow> ('s, object_id) run" where
  "new_coin_id E = bnd get_ctx (\<lambda>ctx. bnd next_output_index (\<lambda>idx.
     ret (coin_id_from_tx E (tx_hash ctx) idx)))"

section \<open>Transfers\<close>

definition ok_output ::
  "out_msg \<Rightarrow> state_change list \<Rightarrow> object_id list \<Rightarrow> object_id list \<Rightarrow> execution_output" where
  "ok_output msg changes created deleted =
     \<lparr>success = True, message = Some msg, state_changes = changes, created_objects = created,
      deleted_objects = deleted, query_result = None\<rparr>"

definition upd_change :: "object_id \<Rightarrow> bytes \<Rightarrow> bytes \<Rightarrow> state_change" where
  "upd_change i old new =
     \<lparr>change_type = Update, sc_object_id = i, old_state = Some old, new_state = Some new\<rparr>"

definition create_change :: "object_id \<Rightarrow> bytes \<Rightarrow> state_change" where
  "create_change i new =
     \<lparr>change_type = Create, sc_object_id = i, old_state = None, new_state = Some new\<rparr>"

definition delete_change :: "object_id \<Rightarrow> bytes \<Rightarrow> state_change" where
  "delete_change i old =
     \<lparr>change_type = Delete, sc_object_id = i, old_state = Some old, new_state = None\<rparr>"

text \<open>The full transfer: the coin itself changes hands.\<close>

definition transfer_full ::
  "'s state_store \<Rightarrow> ext \<Rightarrow> transaction \<Rightarrow> transfer_tx \<Rightarrow> coin \<Rightarrow> ('s, execution_output) run" where
  "transfer_full ops E tx t coin =
     (let coin_id = tx_coin_id t; old = to_coin_state_bytes E coin;
          coin' = transfer_coin E coin (recipient t)
      in bnd (wr_object ops coin_id coin') (\<lambda>_.
         ret (ok_output (TransferCompleted (sender tx) (recipient t))
           [upd_change coin_id old (to_coin_state_bytes E coin')] [] [])))"

text \<open>The partial transfer: withdraw from the coin, then create a new one for the recipient.\<close>

definition transfer_partial ::
  "'s state_store \<Rightarrow> ext \<Rightarrow> transaction \<Rightarrow> transfer_tx \<Rightarrow> coin \<Rightarrow> u64 \<Rightarrow>
   ('s, execution_output) run" where
  "transfer_partial ops E tx t coin amt =
     (let coin_id = tx_coin_id t; old = to_coin_state_bytes E coin
      in case withdraw (cd_balance (data coin)) amt of
           (_, Inl e) \<Rightarrow> throw (InvalidTransaction (BalanceProblem e))
         | (b, Inr _) \<Rightarrow>
             (let coin' = incr_coin E (set_balance coin b)
              in bnd (wr_object ops coin_id coin') (\<lambda>_.
                 bnd (new_coin_id E) (\<lambda>new_id.
                 bnd get_ctx (\<lambda>ctx.
                 let new_coin = create_coin_with_id E new_id (recipient t) amt (coin_type coin)
                                  (ctx_timestamp ctx)
                 in bnd (wr_object ops new_id new_coin) (\<lambda>_.
                    ret (ok_output (TransferCompleted (sender tx) (recipient t))
                      [upd_change coin_id old (to_coin_state_bytes E coin'),
                       create_change new_id (to_coin_state_bytes E new_coin)]
                      [new_id] [])))))))"

definition execute_transfer ::
  "'s state_store \<Rightarrow> ext \<Rightarrow> transaction \<Rightarrow> transfer_tx \<Rightarrow> ('s, execution_output) run" where
  "execute_transfer ops E tx t =
     bnd (rd_object ops (tx_coin_id t)) (\<lambda>oc.
     case oc of
       None \<Rightarrow> throw (ObjectNotFound (tx_coin_id t))
     | Some coin \<Rightarrow>
         if \<not> is_owned coin then throw (InvalidTransaction (NotOwnedObject (tx_coin_id t)))
         else (case md_owner (metadata coin) of
             None \<Rightarrow> throw (InvalidOwnership (tx_coin_id t) (sender tx))
           | Some owner \<Rightarrow>
               if owner \<noteq> sender tx then throw (InvalidOwnership (tx_coin_id t) (sender tx))
               else if amount t = Some 0 then throw (InvalidTransaction TransferAmountZero)
               else (case amount t of
                   None \<Rightarrow> transfer_full ops E tx t coin
                 | Some amt \<Rightarrow>
                     if amt = coin_value coin then transfer_full ops E tx t coin
                     else transfer_partial ops E tx t coin amt)))"

section \<open>Queries\<close>

definition json_get :: "json_value \<Rightarrow> string \<Rightarrow> json_value option" where
  "json_get v k = (case v of JObj fs \<Rightarrow> map_of fs k | _ \<Rightarrow> None)"

definition id_param :: "ext \<Rightarrow> json_value \<Rightarrow> string \<Rightarrow> ('s, 256 word) run" where
  "id_param E ps k =
     bnd (lift_opt (InvalidTransaction (MissingParameter k)) (json_get ps k)) (\<lambda>v.
     lift_opt SerializationError (json_to_id E v))"

fun query_balances ::
  "'s state_store \<Rightarrow> object_id list \<Rightarrow> (string, u64) fmap \<Rightarrow> ('s, (string, u64) fmap) run" where
  "query_balances ops [] totals = ret totals"
| "query_balances ops (i # is) totals =
     bnd (rd_object ops i) (\<lambda>oc.
     case oc of
       None \<Rightarrow> query_balances ops is totals
     | Some coin \<Rightarrow>
         (let entry = (case fmlookup totals (coin_type coin) of None \<Rightarrow> 0 | Some v \<Rightarrow> v)
          in bnd (lift_opt (InvalidTransaction BalanceOverflowInQuery)
                   (checked_add entry (coin_value coin))) (\<lambda>v.
             query_balances ops is (fmupd (coin_type coin) v totals))))"

definition execute_query ::
  "'s state_store \<Rightarrow> ext \<Rightarrow> query_tx \<Rightarrow> ('s, execution_output) run" where
  "execute_query ops E q =
     bnd (case query_type q of
            QBalance \<Rightarrow> bnd (id_param E (params q) ''address'') (\<lambda>a.
              bnd (rd_owned ops a) (\<lambda>owned.
              bnd (query_balances ops owned fmempty) (\<lambda>totals. ret (BalancesOf totals))))
          | QObject \<Rightarrow> bnd (id_param E (params q) ''object_id'') (\<lambda>i.
              bnd (rd_object ops i) (\<lambda>oc. ret (ObjectOf oc)))
          | QOwnedObjects \<Rightarrow> bnd (id_param E (params q) ''address'') (\<lambda>a.
              bnd (rd_owned ops a) (\<lambda>owned. ret (IdsOf owned))))
     (\<lambda>result. ret \<lparr>success = True, message = Some QueryExecuted, state_changes = [],
        created_objects = [], deleted_objects = [], query_result = Some result\<rparr>)"

definition execute_transaction ::
  "'s state_store \<Rightarrow> ext \<Rightarrow> transaction \<Rightarrow> ('s, execution_output) run" where
  "execute_transaction ops E tx =
     (case tx_type tx of
        Transfer t \<Rightarrow> execute_transfer ops E tx t
      | Query q \<Rightarrow> execute_query ops E q)"

definition parse_address :: "ext \<Rightarrow> string \<Rightarrow> ('s, address) run" where
  "parse_address E s = (case Address_from_hex E s of
     Inl _ \<Rightarrow> throw (InvalidAddress s) | Inr a \<Rightarrow> ret a)"

definition execute_transfer_with_coin ::
  "'s state_store \<Rightarrow> ext \<Rightarrow> object_id \<Rightarrow> string \<Rightarrow> string \<Rightarrow> u64 option \<Rightarrow>
   ('s, execution_output) run" where
  "execute_transfer_with_coin ops E coin_id from to amt =
     bnd (parse_address E from) (\<lambda>snd_addr.
     bnd (parse_address E to) (\<lambda>rcp.
     bnd get_ctx (\<lambda>ctx.
     execute_transaction ops E
       (new_transfer_deterministic E snd_addr coin_id rcp amt (ctx_timestamp ctx)))))"

section \<open>Minting, merging and splitting\<close>

definition mint_tokens ::
  "'s state_store \<Rightarrow> ext \<Rightarrow> address \<Rightarrow> string \<Rightarrow> u64 \<Rightarrow> ('s, execution_output) run" where
  "mint_tokens ops E to subnet_id amt =
     (if amt = 0 then ret (ok_output NoTokensToMint [] [] [])
      else bnd (new_coin_id E) (\<lambda>coin_id.
           bnd get_ctx (\<lambda>ctx.
           let coin = create_coin_with_id E coin_id to amt subnet_id (ctx_timestamp ctx)
           in bnd (wr_object ops coin_id coin) (\<lambda>_.
              ret (ok_output (Minted amt to subnet_id)
                [create_change coin_id (to_coin_state_bytes E coin)] [coin_id] [])))))"

definition MAX_MERGE_SOURCES :: nat where
  "MAX_MERGE_SOURCES = 50"

fun first_duplicate :: "object_id list \<Rightarrow> object_id list \<Rightarrow> object_id option" where
  "first_duplicate seen [] = None"
| "first_duplicate seen (i # is) =
     (if i \<in> set seen then Some i else first_duplicate (i # seen) is)"

text \<open>The loop over the sources: each is checked, added to the target and deleted at once.\<close>

fun merge_sources ::
  "'s state_store \<Rightarrow> ext \<Rightarrow> address \<Rightarrow> string \<Rightarrow> object_id list \<Rightarrow> coin \<Rightarrow> state_change list \<Rightarrow>
   object_id list \<Rightarrow> ('s, coin \<times> state_change list \<times> object_id list) run" where
  "merge_sources ops E owner ct [] target changes deleted = ret (target, changes, deleted)"
| "merge_sources ops E owner ct (i # is) target changes deleted =
     bnd (rd_object ops i) (\<lambda>oc.
     case oc of
       None \<Rightarrow> throw (ObjectNotFound i)
     | Some source \<Rightarrow>
         (case md_owner (metadata source) of
            None \<Rightarrow> throw (InvalidOwnership i owner)
          | Some source_owner \<Rightarrow>
              if source_owner \<noteq> owner then throw (InvalidTransaction (SourceNotOwned i owner))
              else if coin_type source \<noteq> ct
              then throw (InvalidTransaction (CoinTypeMismatch ct (coin_type source)))
              else (case deposit (cd_balance (data target)) (cd_balance (data source)) of
                  (_, Inl e) \<Rightarrow> throw (InvalidTransaction (BalanceProblem e))
                | (b, Inr _) \<Rightarrow>
                    bnd (rm_object ops i) (\<lambda>_.
                    merge_sources ops E owner ct is (set_balance target b)
                      (changes @ [delete_change i (to_coin_state_bytes E source)])
                      (deleted @ [i])))))"

definition execute_merge_coins ::
  "'s state_store \<Rightarrow> ext \<Rightarrow> address \<Rightarrow> object_id \<Rightarrow> object_id list \<Rightarrow>
   ('s, execution_output) run" where
  "execute_merge_coins ops E owner target_id source_ids =
     (if source_ids = [] then throw (InvalidTransaction NoSourceCoins)
      else if length source_ids > MAX_MERGE_SOURCES
      then throw (InvalidTransaction (TooManySourceCoins (length source_ids) MAX_MERGE_SOURCES))
      else if target_id \<in> set source_ids then throw (InvalidTransaction (TargetIsSource target_id))
      else (case first_duplicate [] source_ids of
          Some i \<Rightarrow> throw (InvalidTransaction (DuplicateSource i))
        | None \<Rightarrow>
            bnd (rd_object ops target_id) (\<lambda>oc.
            case oc of
              None \<Rightarrow> throw (ObjectNotFound target_id)
            | Some target \<Rightarrow>
                (case md_owner (metadata target) of
                   None \<Rightarrow> throw (InvalidOwnership target_id owner)
                 | Some target_owner \<Rightarrow>
                     if target_owner \<noteq> owner then throw (InvalidOwnership target_id owner)
                     else
                       bnd (merge_sources ops E owner (coin_type target) source_ids target [] [])
                       (\<lambda>(target1, changes, deleted).
                       let target2 = incr_coin E target1
                       in bnd (wr_object ops target_id target2) (\<lambda>_.
                          ret (ok_output (MergedCoins (length source_ids))
                            (upd_change target_id (to_coin_state_bytes E target)
                               (to_coin_state_bytes E target2) # changes)
                            [] deleted)))))))"

definition MAX_SPLIT_OUTPUTS :: nat where
  "MAX_SPLIT_OUTPUTS = 50"

text \<open>\<open>try_fold\<close> with \<open>checked_add\<close>.\<close>

fun checked_sum :: "u64 \<Rightarrow> u64 list \<Rightarrow> u64 option" where
  "checked_sum acc [] = Some acc"
| "checked_sum acc (a # as) =
     (case checked_add acc a of None \<Rightarrow> None | Some acc' \<Rightarrow> checked_sum acc' as)"

fun split_outputs ::
  "'s state_store \<Rightarrow> ext \<Rightarrow> address \<Rightarrow> u64 list \<Rightarrow> coin \<Rightarrow> state_change list \<Rightarrow>
   object_id list \<Rightarrow> ('s, coin \<times> state_change list \<times> object_id list) run" where
  "split_outputs ops E owner [] source changes created = ret (source, changes, created)"
| "split_outputs ops E owner (amt # amts) source changes created =
     bnd (new_coin_id E) (\<lambda>new_id.
     bnd get_ctx (\<lambda>ctx.
     let new_coin = create_coin_with_id E new_id owner amt (coin_type source) (ctx_timestamp ctx)
     in bnd (wr_object ops new_id new_coin) (\<lambda>_.
        case withdraw (cd_balance (data source)) amt of
          (_, Inl e) \<Rightarrow> throw (InvalidTransaction (BalanceProblem e))
        | (b, Inr _) \<Rightarrow>
            split_outputs ops E owner amts (set_balance source b)
              (changes @ [create_change new_id (to_coin_state_bytes E new_coin)])
              (created @ [new_id]))))"

definition execute_split_coin ::
  "'s state_store \<Rightarrow> ext \<Rightarrow> address \<Rightarrow> object_id \<Rightarrow> u64 list \<Rightarrow> ('s, execution_output) run" where
  "execute_split_coin ops E owner source_id amts =
     (if amts = [] then throw (InvalidTransaction SplitAmountsEmpty)
      else if 0 \<in> set amts then throw (InvalidTransaction SplitAmountZero)
      else if length amts > MAX_SPLIT_OUTPUTS
      then throw (InvalidTransaction (TooManySplitOutputs (length amts) MAX_SPLIT_OUTPUTS))
      else
        bnd (rd_object ops source_id) (\<lambda>oc.
        case oc of
          None \<Rightarrow> throw (ObjectNotFound source_id)
        | Some source \<Rightarrow>
            (case md_owner (metadata source) of
               None \<Rightarrow> throw (InvalidOwnership source_id owner)
             | Some source_owner \<Rightarrow>
                 if source_owner \<noteq> owner then throw (InvalidOwnership source_id owner)
                 else
                   bnd (lift_opt (InvalidTransaction SplitAmountsOverflow) (checked_sum 0 amts))
                   (\<lambda>total_split.
                   if coin_value source < total_split
                   then throw (InsufficientBalance owner total_split (coin_value source))
                   else
                     let is_exact = (coin_value source = total_split);
                         old = to_coin_state_bytes E source
                     in bnd (split_outputs ops E owner amts source [] [])
                        (\<lambda>(source1, changes, created).
                        if is_exact
                        then bnd (rm_object ops source_id) (\<lambda>_.
                             ret (ok_output (SplitInto (length amts) True)
                               (delete_change source_id old # changes) created [source_id]))
                        else
                          let source2 = incr_coin E source1
                          in bnd (wr_object ops source_id source2) (\<lambda>_.
                             ret (ok_output (SplitInto (length amts) False)
                               (upd_change source_id old (to_coin_state_bytes E source2) # changes)
                               created [])))))))"

section \<open>The account-based transfer\<close>

fun collect_coins ::
  "'s state_store \<Rightarrow> string \<Rightarrow> object_id list \<Rightarrow> (object_id \<times> coin) list \<Rightarrow>
   ('s, (object_id \<times> coin) list) run" where
  "collect_coins ops ct [] coins = ret coins"
| "collect_coins ops ct (i # is) coins =
     bnd (rd_object ops i) (\<lambda>oc.
     case oc of
       None \<Rightarrow> collect_coins ops ct is coins
     | Some coin \<Rightarrow> collect_coins ops ct is (if coin_type coin = ct then coins @ [(i, coin)] else coins))"

definition merge_then_transfer ::
  "'s state_store \<Rightarrow> ext \<Rightarrow> address \<Rightarrow> address \<Rightarrow> u64 \<Rightarrow> object_id \<Rightarrow> object_id list \<Rightarrow>
   ('s, execution_output) run" where
  "merge_then_transfer ops E snd_addr rcp amt target_id source_ids =
     bnd (execute_merge_coins ops E snd_addr target_id source_ids) (\<lambda>merge_output.
     bnd get_ctx (\<lambda>ctx.
     bnd (execute_transaction ops E
            (new_transfer_deterministic E snd_addr target_id rcp (Some amt) (ctx_timestamp ctx)))
     (\<lambda>transfer_output.
     ret (merge_output\<lparr>
       state_changes := state_changes merge_output @ state_changes transfer_output,
       created_objects := created_objects merge_output @ created_objects transfer_output,
       deleted_objects := deleted_objects merge_output @ deleted_objects transfer_output,
       message := Some (AutoMerged (length source_ids + 1) amt rcp)\<rparr>))))"

definition execute_simple_transfer ::
  "'s state_store \<Rightarrow> ext \<Rightarrow> string \<Rightarrow> string \<Rightarrow> u64 \<Rightarrow> string option \<Rightarrow>
   ('s, execution_output) run" where
  "execute_simple_transfer ops E from to amt ct =
     bnd get_ctx (\<lambda>ctx.
     if in_tee ctx then throw (InvalidTransaction SimpleTransferInTee)
     else
       bnd (parse_address E from) (\<lambda>snd_addr.
       bnd (parse_address E to) (\<lambda>rcp.
       bnd (rd_owned ops snd_addr) (\<lambda>owned.
       bnd (collect_coins ops (case ct of None \<Rightarrow> ''ROOT'' | Some c \<Rightarrow> c) owned []) (\<lambda>coins.
       bnd (lift_opt (InvalidTransaction TotalBalanceOverflow)
              (checked_sum 0 (map (\<lambda>(_, c). coin_value c) coins))) (\<lambda>total_balance.
       if total_balance < amt then throw (InsufficientBalance snd_addr amt total_balance)
       else
         let sorted = sort_key (\<lambda>(_, c). coin_value c) coins
         in case find (\<lambda>(_, c). amt \<le> coin_value c) sorted of
              Some (i, _) \<Rightarrow>
                execute_transaction ops E
                  (new_transfer_deterministic E snd_addr i rcp (Some amt) (ctx_timestamp ctx))
            | None \<Rightarrow>
                (case sort_key (\<lambda>(_, c). - int (unat (coin_value c))) sorted of
                   [] \<Rightarrow> throw (Panic ''index out of bounds'')
                 | (target_id, _) # rest \<Rightarrow>
                     merge_then_transfer ops E snd_addr rcp amt target_id (map fst rest))))))))"

section \<open>Registration, profiles and membership\<close>

definition lift_json :: "ext \<Rightarrow> json_value \<Rightarrow> ('s, bytes) run" where
  "lift_json E v = lift_opt SerializationError (json_to_vec E v)"

definition json_opt :: "string option \<Rightarrow> json_value" where
  "json_opt os = (case os of None \<Rightarrow> JNull | Some s \<Rightarrow> JStr s)"

definition execute_subnet_register ::
  "'s state_store \<Rightarrow> ext \<Rightarrow> string \<Rightarrow> string \<Rightarrow> address \<Rightarrow> string option \<Rightarrow> u64 option \<Rightarrow>
   ('s, execution_output) run" where
  "execute_subnet_register ops E subnet_id name owner token_symbol initial_supply =
     bnd get_ctx (\<lambda>ctx.
     let subnet_data = JObj [(''subnet_id'', JStr subnet_id), (''name'', JStr name),
           (''owner'', JStr (id_to_string E owner)), (''token_symbol'', json_opt token_symbol),
           (''created_at'', JNum (ctx_timestamp ctx))];
         subnet_oid = setu_hash_with_domain E ''SETU_SUBNET_META:''
           (str_bytes (''subnet:'' @ subnet_id));
         msg = SubnetRegistered name owner token_symbol
     in bnd (lift_json E subnet_data) (\<lambda>d.
        let meta = create_change subnet_oid d
        in case initial_supply of
             Some supply \<Rightarrow>
               if 0 < supply
               then bnd (mint_tokens ops E owner subnet_id supply) (\<lambda>mint_output.
                    ret (ok_output msg (meta # state_changes mint_output)
                      (created_objects mint_output) []))
               else ret (ok_output msg [meta] [] [])
           | None \<Rightarrow> ret (ok_output msg [meta] [] [])))"

definition to_ascii_lowercase :: "string \<Rightarrow> string" where
  "to_ascii_lowercase = map (\<lambda>c. if CHR ''A'' \<le> c \<and> c \<le> CHR ''Z''
     then char_of (of_char c + 32 :: nat) else c)"

definition flux_state_object_id :: "ext \<Rightarrow> string \<Rightarrow> object_id" where
  "flux_state_object_id E a = setu_hash_with_domain E ''SETU_FLUX:'' (str_bytes (to_ascii_lowercase a))"

definition power_state_object_id :: "ext \<Rightarrow> string \<Rightarrow> object_id" where
  "power_state_object_id E a =
     setu_hash_with_domain E ''SETU_POWER:'' (str_bytes (to_ascii_lowercase a))"

record flux_state =
  fx_address :: string
  flux :: u64
  last_active_at :: u64
  fx_version :: u64

record power_state =
  pw_address :: string
  power_remaining :: u64
  pw_version :: u64

definition INITIAL_POWER :: u64 where
  "INITIAL_POWER = 21000000"

definition INITIAL_FLUX :: u64 where
  "INITIAL_FLUX = 0"

definition flux_new :: "string \<Rightarrow> u64 \<Rightarrow> flux_state" where
  "flux_new a ts = \<lparr>fx_address = a, flux = INITIAL_FLUX, last_active_at = ts, fx_version = 0\<rparr>"

definition power_new :: "string \<Rightarrow> power_state" where
  "power_new a = \<lparr>pw_address = a, power_remaining = INITIAL_POWER, pw_version = 0\<rparr>"

text \<open>The derived serializations, by field.\<close>

definition flux_json :: "flux_state \<Rightarrow> json_value" where
  "flux_json f = JObj [(''address'', JStr (fx_address f)), (''flux'', JNum (flux f)),
     (''last_active_at'', JNum (last_active_at f)), (''version'', JNum (fx_version f))]"

definition power_json :: "power_state \<Rightarrow> json_value" where
  "power_json p = JObj [(''address'', JStr (pw_address p)),
     (''power_remaining'', JNum (power_remaining p)), (''version'', JNum (pw_version p))]"

definition membership_oid :: "ext \<Rightarrow> address \<Rightarrow> string \<Rightarrow> object_id" where
  "membership_oid E user subnet_id = setu_hash_with_domain E ''SETU_MEMBERSHIP:''
     (str_bytes (''user:'' @ id_to_string E user @ '':subnet:'' @ subnet_id))"

definition member_oid :: "ext \<Rightarrow> address \<Rightarrow> string \<Rightarrow> object_id" where
  "member_oid E user subnet_id = setu_hash_with_domain E ''SETU_SUBNET_MEMBER:''
     (str_bytes (''subnet:'' @ subnet_id @ '':member:'' @ id_to_string E user))"

definition membership_json :: "ext \<Rightarrow> address \<Rightarrow> string \<Rightarrow> u64 \<Rightarrow> json_value" where
  "membership_json E user subnet_id ts = JObj [(''user'', JStr (id_to_string E user)),
     (''subnet_id'', JStr subnet_id), (''joined_at'', JNum ts)]"

text \<open>Create the resource if no raw object with its id exists.\<close>

definition create_if_absent ::
  "'s state_store \<Rightarrow> ext \<Rightarrow> object_id \<Rightarrow> json_value \<Rightarrow> ('s, state_change list \<times> object_id list) run"
  where
  "create_if_absent ops E oid v =
     bnd (rd_raw ops oid) (\<lambda>old.
     if old \<noteq> None then ret ([], [])
     else bnd (lift_json E v) (\<lambda>d.
          bnd (wr_raw ops oid d) (\<lambda>_. ret ([create_change oid d], [oid]))))"

definition execute_user_register ::
  "'s state_store \<Rightarrow> ext \<Rightarrow> address \<Rightarrow> string \<Rightarrow> ('s, execution_output) run" where
  "execute_user_register ops E user subnet_id =
     bnd get_ctx (\<lambda>ctx.
     let addr_str = id_to_string E user; moid = membership_oid E user subnet_id
     in bnd (lift_json E (membership_json E user subnet_id (ctx_timestamp ctx))) (\<lambda>d.
        bnd (create_if_absent ops E (flux_state_object_id E addr_str)
               (flux_json (flux_new addr_str (ctx_timestamp ctx)))) (\<lambda>(ch1, cr1).
        bnd (create_if_absent ops E (power_state_object_id E addr_str)
               (power_json (power_new addr_str))) (\<lambda>(ch2, cr2).
        ret (ok_output (UserRegistered user subnet_id)
          (create_change moid d # ch1 @ ch2) (moid # cr1 @ cr2) [])))))"

definition execute_profile_update ::
  "ext \<Rightarrow> address \<Rightarrow> string option \<Rightarrow> string option \<Rightarrow> string option \<Rightarrow> (string, string) fmap \<Rightarrow>
   ('s, execution_output) run" where
  "execute_profile_update E user display_name avatar_url bio attributes =
     bnd get_ctx (\<lambda>ctx.
     let oid = setu_hash_with_domain E ''SETU_PROFILE:''
           (str_bytes (''profile:'' @ id_to_string E user));
         profile = JObj [(''owner'', JStr (id_to_string E user)),
           (''display_name'', json_opt display_name), (''avatar_url'', json_opt avatar_url),
           (''bio'', json_opt bio),
           (''attributes'', JObj (map (\<lambda>(k, v). (k, JStr v)) (entries attributes))),
           (''created_at'', JNum (ctx_timestamp ctx)), (''updated_at'', JNum (ctx_timestamp ctx))]
     in bnd (lift_json E profile) (\<lambda>d.
        ret (ok_output (ProfileUpdated user) [create_change oid d] [] [])))"

definition execute_subnet_join ::
  "ext \<Rightarrow> address \<Rightarrow> string \<Rightarrow> ('s, execution_output) run" where
  "execute_subnet_join E user subnet_id =
     bnd get_ctx (\<lambda>ctx.
     let v = membership_json E user subnet_id (ctx_timestamp ctx)
     in bnd (lift_json E v) (\<lambda>d1.
        bnd (lift_json E v) (\<lambda>d2.
        ret (ok_output (JoinedSubnet user subnet_id)
          [create_change (membership_oid E user subnet_id) d1,
           create_change (member_oid E user subnet_id) d2] [] []))))"

definition execute_subnet_leave ::
  "ext \<Rightarrow> address \<Rightarrow> string \<Rightarrow> ('s, execution_output) run" where
  "execute_subnet_leave E user subnet_id =
     ret (ok_output (LeftSubnet user subnet_id)
       [\<lparr>change_type = Delete, sc_object_id = membership_oid E user subnet_id,
         old_state = None, new_state = None\<rparr>,
        \<lparr>change_type = Delete, sc_object_id = member_oid E user subnet_id,
         old_state = None, new_state = None\<rparr>] [] [])"

section \<open>Power and flux\<close>

text \<open>The state the caller is left with is returned on every path.\<close>

definition decrement_power ::
  "ext \<Rightarrow> power_state \<Rightarrow> u64 \<Rightarrow> (runtime_error + state_change) \<times> power_state" where
  "decrement_power E p cost =
     (if power_remaining p < cost then (Inl (AccountFrozen ''Power depleted''), p)
      else let oid = power_state_object_id E (pw_address p)
           in case json_to_vec E (power_json p) of
                None \<Rightarrow> (Inl SerializationError, p)
              | Some old \<Rightarrow>
                  (let p' = p\<lparr>power_remaining := power_remaining p - cost,
                              pw_version := pw_version p + 1\<rparr>
                   in case json_to_vec E (power_json p') of
                        None \<Rightarrow> (Inl SerializationError, p')
                      | Some new \<Rightarrow> (Inr (upd_change oid old new), p')))"

definition update_flux ::
  "ext \<Rightarrow> flux_state \<Rightarrow> u64 \<Rightarrow> u64 \<Rightarrow> (runtime_error + state_change) \<times> flux_state" where
  "update_flux E f ts new_flux =
     (let oid = flux_state_object_id E (fx_address f)
      in case json_to_vec E (flux_json f) of
           None \<Rightarrow> (Inl SerializationError, f)
         | Some old \<Rightarrow>
             (let f' = f\<lparr>flux := new_flux, last_active_at := ts, fx_version := fx_version f + 1\<rparr>
              in case json_to_vec E (flux_json f') of
                   None \<Rightarrow> (Inl SerializationError, f')
                 | Some new \<Rightarrow> (Inr (upd_change oid old new), f')))"

definition increment_flux ::
  "ext \<Rightarrow> flux_state \<Rightarrow> u64 \<Rightarrow> u64 \<Rightarrow> (runtime_error + state_change) \<times> flux_state" where
  "increment_flux E f ts reward = update_flux E f ts (flux f + reward)"

definition penalize_flux ::
  "ext \<Rightarrow> flux_state \<Rightarrow> u64 \<Rightarrow> u64 \<Rightarrow> (runtime_error + state_change) \<times> flux_state" where
  "penalize_flux E f ts penalty = update_flux E f ts (saturating_sub (flux f) penalty)"

end
