(* ===== verification/Runtime_Conservation.thy ===== *)
theory Runtime_Conservation
  imports Runtime_Executor
begin

text \<open>
  What the executor guarantees. The lemmas are proved once for every store that meets the contract
  \<open>coin_store\<close>, as equations and case rules on the view of the store, and the properties are their
  instances at \<open>InMemoryStateStore\<close> (and, for the transfer, at \<open>InMemoryObjectStore\<close>).

  \<open>coins_total f m\<close> sums a weight over all coins of a view: with the weight \<open>of_type ct\<close> it is the
  amount of a coin type in circulation, with \<open>held_by a ct\<close> what an address holds of it.
\<close>

section \<open>Totals\<close>

definition coins_total :: "(coin \<Rightarrow> nat) \<Rightarrow> (object_id, coin) fmap \<Rightarrow> nat" where
  "coins_total f m = fmsum (\<lambda>_. f) m"

definition of_type :: "string \<Rightarrow> coin \<Rightarrow> nat" where
  "of_type ct c = (if coin_type c = ct then unat (coin_value c) else 0)"

definition held_by :: "address \<Rightarrow> string \<Rightarrow> coin \<Rightarrow> nat" where
  "held_by a ct c =
     (if md_owner (metadata c) = Some a \<and> coin_type c = ct then unat (coin_value c) else 0)"

lemma coins_total_upd:
  "fmlookup m i = Some c \<Longrightarrow> coins_total f (fmupd i c' m) + f c = f c' + coins_total f m"
  unfolding coins_total_def by (rule fmsum_upd_old)

lemma coins_total_new:
  "fmlookup m i = None \<Longrightarrow> coins_total f (fmupd i c' m) = f c' + coins_total f m"
  unfolding coins_total_def by (rule fmsum_upd_new)

lemma coins_total_drop:
  "fmlookup m i = Some c \<Longrightarrow> coins_total f m = f c + coins_total f (fmdrop i m)"
  unfolding coins_total_def by (rule fmsum_drop)

lemma of_type_simps [simp]:
  "of_type ct (increment_version E ser c) = of_type ct c"
  "of_type ct (transfer_to E ser c a) = of_type ct c"
  "of_type ct (create_coin_with_id E i a v ct' t) = (if ct' = ct then unat v else 0)"
  by (simp_all add: of_type_def)

lemma held_by_simps [simp]:
  "held_by a ct (increment_version E ser c) = held_by a ct c"
  "is_owned c \<Longrightarrow> held_by a ct (transfer_to E ser c b)
     = (if a = b \<and> coin_type c = ct then unat (coin_value c) else 0)"
  "held_by a ct (create_coin_with_id E i b v ct' t) = (if a = b \<and> ct' = ct then unat v else 0)"
  by (simp_all add: held_by_def)

section \<open>The steps of a run\<close>

lemma bnd_Inr [simp]: "m c = (Inr a, c') \<Longrightarrow> bnd m f c = f a c'"
  by (simp add: bnd_def)

lemma bnd_Inl [simp]: "m c = (Inl e, c') \<Longrightarrow> bnd m f c = (Inl e, c')"
  by (simp add: bnd_def)

lemma ret_apply [simp]: "ret a c = (Inr a, c)"
  by (simp add: ret_def)

lemma throw_apply [simp]: "throw e c = (Inl e, c)"
  by (simp add: throw_def)

lemma get_ctx_apply [simp]: "get_ctx (s, ctx) = (Inr ctx, (s, ctx))"
  by (simp add: get_ctx_def)

lemma lift_opt_simps [simp]:
  "lift_opt e None = throw e"
  "lift_opt e (Some a) = ret a"
  by (simp_all add: lift_opt_def)

text \<open>The next coin id of a context, and the context afterwards.\<close>

definition next_id :: "ext \<Rightarrow> execution_context \<Rightarrow> object_id" where
  "next_id E ctx = coin_id_from_tx E (tx_hash ctx) (output_counter ctx)"

definition step_ctx :: "execution_context \<Rightarrow> execution_context" where
  "step_ctx ctx = ctx\<lparr>output_counter := output_counter ctx + 1\<rparr>"

lemma new_coin_id_apply:
  "output_counter ctx \<noteq> - 1 \<Longrightarrow> new_coin_id E (s, ctx) = (Inr (next_id E ctx), (s, step_ctx ctx))"
  by (simp add: new_coin_id_def next_output_index_def next_id_def step_ctx_def checked_add_1)

lemma new_coin_id_panic:
  "output_counter ctx = - 1 \<Longrightarrow> \<exists>msg. new_coin_id E (s, ctx) = (Inl (Panic msg), (s, ctx))"
  by (simp add: new_coin_id_def next_output_index_def)

lemma step_ctx_simps [simp]:
  "ctx_timestamp (step_ctx ctx) = ctx_timestamp ctx"
  "tx_hash (step_ctx ctx) = tx_hash ctx"
  "in_tee (step_ctx ctx) = in_tee ctx"
  "output_counter (step_ctx ctx) = output_counter ctx + 1"
  by (simp_all add: step_ctx_def)

context coin_store
begin

lemma rd_apply: "inv s \<Longrightarrow> rd_object ops i (s, ctx) = (Inr (fmlookup (view s) i), (s, ctx))"
  by (simp add: rd_object_def get_law)

lemma wr_apply:
  "inv s \<Longrightarrow> md_owner (metadata c) = Some a \<Longrightarrow>
   wr_object ops i c (s, ctx) = (Inr (), (snd (set_object ops s i c), ctx))"
  using set_ok [of s c a i] by (simp add: wr_object_def split_beta)

lemma rm_apply:
  "inv s \<Longrightarrow> rm_object ops i (s, ctx) = (Inr (), (snd (delete_object ops s i), ctx))"
  using delete_ok [of s i] by (simp add: rm_object_def split_beta)

lemmas run_simps = rd_apply wr_apply rm_apply set_inv set_view delete_inv delete_view

lemma transfer_full_apply:
  assumes "inv s" "is_owned coin"
  shows "\<exists>out. transfer_full ops E tx t coin (s, ctx)
    = (Inr out, (snd (set_object ops s (tx_coin_id t) (transfer_coin E coin (recipient t))), ctx))
    \<and> created_objects out = []"
  using assms by (simp add: transfer_full_def Let_def wr_apply ok_output_def)

lemma transfer_partial_apply:
  fixes E :: ext and t :: transfer_tx
  assumes "inv s" "md_owner (metadata coin) = Some a" "amt \<le> coin_value coin"
    and "output_counter ctx \<noteq> - 1"
  defines "c1 \<equiv> incr_coin E (set_balance coin \<lparr>bal_value = coin_value coin - amt\<rparr>)"
    and "c2 \<equiv> create_coin_with_id E (next_id E ctx) (recipient t) amt (coin_type coin)
                 (ctx_timestamp ctx)"
  defines "s1 \<equiv> snd (set_object ops s (tx_coin_id t) c1)"
  shows "\<exists>out. transfer_partial ops E tx t coin amt (s, ctx)
    = (Inr out, (snd (set_object ops s1 (next_id E ctx) c2), step_ctx ctx))
    \<and> created_objects out = [next_id E ctx]"
proof -
  have w: "withdraw (cd_balance (data coin)) amt
      = (\<lparr>bal_value = coin_value coin - amt\<rparr>, Inr (balance_new amt))"
    using assms(3) by (simp add: withdraw_def coin_value_def not_less)
  have "md_owner (metadata c1) = Some a"
    using assms(2) by (simp add: c1_def)
  then have "wr_object ops (tx_coin_id t) c1 (s, ctx) = (Inr (), (s1, ctx))" and "inv s1"
    using assms(1) by (simp_all add: wr_apply set_inv s1_def)
  moreover have "wr_object ops (next_id E ctx) c2 (s1, step_ctx ctx)
      = (Inr (), (snd (set_object ops s1 (next_id E ctx) c2), step_ctx ctx))"
    using \<open>inv s1\<close> by (intro wr_apply) (simp_all add: c2_def)
  ultimately show ?thesis
    using assms(4)
    by (simp add: transfer_partial_def Let_def w new_coin_id_apply ok_output_def
        c1_def [symmetric] c2_def [symmetric])
qed

lemma execute_transfer_cases:
  assumes "inv s" and "execute_transfer ops E tx t (s, ctx) = (r, (s', ctx'))"
    and "output_counter ctx \<noteq> - 1"
  obtains
    (err) e where "r = Inl e" "s' = s" "ctx' = ctx"
  | (full) coin out where "r = Inr out" "fmlookup (view s) (tx_coin_id t) = Some coin"
      "is_owned coin" "md_owner (metadata coin) = Some (sender tx)"
      "amount t = None \<or> amount t = Some (coin_value coin) \<and> coin_value coin \<noteq> 0" "inv s'"
      "view s' = fmupd (tx_coin_id t) (norm (transfer_coin E coin (recipient t))) (view s)"
      "ctx' = ctx" "created_objects out = []"
  | (partial) coin out amt where "r = Inr out" "fmlookup (view s) (tx_coin_id t) = Some coin"
      "is_owned coin" "md_owner (metadata coin) = Some (sender tx)" "amount t = Some amt" "amt \<noteq> 0"
      "amt < coin_value coin" "inv s'"
      "view s' = fmupd (next_id E ctx) (norm (create_coin_with_id E (next_id E ctx) (recipient t)
          amt (coin_type coin) (ctx_timestamp ctx)))
        (fmupd (tx_coin_id t) (norm (incr_coin E (set_balance coin
          \<lparr>bal_value = coin_value coin - amt\<rparr>))) (view s))"
      "ctx' = step_ctx ctx" "created_objects out = [next_id E ctx]"
proof (cases "fmlookup (view s) (tx_coin_id t)")
  case None
  then show thesis
    using assms err by (auto simp: execute_transfer_def rd_apply)
next
  case (Some coin)
  let ?bad = "\<not> is_owned coin \<or> md_owner (metadata coin) \<noteq> Some (sender tx) \<or> amount t = Some 0"
  consider (bad) ?bad
    | (all) "\<not> ?bad" "amount t = None \<or> amount t = Some (coin_value coin)"
    | (some) amt where "\<not> ?bad" "amount t = Some amt" "amt \<noteq> coin_value coin"
    by (cases "amount t") blast+
  then show thesis
  proof cases
    case bad
    then have "\<exists>e. execute_transfer ops E tx t (s, ctx) = (Inl e, (s, ctx))"
      using assms(1) Some
      by (cases "md_owner (metadata coin)") (auto simp: execute_transfer_def rd_apply)
    then show thesis
      using assms(2) err by auto
  next
    case all
    then have "execute_transfer ops E tx t (s, ctx) = transfer_full ops E tx t coin (s, ctx)"
      using Some assms(1) by (auto simp: execute_transfer_def rd_apply)
    moreover obtain out where "transfer_full ops E tx t coin (s, ctx)
        = (Inr out, (snd (set_object ops s (tx_coin_id t) (transfer_coin E coin (recipient t))), ctx))"
      and "created_objects out = []"
      using transfer_full_apply [OF assms(1), of coin E tx t ctx] all by blast
    moreover have "md_owner (metadata (transfer_coin E coin (recipient t))) = Some (recipient t)"
      using all by simp
    ultimately show thesis
      using all assms(1,2) by (intro full [OF _ Some]) (auto simp: set_inv set_view)
  next
    case some
    then have eq: "execute_transfer ops E tx t (s, ctx) = transfer_partial ops E tx t coin amt (s, ctx)"
      using Some assms(1) by (auto simp: execute_transfer_def rd_apply)
    show thesis
    proof (cases "amt \<le> coin_value coin")
      case True
      with some have "amt < coin_value coin"
        by simp
      let ?c1 = "incr_coin E (set_balance coin \<lparr>bal_value = coin_value coin - amt\<rparr>)"
        and ?c2 = "create_coin_with_id E (next_id E ctx) (recipient t) amt (coin_type coin)
                     (ctx_timestamp ctx)"
      let ?s1 = "snd (set_object ops s (tx_coin_id t) ?c1)"
      obtain out where out: "transfer_partial ops E tx t coin amt (s, ctx)
          = (Inr out, (snd (set_object ops ?s1 (next_id E ctx) ?c2), step_ctx ctx))"
        and "created_objects out = [next_id E ctx]"
        using transfer_partial_apply [OF assms(1) _ True assms(3), where E = E and t = t and tx = tx] some
        by blast
      moreover have c1: "inv ?s1" "view ?s1 = fmupd (tx_coin_id t) (norm ?c1) (view s)"
        using assms(1) some by (auto simp: set_inv set_view)
      moreover have "inv (snd (set_object ops ?s1 (next_id E ctx) ?c2))"
        "view (snd (set_object ops ?s1 (next_id E ctx) ?c2))
           = fmupd (next_id E ctx) (norm ?c2) (view ?s1)"
        using c1(1) by (auto simp: set_inv set_view)
      ultimately show thesis
        using some assms(2) eq \<open>amt < coin_value coin\<close> by (intro partial [OF _ Some]) auto
    next
      case False
      then show thesis
        using assms(2) eq err
        by (auto simp: transfer_partial_def withdraw_def coin_value_def not_le)
    qed
  qed
qed

end

text \<open>The amount a transfer of a coin moves.\<close>

definition moved :: "transfer_tx \<Rightarrow> coin \<Rightarrow> nat" where
  "moved t coin = unat (case amount t of None \<Rightarrow> coin_value coin | Some a \<Rightarrow> a)"

context coin_store
begin

lemma norm_of_type [simp]: "of_type ct (norm c) = of_type ct c"
  by (simp add: of_type_def)

lemma norm_held_by [simp]:
  "md_owner (metadata c) = Some b \<Longrightarrow> held_by a ct (norm c) = held_by a ct c"
  using norm_owner [of c b] by (simp add: held_by_def)

lemma partial_total:
  assumes "fmlookup m i = Some coin" "fmlookup m j = None"
    and "f c1 + g = f coin" "f c2 = h"
  shows "coins_total f (fmupd j c2 (fmupd i c1 m)) + g = coins_total f m + h"
proof -
  have "fmlookup (fmupd i c1 m) j = None"
    using assms(1,2) by auto
  then have "coins_total f (fmupd j c2 (fmupd i c1 m)) = h + coins_total f (fmupd i c1 m)"
    using assms(4) by (simp add: coins_total_new)
  then show ?thesis
    using coins_total_upd [OF assms(1), of f c1] assms(3) by simp
qed

lemma execute_transfer_ok:
  assumes "inv s" "output_counter ctx \<noteq> - 1" "fmlookup (view s) (next_id E ctx) = None"
    and "execute_transfer ops E tx t (s, ctx) = (Inr out, (s', ctx'))"
  obtains coin where "fmlookup (view s) (tx_coin_id t) = Some coin"
    "md_owner (metadata coin) = Some (sender tx)"
    "inv s'"
    "\<And>a ct. coins_total (held_by a ct) (view s') + (if a = sender tx \<and> ct = coin_type coin then moved t coin else 0)
       = coins_total (held_by a ct) (view s) + (if a = recipient t \<and> ct = coin_type coin then moved t coin else 0)"
    "\<And>ct. coins_total (of_type ct) (view s') = coins_total (of_type ct) (view s)"
    "\<And>i. i \<noteq> tx_coin_id t \<Longrightarrow> i \<noteq> next_id E ctx \<Longrightarrow> fmlookup (view s') i = fmlookup (view s) i"
  using assms(1,4,2)
proof (cases rule: execute_transfer_cases)
  case (full coin out')
  let ?c = "norm (transfer_coin E coin (recipient t))"
  have upd: "coins_total f (view s') + f coin = f ?c + coins_total f (view s)" for f
    using full coins_total_upd by metis
  have "md_owner (metadata ?c) = Some (recipient t)"
    using full by (intro norm_owner) simp
  then have held: "held_by a ct ?c = (if a = recipient t \<and> ct = coin_type coin then moved t coin else 0)"
    "held_by a ct coin = (if a = sender tx \<and> ct = coin_type coin then moved t coin else 0)" for a ct
    using full by (auto simp: moved_def held_by_def)
  have "coins_total (held_by a ct) (view s')
        + (if a = sender tx \<and> ct = coin_type coin then moved t coin else 0)
      = coins_total (held_by a ct) (view s)
        + (if a = recipient t \<and> ct = coin_type coin then moved t coin else 0)" for a ct
    using upd [of "held_by a ct"] unfolding held by (simp only: add.commute)
  moreover have "coins_total (of_type ct) (view s') = coins_total (of_type ct) (view s)" for ct
    using upd [of "of_type ct"] by simp
  ultimately show thesis
    by (rule that [OF full(2,4,6)]) (simp add: full(7))
next
  case (partial coin out' amt)
  let ?c1 = "incr_coin E (set_balance coin \<lparr>bal_value = coin_value coin - amt\<rparr>)"
    and ?c2 = "create_coin_with_id E (next_id E ctx) (recipient t) amt (coin_type coin)
                 (ctx_timestamp ctx)"
  have sub: "unat (coin_value coin - amt) + unat amt = unat (coin_value coin)"
    using partial by (simp add: unat_sub word_less_nat_alt word_le_nat_alt)
  have own: "md_owner (metadata (norm ?c1)) = Some (sender tx)"
    "md_owner (metadata (norm ?c2)) = Some (recipient t)"
    using partial by (auto intro: norm_owner)
  have "coins_total (held_by a ct) (view s')
        + (if a = sender tx \<and> ct = coin_type coin then moved t coin else 0)
      = coins_total (held_by a ct) (view s)
        + (if a = recipient t \<and> ct = coin_type coin then moved t coin else 0)" for a ct
    unfolding partial(9)
    by (rule partial_total [OF partial(2) assms(3)])
      (use own partial sub in \<open>auto simp: held_by_def moved_def\<close>)
  moreover have "coins_total (of_type ct) (view s') + (if ct = coin_type coin then unat amt else 0)
      = coins_total (of_type ct) (view s) + (if ct = coin_type coin then unat amt else 0)" for ct
    unfolding partial(9)
    by (rule partial_total [OF partial(2) assms(3)]) (use sub in \<open>auto simp: of_type_def\<close>)
  ultimately show thesis
    by (intro that [OF partial(2,4,8)]) (simp_all add: partial(9))
qed simp

end

section \<open>Transfers\<close>

text \<open>
  C2: a successful transfer moves exactly the requested amount (the whole coin when none is given)
  of the coin's type from the sender, who owns the coin, to the recipient. What any other address
  holds, the amount of every coin type in circulation and every other coin stay the same. The new
  coin's id is assumed unused, and the output counter not exhausted.
\<close>

theorem transfer_moves_amount:
  assumes "mem_inv s" and "output_counter ctx \<noteq> - 1" and "fmlookup (objects s) (next_id E ctx) = None"
    and "tx_type tx = Transfer t"
    and "execute_transaction mem_ops E tx (s, ctx) = (Inr out, (s', ctx'))"
  shows "\<exists>coin. fmlookup (objects s) (tx_coin_id t) = Some coin
     \<and> md_owner (metadata coin) = Some (sender tx)
     \<and> mem_inv s'
     \<and> (\<forall>a ct. coins_total (held_by a ct) (objects s')
          + (if a = sender tx \<and> ct = coin_type coin then moved t coin else 0)
        = coins_total (held_by a ct) (objects s)
          + (if a = recipient t \<and> ct = coin_type coin then moved t coin else 0))
     \<and> (\<forall>ct. coins_total (of_type ct) (objects s') = coins_total (of_type ct) (objects s))
     \<and> (\<forall>i. i \<notin> {tx_coin_id t, next_id E ctx} \<longrightarrow> fmlookup (objects s') i = fmlookup (objects s) i)"
proof -
  have "execute_transfer mem_ops E tx t (s, ctx) = (Inr out, (s', ctx'))"
    using assms(4,5) by (simp add: execute_transaction_def)
  then show ?thesis
    using mem.execute_transfer_ok [OF assms(1-3)] by (metis (no_types, lifting) insertCI)
qed

text \<open>A small store: two coins of the address 7.\<close>

definition sample_store :: mem_store where
  "sample_store = store_run mem_ops mem_new
     [SetObj 100 (sample_coin 100 7 10), SetObj 101 (sample_coin 101 7 6)]"

definition sample_ctx :: execution_context where
  "sample_ctx = context_new ''solver'' 5 False 3"

lemma sample_store_inv [simp]: "mem_inv sample_store"
  by (simp add: sample_store_def mem.run_inv)

lemma sample_store_objects [simp]:
  "objects sample_store
     = fmupd 101 (sample_coin 101 7 6) (fmupd 100 (sample_coin 100 7 10) fmempty)"
  by (simp add: sample_store_def store_run_def mem_ops_def mem_set_object_simps mem_new_def)

lemma sample_ctx_simps [simp]:
  "output_counter sample_ctx = 0" "in_tee sample_ctx = False" "next_id sample_ext sample_ctx = 0"
  by (simp_all add: sample_ctx_def context_new_def next_id_def sample_coin_id)

lemma coins_total_empty [simp]: "coins_total f fmempty = 0"
  by (simp add: coins_total_def)

theorem transfer_moves_amount_witness:
  "\<exists>out s' ctx'. execute_transaction mem_ops sample_ext (new_transfer 7 100 8 (Some 4) 0)
       (sample_store, sample_ctx) = (Inr out, (s', ctx'))
     \<and> coins_total (held_by 8 ''ROOT'') (objects s') = 4
     \<and> coins_total (of_type ''ROOT'') (objects s') = 16"
proof -
  let ?tx = "new_transfer 7 100 8 (Some 4) 0"
  define t where "t = \<lparr>tx_coin_id = 100, recipient = 8 :: address, amount = Some 4\<rparr>"
  then have t: "tx_type ?tx = Transfer t" "tx_coin_id t = 100" "recipient t = 8"
    "amount t = Some 4" and snd: "sender ?tx = 7"
    by (simp_all add: new_transfer_def transfer_transaction_def)
  let ?coin = "sample_coin 100 7 10"
  have "execute_transfer mem_ops sample_ext ?tx t (sample_store, sample_ctx)
      = transfer_partial mem_ops sample_ext ?tx t ?coin 4 (sample_store, sample_ctx)"
    by (simp add: execute_transfer_def mem.rd_apply t snd)
  then obtain out s' ctx' where run: "execute_transaction mem_ops sample_ext ?tx
      (sample_store, sample_ctx) = (Inr out, (s', ctx'))"
    using mem.transfer_partial_apply [of sample_store ?coin 7 4 sample_ctx, where t = t and tx = ?tx and E = sample_ext]
    by (auto simp: execute_transaction_def t)
  have free: "fmlookup (objects sample_store) (next_id sample_ext sample_ctx) = None"
    and counter: "output_counter sample_ctx \<noteq> - 1"
    by simp_all
  obtain coin where "fmlookup (objects sample_store) (tx_coin_id t) = Some coin"
    and held: "\<And>a ct. coins_total (held_by a ct) (objects s')
          + (if a = sender ?tx \<and> ct = coin_type coin then moved t coin else 0)
        = coins_total (held_by a ct) (objects sample_store)
          + (if a = recipient t \<and> ct = coin_type coin then moved t coin else 0)"
    and circ: "\<And>ct. coins_total (of_type ct) (objects s')
        = coins_total (of_type ct) (objects sample_store)"
    using transfer_moves_amount [OF sample_store_inv counter free t(1) run] by metis
  then have "coin_type coin = ''ROOT''"
    by (auto simp: t)
  then have "coins_total (held_by 8 ''ROOT'') (objects s') = 4
     \<and> coins_total (of_type ''ROOT'') (objects s') = 16"
    using held [of 8 "''ROOT''"] circ [of "''ROOT''"]
    by (simp add: t snd moved_def coins_total_new held_by_def of_type_def)
  with run show ?thesis
    by blast
qed

text \<open>
  C28: a transaction that fails changes nothing: store and context are what they were. (The one
  exception, excluded here, is the panic of an output counter at its maximum.)
\<close>

theorem failed_transaction_changes_nothing:
  assumes "mem_inv s" and "output_counter ctx \<noteq> - 1"
    and "tx_type tx = Transfer t"
    and "execute_transaction mem_ops E tx (s, ctx) = (Inl e, (s', ctx'))"
  shows "s' = s \<and> ctx' = ctx"
proof -
  have "execute_transfer mem_ops E tx t (s, ctx) = (Inl e, (s', ctx'))"
    using assms(3,4) by (simp add: execute_transaction_def)
  then show ?thesis
    using assms(1,2) by (cases rule: mem.execute_transfer_cases [rotated]) auto
qed

theorem failed_transaction_changes_nothing_witness:
  "\<exists>e. execute_transaction mem_ops sample_ext (new_transfer 8 100 8 (Some 4) 0)
     (sample_store, sample_ctx) = (Inl e, (sample_store, sample_ctx))"
proof -
  let ?tx = "new_transfer 8 100 8 (Some 4) 0"
  define t where "t = \<lparr>tx_coin_id = 100, recipient = 8 :: address, amount = Some 4\<rparr>"
  then have t: "tx_type ?tx = Transfer t" "tx_coin_id t = 100" and snd: "sender ?tx = 8"
    by (simp_all add: new_transfer_def transfer_transaction_def)
  obtain e s' ctx' where run:
    "execute_transaction mem_ops sample_ext ?tx (sample_store, sample_ctx) = (Inl e, (s', ctx'))"
    by (simp add: execute_transaction_def execute_transfer_def mem.rd_apply t snd)
  then show ?thesis
    using failed_transaction_changes_nothing [OF sample_store_inv _ t(1) run] by simp
qed

section \<open>Merging\<close>

lemma first_duplicate_None:
  "first_duplicate seen ids = None \<longleftrightarrow> distinct ids \<and> set seen \<inter> set ids = {}"
  by (induction seen ids rule: first_duplicate.induct) auto

text \<open>The weight of the listed coins.\<close>

definition listed_total :: "(coin \<Rightarrow> nat) \<Rightarrow> (object_id, coin) fmap \<Rightarrow> object_id list \<Rightarrow> nat" where
  "listed_total f m ids = (\<Sum>i\<leftarrow>ids. f (the (fmlookup m i)))"

lemma listed_total_simps [simp]:
  "listed_total f m [] = 0"
  "listed_total f m (i # ids) = f (the (fmlookup m i)) + listed_total f m ids"
  by (simp_all add: listed_total_def)

lemma listed_total_drop [simp]: "i \<notin> set ids \<Longrightarrow> listed_total f (fmdrop i m) ids = listed_total f m ids"
  by (induction ids) auto

lemma listed_total_cong:
  "(\<And>i. i \<in> set ids \<Longrightarrow> f (the (fmlookup m i)) = g (the (fmlookup m i)))
   \<Longrightarrow> listed_total f m ids = listed_total g m ids"
  by (induction ids) auto

lemma listed_total_zero:
  "(\<And>i. i \<in> set ids \<Longrightarrow> f (the (fmlookup m i)) = 0) \<Longrightarrow> listed_total f m ids = 0"
  by (induction ids) auto

context coin_store
begin

lemma merge_sources_Cons:
  assumes "inv s" and "merge_sources ops E owner ct (i # is) target ch del (s, ctx) = (Inr r, c')"
  obtains source b where "fmlookup (view s) i = Some source" "md_owner (metadata source) = Some owner"
    "coin_type source = ct"
    "deposit (cd_balance (data target)) (cd_balance (data source)) = (b, Inr ())"
    "merge_sources ops E owner ct is (set_balance target b)
       (ch @ [delete_change i (to_coin_state_bytes E source)]) (del @ [i])
       (snd (delete_object ops s i), ctx) = (Inr r, c')"
proof (cases "fmlookup (view s) i")
  case None
  then show thesis
    using assms by (simp add: rd_apply)
next
  case (Some source)
  obtain b u where dep: "deposit (cd_balance (data target)) (cd_balance (data source)) = (b, u)"
    by (meson surj_pair)
  show thesis
  proof (cases "md_owner (metadata source) = Some owner \<and> coin_type source = ct \<and> u = Inr ()")
    case True
    then show thesis
      using that [of source b] Some assms dep by (simp add: rd_apply rm_apply)
  next
    case False
    then have False
      using Some assms dep
      by (cases "md_owner (metadata source)"; cases u) (auto simp: rd_apply split: if_splits)
    then show thesis ..
  qed
qed

lemma merge_sources_ok:
  assumes "inv s" "distinct ids"
    and "merge_sources ops E owner ct ids target ch del (s, ctx) = (Inr (target', ch', del'), (s', ctx'))"
  shows "inv s' \<and> ctx' = ctx \<and> metadata target' = metadata target
    \<and> coin_type target' = coin_type target \<and> del' = del @ ids
    \<and> unat (coin_value target')
        = unat (coin_value target) + listed_total (\<lambda>c. unat (coin_value c)) (view s) ids
    \<and> (\<forall>i\<in>set ids. \<exists>c. fmlookup (view s) i = Some c \<and> md_owner (metadata c) = Some owner
         \<and> coin_type c = ct)
    \<and> (\<forall>i. fmlookup (view s') i = (if i \<in> set ids then None else fmlookup (view s) i))
    \<and> (\<forall>f. coins_total f (view s) = coins_total f (view s') + listed_total f (view s) ids)"
  using assms
proof (induction ids arbitrary: s target ch del)
  case Nil
  then show ?case
    by simp
next
  case (Cons i ids)
  obtain source b where src: "fmlookup (view s) i = Some source"
      "md_owner (metadata source) = Some owner" "coin_type source = ct"
      "deposit (cd_balance (data target)) (cd_balance (data source)) = (b, Inr ())"
    and run: "merge_sources ops E owner ct ids (set_balance target b)
       (ch @ [delete_change i (to_coin_state_bytes E source)]) (del @ [i])
       (snd (delete_object ops s i), ctx) = (Inr (target', ch', del'), (s', ctx'))"
    using merge_sources_Cons [OF Cons.prems(1,3)] by metis
  have v: "view (snd (delete_object ops s i)) = fmdrop i (view s)"
    and "inv (snd (delete_object ops s i))" "distinct ids" "i \<notin> set ids"
    using Cons.prems by (simp_all add: delete_view delete_inv)
  note IH = Cons.IH [OF this(2,3) run, unfolded v]
  have "unat (bal_value b) = unat (coin_value target) + unat (coin_value source)"
    using deposit_ok [OF src(4)] by (simp add: coin_value_def)
  moreover have "coins_total f (view s) = f source + coins_total f (fmdrop i (view s))" for f
    by (rule coins_total_drop [OF src(1)])
  moreover have "\<forall>j. fmlookup (view s') j = (if j \<in> set (i # ids) then None else fmlookup (view s) j)"
    using IH by auto
  moreover have "\<forall>j\<in>set (i # ids). \<exists>c. fmlookup (view s) j = Some c
      \<and> md_owner (metadata c) = Some owner \<and> coin_type c = ct"
    using IH src \<open>i \<notin> set ids\<close> by (auto split: if_splits)
  ultimately show ?case
    using IH src(1) \<open>i \<notin> set ids\<close> by simp
qed

lemma execute_merge_coins_unfold:
  assumes "inv s" and "execute_merge_coins ops E owner tid ids (s, ctx) = (Inr out, (s', ctx'))"
  obtains target target' ch del s1 where "ids \<noteq> []" "length ids \<le> MAX_MERGE_SOURCES" "tid \<notin> set ids"
    "distinct ids" "fmlookup (view s) tid = Some target" "md_owner (metadata target) = Some owner"
    "merge_sources ops E owner (coin_type target) ids target [] [] (s, ctx)
       = (Inr (target', ch, del), (s1, ctx))"
    "inv s1" "inv s'" "ctx' = ctx" "view s' = fmupd tid (norm (incr_coin E target')) (view s1)"
    "deleted_objects out = ids" "metadata target' = metadata target"
proof -
  have guards: "ids \<noteq> []" "length ids \<le> MAX_MERGE_SOURCES" "tid \<notin> set ids" "distinct ids"
    using assms(2) first_duplicate_None [of "[]" ids]
    by (auto simp: execute_merge_coins_def not_less split: if_splits option.splits)
  then have fd: "first_duplicate [] ids = None"
    by (simp add: first_duplicate_None)
  obtain target where target: "fmlookup (view s) tid = Some target"
    using assms guards fd by (cases "fmlookup (view s) tid") (auto simp: execute_merge_coins_def rd_apply)
  have owner: "md_owner (metadata target) = Some owner"
    using assms guards fd target
    by (cases "md_owner (metadata target)")
      (auto simp: execute_merge_coins_def rd_apply split: if_splits)
  let ?m = "merge_sources ops E owner (coin_type target) ids target [] [] (s, ctx)"
  obtain r s1 ctx1 where m: "?m = (r, (s1, ctx1))"
    by (metis surj_pair)
  show thesis
  proof (cases r)
    case (Inl e)
    then show thesis
      using assms guards fd target owner m by (simp add: execute_merge_coins_def rd_apply)
  next
    case (Inr x)
    obtain target' ch del where x: "x = (target', ch, del)"
      by (metis surj_pair)
    from merge_sources_ok [OF assms(1) guards(4) m [unfolded Inr x]]
    have ok: "inv s1" "ctx1 = ctx" "metadata target' = metadata target" "del = ids"
      by simp_all
    then have "md_owner (metadata (incr_coin E target')) = Some owner"
      using owner by simp
    with ok have "inv s'" "ctx' = ctx" "view s' = fmupd tid (norm (incr_coin E target')) (view s1)"
      "deleted_objects out = ids"
      using assms guards fd target owner m Inr x
      by (auto simp: execute_merge_coins_def rd_apply wr_apply set_inv set_view ok_output_def Let_def)
    then show thesis
      using that [OF guards target owner] m Inr x ok by simp
  qed
qed

lemma execute_merge_coins_ok:
  assumes "inv s" and "execute_merge_coins ops E owner tid ids (s, ctx) = (Inr out, (s', ctx'))"
  obtains target target' where "fmlookup (view s) tid = Some target"
    "md_owner (metadata target) = Some owner" "inv s'" "ctx' = ctx"
    "fmlookup (view s') tid = Some target'" "md_owner (metadata target') = Some owner"
    "coin_type target' = coin_type target"
    "is_owned target \<Longrightarrow> is_owned target'"
    "unat (coin_value target')
        = unat (coin_value target) + listed_total (\<lambda>c. unat (coin_value c)) (view s) ids"
    "\<And>i. i \<in> set ids \<Longrightarrow> fmlookup (view s') i = None"
    "\<And>i. i \<in> set ids \<Longrightarrow> \<exists>c. fmlookup (view s) i = Some c \<and> md_owner (metadata c) = Some owner
         \<and> coin_type c = coin_type target"
    "\<And>i. i \<notin> set (tid # ids) \<Longrightarrow> fmlookup (view s') i = fmlookup (view s) i"
    "\<And>a ct. coins_total (held_by a ct) (view s') = coins_total (held_by a ct) (view s)"
    "\<And>ct. coins_total (of_type ct) (view s') = coins_total (of_type ct) (view s)"
proof -
  obtain target target1 ch del s1 where u: "tid \<notin> set ids" "distinct ids"
    "fmlookup (view s) tid = Some target" "md_owner (metadata target) = Some owner"
    "merge_sources ops E owner (coin_type target) ids target [] [] (s, ctx)
       = (Inr (target1, ch, del), (s1, ctx))"
    and v: "inv s'" "ctx' = ctx" "view s' = fmupd tid (norm (incr_coin E target1)) (view s1)"
    by (rule execute_merge_coins_unfold [OF assms])
  note m = merge_sources_ok [OF assms(1) u(2,5)]
  let ?new = "norm (incr_coin E target1)"
  have own: "md_owner (metadata ?new) = Some owner"
    using m u(4) by (intro norm_owner) simp
  have sources: "\<exists>c. fmlookup (view s) i = Some c \<and> md_owner (metadata c) = Some owner
      \<and> coin_type c = coin_type target" if "i \<in> set ids" for i
    using m that by blast
  have tot: "coins_total f (view s') + f target + listed_total f (view s) ids
      = f ?new + coins_total f (view s)" for f
  proof -
    have "fmlookup (view s1) tid = Some target"
      using m u(1,3) by simp
    then have "coins_total f (view s') + f target = f ?new + coins_total f (view s1)"
      unfolding v(3) by (rule coins_total_upd)
    then show ?thesis
      using m by simp
  qed
  have weight: "listed_total (\<lambda>c. if P then unat (coin_value c) else 0) (view s) ids
      = (if P then listed_total (\<lambda>c. unat (coin_value c)) (view s) ids else 0)" for P
    by (simp add: listed_total_zero)
  have held: "listed_total (held_by a ct) (view s) ids
      = listed_total (\<lambda>c. if a = owner \<and> ct = coin_type target then unat (coin_value c) else 0) (view s) ids"
    for a ct
    by (rule listed_total_cong) (use sources in \<open>fastforce simp: held_by_def\<close>)
  have typed: "listed_total (of_type ct) (view s) ids
      = listed_total (\<lambda>c. if ct = coin_type target then unat (coin_value c) else 0) (view s) ids"
    for ct
    by (rule listed_total_cong) (use sources in \<open>fastforce simp: of_type_def\<close>)
  have "coins_total (held_by a ct) (view s') = coins_total (held_by a ct) (view s)" for a ct
    using tot [of "held_by a ct"] own u(4) m unfolding held weight
    by (auto simp: held_by_def split: if_splits)
  moreover have "coins_total (of_type ct) (view s') = coins_total (of_type ct) (view s)" for ct
    using tot [of "of_type ct"] m unfolding typed weight
    by (auto simp: of_type_def split: if_splits)
  moreover have "is_owned target \<Longrightarrow> is_owned ?new"
    using m by (intro norm_owned) (simp add: is_owned_def)
  ultimately show thesis
    using own u m v sources by (intro that [of target ?new]) auto
qed

end

text \<open>
  C9: a successful merge is sound: the target, owned by the caller, ends with its balance plus the
  balances of all sources, each of which was the caller's and of the same type and is now deleted.
  What every address holds, the amount of every coin type in circulation and every other coin stay
  the same.
\<close>

theorem merge_conserves:
  assumes "mem_inv s"
    and "execute_merge_coins mem_ops E owner tid ids (s, ctx) = (Inr out, (s', ctx'))"
  shows "\<exists>target target'. fmlookup (objects s) tid = Some target
     \<and> md_owner (metadata target) = Some owner
     \<and> fmlookup (objects s') tid = Some target'
     \<and> unat (coin_value target') = unat (coin_value target)
         + (\<Sum>i\<leftarrow>ids. unat (coin_value (the (fmlookup (objects s) i))))
     \<and> (\<forall>i\<in>set ids. fmlookup (objects s') i = None \<and> (\<exists>c. fmlookup (objects s) i = Some c
          \<and> md_owner (metadata c) = Some owner \<and> coin_type c = coin_type target))
     \<and> (\<forall>i. i \<notin> set (tid # ids) \<longrightarrow> fmlookup (objects s') i = fmlookup (objects s) i)
     \<and> (\<forall>a ct. coins_total (held_by a ct) (objects s') = coins_total (held_by a ct) (objects s))
     \<and> (\<forall>ct. coins_total (of_type ct) (objects s') = coins_total (of_type ct) (objects s))
     \<and> mem_inv s'"
  using assms
proof (rule mem.execute_merge_coins_ok)
  fix target target'
  assume "fmlookup (objects s) tid = Some target" "md_owner (metadata target) = Some owner"
    "fmlookup (objects s') tid = Some target'" "mem_inv s'"
    "unat (coin_value target')
       = unat (coin_value target) + listed_total (\<lambda>c. unat (coin_value c)) (objects s) ids"
    "\<And>i. i \<in> set ids \<Longrightarrow> fmlookup (objects s') i = None"
    "\<And>i. i \<in> set ids \<Longrightarrow> \<exists>c. fmlookup (objects s) i = Some c \<and> md_owner (metadata c) = Some owner
         \<and> coin_type c = coin_type target"
    "\<And>i. i \<notin> set (tid # ids) \<Longrightarrow> fmlookup (objects s') i = fmlookup (objects s) i"
    "\<And>a ct. coins_total (held_by a ct) (objects s') = coins_total (held_by a ct) (objects s)"
    "\<And>ct. coins_total (of_type ct) (objects s') = coins_total (of_type ct) (objects s)"
  then show ?thesis
    by (intro exI [of _ target] exI [of _ target']) (simp add: listed_total_def)
qed

lemma sample_merge:
  "\<exists>out s'. execute_merge_coins mem_ops sample_ext 7 100 [101] (sample_store, sample_ctx)
     = (Inr out, (s', sample_ctx))"
proof -
  have "deposit \<lparr>bal_value = 10\<rparr> \<lparr>bal_value = 6\<rparr> = (\<lparr>bal_value = 16\<rparr>, Inr ())"
    by (simp add: deposit_def checked_add_def)
  moreover have "mem_inv (snd (delete_object mem_ops sample_store 101))"
    by (simp add: mem.delete_inv)
  ultimately show ?thesis
    by (simp add: execute_merge_coins_def mem.rd_apply mem.rm_apply mem.wr_apply MAX_MERGE_SOURCES_def
        Let_def)
qed

theorem merge_conserves_witness:
  "\<exists>out s'. execute_merge_coins mem_ops sample_ext 7 100 [101] (sample_store, sample_ctx)
       = (Inr out, (s', sample_ctx))
     \<and> (\<exists>c. fmlookup (objects s') 100 = Some c \<and> unat (coin_value c) = 16)
     \<and> fmlookup (objects s') 101 = None"
proof -
  obtain out s' where run: "execute_merge_coins mem_ops sample_ext 7 100 [101]
      (sample_store, sample_ctx) = (Inr out, (s', sample_ctx))"
    using sample_merge by blast
  from merge_conserves [OF sample_store_inv run] obtain target target' where
    "fmlookup (objects sample_store) 100 = Some target" "fmlookup (objects s') 100 = Some target'"
    "unat (coin_value target') = unat (coin_value target)
         + (\<Sum>i\<leftarrow>[101]. unat (coin_value (the (fmlookup (objects sample_store) i))))"
    "\<forall>i\<in>set [101]. fmlookup (objects s') i = None"
    by meson
  then show ?thesis
    using run by auto
qed

text \<open>
  C36: a failed merge is not atomic. The sources are deleted one by one while they are checked, and
  the target is written only at the end: if the first source is fine and the second does not
  exist, the handler returns the error with the first source already deleted from the store and
  its balance in no coin.
\<close>

theorem failed_merge_loses_coins:
  assumes "mem_inv s"
    and "fmlookup (objects s) tid = Some target" and "md_owner (metadata target) = Some owner"
    and "fmlookup (objects s) i = Some source" and "md_owner (metadata source) = Some owner"
    and "coin_type source = coin_type target"
    and "unat (coin_value target) + unat (coin_value source) < 2 ^ 64"
    and "tid \<noteq> i" and "fmlookup (objects s) j = None"
  shows "\<exists>s'. execute_merge_coins mem_ops E owner tid [i, j] (s, ctx)
        = (Inl (ObjectNotFound j), (s', ctx))
      \<and> fmlookup (objects s') i = None \<and> fmlookup (objects s') tid = Some target
      \<and> coins_total (of_type (coin_type target)) (objects s') + unat (coin_value source)
          = coins_total (of_type (coin_type target)) (objects s)"
proof -
  let ?s = "snd (delete_object mem_ops s i)"
  have v: "objects ?s = fmdrop i (objects s)" and inv: "mem_inv ?s"
    using assms(1) by (simp_all add: mem.delete_view mem.delete_inv)
  obtain b where "deposit (cd_balance (data target)) (cd_balance (data source)) = (b, Inr ())"
    using assms(7) by (simp add: deposit_def checked_add_def coin_value_def)
  then have "execute_merge_coins mem_ops E owner tid [i, j] (s, ctx)
      = (Inl (ObjectNotFound j), (?s, ctx))"
    using assms v inv
    by (auto simp: execute_merge_coins_def MAX_MERGE_SOURCES_def mem.rd_apply mem.rm_apply)
  moreover have "coins_total (of_type (coin_type target)) (objects ?s) + unat (coin_value source)
      = coins_total (of_type (coin_type target)) (objects s)"
    using coins_total_drop [OF assms(4), of "of_type (coin_type target)"] assms(6)
    by (simp add: v of_type_def)
  ultimately show ?thesis
    using assms(2,8) v by auto
qed

theorem failed_merge_loses_coins_witness:
  "\<exists>s'. execute_merge_coins mem_ops sample_ext 7 100 [101, 102] (sample_store, sample_ctx)
        = (Inl (ObjectNotFound 102), (s', sample_ctx))
      \<and> coins_total (of_type ''ROOT'') (objects s') + 6
          = coins_total (of_type ''ROOT'') (objects sample_store)"
  using failed_merge_loses_coins [of sample_store 100 "sample_coin 100 7 10" 7 101
      "sample_coin 101 7 6" 102 sample_ext sample_ctx]
  by auto

section \<open>Splitting and minting\<close>

text \<open>The ids the next \<open>n\<close> created coins get.\<close>

fun out_ids :: "ext \<Rightarrow> execution_context \<Rightarrow> nat \<Rightarrow> object_id list" where
  "out_ids E ctx 0 = []"
| "out_ids E ctx (Suc n) = next_id E ctx # out_ids E (step_ctx ctx) n"

definition fresh_outputs ::
  "ext \<Rightarrow> execution_context \<Rightarrow> nat \<Rightarrow> (object_id, coin) fmap \<Rightarrow> bool" where
  "fresh_outputs E ctx n m \<longleftrightarrow> unat (output_counter ctx) + n < 2 ^ 32
     \<and> distinct (out_ids E ctx n) \<and> (\<forall>i\<in>set (out_ids E ctx n). fmlookup m i = None)"

lemma fresh_outputs_Suc:
  assumes "fresh_outputs E ctx (Suc n) m"
  shows "output_counter ctx \<noteq> - 1" "fmlookup m (next_id E ctx) = None"
    "fresh_outputs E (step_ctx ctx) n (fmupd (next_id E ctx) c m)"
proof -
  show counter: "output_counter ctx \<noteq> - 1"
    using assms by (auto simp: fresh_outputs_def unsigned_minus_1_eq_mask mask_eq_exp_minus_1)
  show "fmlookup m (next_id E ctx) = None"
    using assms by (simp add: fresh_outputs_def)
  show "fresh_outputs E (step_ctx ctx) n (fmupd (next_id E ctx) c m)"
    using assms counter by (auto simp: fresh_outputs_def unat_inc)
qed

lemma checked_sum_Some:
  "checked_sum acc as = Some r \<longleftrightarrow>
     unat acc + sum_list (map unat as) < 2 ^ 64 \<and> unat r = unat acc + sum_list (map unat as)"
proof (induction as arbitrary: acc)
  case Nil
  then show ?case
    using unsigned_less [of acc, where 'a = nat] by (auto simp: word_unat_eq_iff)
next
  case (Cons a as)
  show ?case
  proof (cases "checked_add acc a")
    case None
    then have "2 ^ 64 \<le> unat acc + unat a"
      using checked_add_None [of acc a] by simp
    then show ?thesis
      using None by simp
  next
    case (Some acc')
    then show ?thesis
      using Cons.IH [of acc'] checked_add_SomeD [OF Some] by (simp add: add.assoc)
  qed
qed

context coin_store
begin

lemma split_outputs_run:
  assumes "inv s" "sum_list (map unat amts) \<le> unat (coin_value source)"
    and "fresh_outputs E ctx (length amts) (view s)"
  shows "\<exists>source' ch' s' ctx'. split_outputs ops E owner amts source ch cr (s, ctx)
      = (Inr (source', ch', cr @ out_ids E ctx (length amts)), (s', ctx')) \<and> inv s'
    \<and> metadata source' = metadata source \<and> coin_type source' = coin_type source
    \<and> unat (coin_value source') + sum_list (map unat amts) = unat (coin_value source)
    \<and> (\<forall>a ct. coins_total (held_by a ct) (view s') = coins_total (held_by a ct) (view s)
         + (if a = owner \<and> ct = coin_type source then sum_list (map unat amts) else 0))
    \<and> (\<forall>ct. coins_total (of_type ct) (view s') = coins_total (of_type ct) (view s)
         + (if ct = coin_type source then sum_list (map unat amts) else 0))
    \<and> (\<forall>i. i \<notin> set (out_ids E ctx (length amts)) \<longrightarrow> fmlookup (view s') i = fmlookup (view s) i)
    \<and> (\<forall>i\<in>set (out_ids E ctx (length amts)). \<exists>c. fmlookup (view s') i = Some c
         \<and> md_owner (metadata c) = Some owner \<and> coin_type c = coin_type source)
    \<and> map (\<lambda>i. map_option coin_value (fmlookup (view s') i)) (out_ids E ctx (length amts)) = map Some amts"
  using assms
proof (induction amts arbitrary: s ctx source ch cr)
  case Nil
  then show ?case
    by simp
next
  case (Cons amt amts)
  let ?i = "next_id E ctx"
  let ?c = "create_coin_with_id E ?i owner amt (coin_type source) (ctx_timestamp ctx)"
  let ?s = "snd (set_object ops s ?i ?c)"
  have fresh: "output_counter ctx \<noteq> - 1" "fmlookup (view s) ?i = None"
    "fresh_outputs E (step_ctx ctx) (length amts) (fmupd ?i (norm ?c) (view s))"
    using fresh_outputs_Suc [of E ctx "length amts" "view s"] Cons.prems(3) by simp_all
  have own: "md_owner (metadata ?c) = Some owner"
    by simp
  have s: "inv ?s" "view ?s = fmupd ?i (norm ?c) (view s)"
    using Cons.prems(1) by (simp_all add: set_inv [OF _ own] set_view [OF _ own])
  have "amt \<le> coin_value source"
    using Cons.prems(2) by (simp add: word_le_nat_alt)
  then have w: "withdraw (cd_balance (data source)) amt
      = (\<lparr>bal_value = coin_value source - amt\<rparr>, Inr (balance_new amt))"
    and val: "unat (coin_value source - amt) = unat (coin_value source) - unat amt"
    by (simp_all add: withdraw_def coin_value_def not_less unat_sub)
  let ?source = "set_balance source \<lparr>bal_value = coin_value source - amt\<rparr>"
  have sum: "sum_list (map unat amts) \<le> unat (coin_value ?source)"
    using Cons.prems(2) by (simp add: val)
  have run: "split_outputs ops E owner (amt # amts) source ch cr (s, ctx)
      = split_outputs ops E owner amts ?source
          (ch @ [create_change ?i (to_coin_state_bytes E ?c)]) (cr @ [?i]) (?s, step_ctx ctx)"
    using Cons.prems(1) fresh(1) by (simp add: new_coin_id_apply wr_apply [OF _ own] w Let_def)
  from Cons.IH [OF s(1) sum, of "step_ctx ctx" "ch @ [create_change ?i (to_coin_state_bytes E ?c)]" "cr @ [?i]",
      unfolded s(2), OF fresh(3)]
  obtain source' ch' s' ctx' where IH: "split_outputs ops E owner amts ?source
          (ch @ [create_change ?i (to_coin_state_bytes E ?c)]) (cr @ [?i]) (?s, step_ctx ctx)
      = (Inr (source', ch', (cr @ [?i]) @ out_ids E (step_ctx ctx) (length amts)), (s', ctx'))"
    "inv s'" "metadata source' = metadata ?source" "coin_type source' = coin_type ?source"
    "unat (coin_value source') + sum_list (map unat amts) = unat (coin_value ?source)"
    "\<forall>a ct. coins_total (held_by a ct) (view s') = coins_total (held_by a ct) (fmupd ?i (norm ?c) (view s))
         + (if a = owner \<and> ct = coin_type ?source then sum_list (map unat amts) else 0)"
    "\<forall>ct. coins_total (of_type ct) (view s') = coins_total (of_type ct) (fmupd ?i (norm ?c) (view s))
         + (if ct = coin_type ?source then sum_list (map unat amts) else 0)"
    "\<forall>i. i \<notin> set (out_ids E (step_ctx ctx) (length amts))
       \<longrightarrow> fmlookup (view s') i = fmlookup (fmupd ?i (norm ?c) (view s)) i"
    "\<forall>i\<in>set (out_ids E (step_ctx ctx) (length amts)). \<exists>c. fmlookup (view s') i = Some c
         \<and> md_owner (metadata c) = Some owner \<and> coin_type c = coin_type ?source"
    "map (\<lambda>i. map_option coin_value (fmlookup (view s') i)) (out_ids E (step_ctx ctx) (length amts)) = map Some amts"
    by (elim exE conjE) (rule that)
  have "held_by a ct (norm ?c) = (if a = owner \<and> ct = coin_type source then unat amt else 0)" for a ct
    using norm_held_by [OF own, of a ct] by auto
  then have "coins_total (held_by a ct) (view s') = coins_total (held_by a ct) (view s)
         + (if a = owner \<and> ct = coin_type source then sum_list (map unat (amt # amts)) else 0)" for a ct
    using IH(6) fresh(2) by (simp add: coins_total_new)
  moreover have "coins_total (of_type ct) (view s') = coins_total (of_type ct) (view s)
         + (if ct = coin_type source then sum_list (map unat (amt # amts)) else 0)" for ct
    using IH(7) fresh(2) by (auto simp: coins_total_new)
  moreover have "?i \<notin> set (out_ids E (step_ctx ctx) (length amts))"
    using Cons.prems(3) by (simp add: fresh_outputs_def)
  then have "\<exists>c. fmlookup (view s') ?i = Some c \<and> md_owner (metadata c) = Some owner
      \<and> coin_type c = coin_type source" "map_option coin_value (fmlookup (view s') ?i) = Some amt"
    using IH(8) norm_owner [OF own] by simp_all
  moreover have "unat (coin_value source') + sum_list (map unat (amt # amts)) = unat (coin_value source)"
    using IH(5) Cons.prems(2) by (simp add: val)
  ultimately show ?case
    unfolding run IH(1) using IH(2-4,8-10) by simp
qed

end

lemma others_unchanged:
  assumes "\<And>i. i \<notin> set ids \<Longrightarrow> fmlookup m1 i = fmlookup m i"
    and "\<forall>i\<in>set ids. \<exists>c. fmlookup m1 i = Some c \<and> P c"
    and "sid \<notin> set ids" and "\<And>i. i \<noteq> sid \<Longrightarrow> fmlookup m2 i = fmlookup m1 i"
  shows "\<forall>i. i \<notin> set (sid # ids) \<longrightarrow> fmlookup m2 i = fmlookup m i"
    and "\<forall>i\<in>set ids. \<exists>c. fmlookup m2 i = Some c \<and> P c"
  using assms by auto metis

context coin_store
begin

lemma execute_split_coin_sound:
  assumes "inv s" and "fresh_outputs E ctx (length amts) (view s)"
    and "execute_split_coin ops E owner sid amts (s, ctx) = (r, (s', ctx'))"
  shows "(\<exists>e. r = Inl e \<and> s' = s \<and> ctx' = ctx) \<or>
    (\<exists>out source. r = Inr out \<and> fmlookup (view s) sid = Some source
      \<and> md_owner (metadata source) = Some owner \<and> inv s'
      \<and> created_objects out = out_ids E ctx (length amts) \<and> 0 \<notin> set amts
      \<and> (\<forall>a ct. coins_total (held_by a ct) (view s') = coins_total (held_by a ct) (view s))
      \<and> (\<forall>ct. coins_total (of_type ct) (view s') = coins_total (of_type ct) (view s))
      \<and> (\<forall>i. i \<notin> set (sid # out_ids E ctx (length amts))
           \<longrightarrow> fmlookup (view s') i = fmlookup (view s) i)
      \<and> (\<forall>i\<in>set (out_ids E ctx (length amts)). \<exists>c. fmlookup (view s') i = Some c
           \<and> md_owner (metadata c) = Some owner \<and> coin_type c = coin_type source)
      \<and> map (\<lambda>i. map_option coin_value (fmlookup (view s') i)) (out_ids E ctx (length amts)) = map Some amts
      \<and> (if sum_list (map unat amts) = unat (coin_value source) then fmlookup (view s') sid = None
         else \<exists>c. fmlookup (view s') sid = Some c \<and> md_owner (metadata c) = Some owner
           \<and> coin_type c = coin_type source
           \<and> unat (coin_value c) + sum_list (map unat amts) = unat (coin_value source)))"
proof -
  let ?go = "amts \<noteq> [] \<and> 0 \<notin> set amts \<and> length amts \<le> MAX_SPLIT_OUTPUTS"
  consider (bad) "\<not> ?go \<or> fmlookup (view s) sid = None"
    | (owner) source where ?go "fmlookup (view s) sid = Some source"
        "md_owner (metadata source) \<noteq> Some owner"
    | (sum) source where ?go "fmlookup (view s) sid = Some source"
        "md_owner (metadata source) = Some owner" "checked_sum 0 amts = None"
    | (ok) source t where ?go "fmlookup (view s) sid = Some source"
        "md_owner (metadata source) = Some owner" "checked_sum 0 amts = Some t"
    by (metis not_Some_eq)
  then show ?thesis
  proof cases
    case bad
    then show ?thesis
      using assms(1,3) by (auto simp: execute_split_coin_def rd_apply split: if_splits)
  next
    case owner
    then show ?thesis
      using assms(1,3) by (cases "md_owner (metadata source)")
        (auto simp: execute_split_coin_def rd_apply split: if_splits)
  next
    case sum
    then show ?thesis
      using assms(1,3) by (auto simp: execute_split_coin_def rd_apply split: if_splits)
  next
    case ok
    then have t: "unat t = sum_list (map unat amts)"
      by (simp add: checked_sum_Some)
    show ?thesis
    proof (cases "coin_value source < t")
      case True
      then show ?thesis
        using assms(1,3) ok by (auto simp: execute_split_coin_def rd_apply)
    next
      case False
      then have "sum_list (map unat amts) \<le> unat (coin_value source)"
        using t by (simp add: not_less word_le_nat_alt)
      from split_outputs_run [OF assms(1) this assms(2), of owner "[]" "[]"]
      obtain source1 ch s1 ctx1 where run: "split_outputs ops E owner amts source [] [] (s, ctx)
          = (Inr (source1, ch, out_ids E ctx (length amts)), (s1, ctx1))" "inv s1"
        and src1: "metadata source1 = metadata source" "coin_type source1 = coin_type source"
          "unat (coin_value source1) + sum_list (map unat amts) = unat (coin_value source)"
        and held1: "\<And>a ct. coins_total (held_by a ct) (view s1) = coins_total (held_by a ct) (view s)
             + (if a = owner \<and> ct = coin_type source then sum_list (map unat amts) else 0)"
        and type1: "\<And>ct. coins_total (of_type ct) (view s1) = coins_total (of_type ct) (view s)
             + (if ct = coin_type source then sum_list (map unat amts) else 0)"
        and rest1: "\<And>i. i \<notin> set (out_ids E ctx (length amts))
             \<Longrightarrow> fmlookup (view s1) i = fmlookup (view s) i"
        and new1: "\<forall>i\<in>set (out_ids E ctx (length amts)). \<exists>c. fmlookup (view s1) i = Some c
             \<and> md_owner (metadata c) = Some owner \<and> coin_type c = coin_type source"
        and amts1: "map (\<lambda>i. map_option coin_value (fmlookup (view s1) i)) (out_ids E ctx (length amts)) = map Some amts"
        by (auto simp del: split_outputs.simps)
      have sid: "sid \<notin> set (out_ids E ctx (length amts))"
        using assms(2) ok(2) by (auto simp: fresh_outputs_def)
      then have sid1: "fmlookup (view s1) sid = Some source"
        using rest1 ok(2) by simp
      have amts': "map (\<lambda>i. map_option coin_value (fmlookup (view s') i)) (out_ids E ctx (length amts)) = map Some amts"
        if "\<And>i. i \<noteq> sid \<Longrightarrow> fmlookup (view s') i = fmlookup (view s1) i"
        unfolding amts1 [symmetric] using sid
        by (intro map_cong refl arg_cong [where f = "map_option coin_value"] that) auto
      show ?thesis
      proof (cases "coin_value source = t")
        case True
        then have r: "\<exists>out. r = Inr out \<and> created_objects out = out_ids E ctx (length amts)"
          and s': "s' = snd (delete_object ops s1 sid)"
          using assms(1,3) ok run
          by (auto simp: execute_split_coin_def rd_apply rm_apply Let_def ok_output_def)
        have v: "inv s'" "view s' = fmdrop sid (view s1)"
          unfolding s' using run(2) by (simp_all add: delete_inv delete_view)
        have val: "unat (coin_value source) = sum_list (map unat amts)"
          using True t by simp
        have "coins_total (held_by a ct) (view s') = coins_total (held_by a ct) (view s)" for a ct
          using coins_total_drop [OF sid1, of "held_by a ct"] held1 [of a ct] ok(3)
          by (auto simp: v(2) held_by_def val split: if_splits)
        moreover have "coins_total (of_type ct) (view s') = coins_total (of_type ct) (view s)" for ct
          using coins_total_drop [OF sid1, of "of_type ct"] type1 [of ct]
          by (auto simp: v(2) of_type_def val split: if_splits)
        moreover have "\<And>i. i \<noteq> sid \<Longrightarrow> fmlookup (view s') i = fmlookup (view s1) i"
          using v(2) by simp
        note others_unchanged [OF rest1 new1 sid this] amts' [OF this]
        moreover have "sum_list (map unat amts) = unat (coin_value source)" "fmlookup (view s') sid = None"
          using val v(2) by simp_all
        ultimately show ?thesis
          using r v(1) ok(1-3) by simp
      next
        case neq: False
        let ?c = "incr_coin E source1"
        have own: "md_owner (metadata ?c) = Some owner"
          using src1 ok(3) by simp
        have r: "\<exists>out. r = Inr out \<and> created_objects out = out_ids E ctx (length amts)"
          and s': "s' = snd (set_object ops s1 sid ?c)"
          using assms(1,3) ok run neq False wr_apply [OF run(2) own, of sid ctx1]
          by (auto simp: execute_split_coin_def rd_apply Let_def ok_output_def)
        have v: "inv s'" "view s' = fmupd sid (norm ?c) (view s1)"
          unfolding s' using set_inv [OF run(2) own] set_view [OF run(2) own] by simp_all
        have "coins_total (held_by a ct) (view s') = coins_total (held_by a ct) (view s)" for a ct
          using coins_total_upd [OF sid1, of "held_by a ct" "norm ?c"] held1 [of a ct] src1
            norm_held_by [OF own, of a ct] ok(3)
          by (auto simp: v(2) held_by_def split: if_splits)
        moreover have "coins_total (of_type ct) (view s') = coins_total (of_type ct) (view s)" for ct
          using coins_total_upd [OF sid1, of "of_type ct" "norm ?c"] type1 [of ct] src1
          by (auto simp: v(2) of_type_def split: if_splits)
        moreover have "\<And>i. i \<noteq> sid \<Longrightarrow> fmlookup (view s') i = fmlookup (view s1) i"
          using v(2) by simp
        note others_unchanged [OF rest1 new1 sid this] amts' [OF this]
        moreover have "sum_list (map unat amts) \<noteq> unat (coin_value source)"
          using neq t by (metis word_unat_eq_iff)
        moreover have "\<exists>c. fmlookup (view s') sid = Some c \<and> md_owner (metadata c) = Some owner
            \<and> coin_type c = coin_type source
            \<and> unat (coin_value c) + sum_list (map unat amts) = unat (coin_value source)"
          using v(2) src1 norm_owner [OF own] by simp
        ultimately show ?thesis
          using r v(1) ok(1-3) by simp
      qed
    qed
  qed
qed

lemma mint_tokens_run:
  assumes "inv s" "fresh_outputs E ctx 1 (view s)" "amt \<noteq> 0"
  shows "\<exists>out s'. mint_tokens ops E to ct amt (s, ctx) = (Inr out, (s', step_ctx ctx))
    \<and> created_objects out = [next_id E ctx] \<and> inv s'
    \<and> view s' = fmupd (next_id E ctx)
        (norm (create_coin_with_id E (next_id E ctx) to amt ct (ctx_timestamp ctx))) (view s)"
proof -
  let ?c = "create_coin_with_id E (next_id E ctx) to amt ct (ctx_timestamp ctx)"
  have "output_counter ctx \<noteq> - 1"
    using fresh_outputs_Suc(1) [of E ctx 0] assms(2) by simp
  moreover have "md_owner (metadata ?c) = Some to"
    by simp
  ultimately show ?thesis
    using assms(1,3)
    by (simp add: mint_tokens_def new_coin_id_apply wr_apply set_inv set_view Let_def ok_output_def)
qed

end

text \<open>
  C10: a split is sound and atomic. Given unused ids for the outputs, it either fails and changes
  nothing, or the source belonged to the caller, the outputs are new coins of the caller of the
  source's type, and their balances are the requested amounts, in the requested order and none of
  them zero. The source keeps the rest, or is deleted when nothing is left. What every address holds, the
  amount of every coin type in circulation and every coin other than the source and the outputs
  stay the same.
\<close>

theorem split_conserves:
  assumes "mem_inv s" and "fresh_outputs E ctx (length amts) (objects s)"
    and "execute_split_coin mem_ops E owner sid amts (s, ctx) = (r, (s', ctx'))"
  shows "(\<exists>e. r = Inl e \<and> s' = s \<and> ctx' = ctx) \<or>
    (\<exists>out source. r = Inr out \<and> fmlookup (objects s) sid = Some source
      \<and> md_owner (metadata source) = Some owner \<and> mem_inv s'
      \<and> created_objects out = out_ids E ctx (length amts) \<and> 0 \<notin> set amts
      \<and> (\<forall>a ct. coins_total (held_by a ct) (objects s') = coins_total (held_by a ct) (objects s))
      \<and> (\<forall>ct. coins_total (of_type ct) (objects s') = coins_total (of_type ct) (objects s))
      \<and> (\<forall>i. i \<notin> set (sid # out_ids E ctx (length amts))
           \<longrightarrow> fmlookup (objects s') i = fmlookup (objects s) i)
      \<and> (\<forall>i\<in>set (out_ids E ctx (length amts)). \<exists>c. fmlookup (objects s') i = Some c
           \<and> md_owner (metadata c) = Some owner \<and> coin_type c = coin_type source)
      \<and> map (\<lambda>i. map_option coin_value (fmlookup (objects s') i)) (out_ids E ctx (length amts)) = map Some amts
      \<and> (if sum_list (map unat amts) = unat (coin_value source) then fmlookup (objects s') sid = None
         else \<exists>c. fmlookup (objects s') sid = Some c \<and> md_owner (metadata c) = Some owner
           \<and> coin_type c = coin_type source
           \<and> unat (coin_value c) + sum_list (map unat amts) = unat (coin_value source)))"
  using assms by (rule mem.execute_split_coin_sound)

lemma sample_out_ids [simp]: "out_ids sample_ext sample_ctx (Suc (Suc 0)) = [0, 1]"
  by (simp add: next_id_def sample_coin_id)

lemma sample_fresh: "fresh_outputs sample_ext sample_ctx (Suc (Suc 0)) (objects sample_store)"
  unfolding fresh_outputs_def sample_out_ids by simp

theorem split_conserves_witness:
  "\<exists>out s' ctx'. execute_split_coin mem_ops sample_ext 7 100 [4, 6] (sample_store, sample_ctx)
       = (Inr out, (s', ctx'))
     \<and> created_objects out = [0, 1] \<and> coins_total (of_type ''ROOT'') (objects s') = 16
     \<and> map_option coin_value (fmlookup (objects s') 0) = Some 4
     \<and> map_option coin_value (fmlookup (objects s') 1) = Some 6"
proof -
  obtain r s' ctx' where run: "execute_split_coin mem_ops sample_ext 7 100 [4, 6]
      (sample_store, sample_ctx) = (r, (s', ctx'))"
    by (metis surj_pair)
  have "checked_sum 0 [4, 6] = Some (10 :: u64)"
    by (simp add: checked_add_def)
  then have "r \<noteq> Inl e" for e
    using run mem.split_outputs_run [of sample_store "[4, 6]" "sample_coin 100 7 10" sample_ext
        sample_ctx 7 "[]" "[]"] sample_fresh
    by (auto simp: execute_split_coin_def mem.rd_apply mem.rm_apply MAX_SPLIT_OUTPUTS_def Let_def
        simp del: split_outputs.simps out_ids.simps checked_sum.simps)
  then show ?thesis
    using split_conserves [OF sample_store_inv _ run] sample_fresh run
    by (auto simp: coins_total_new of_type_def simp del: out_ids.simps)
qed

end
