(* ===== verification/Simple_Transfer.thy ===== *)
theory Simple_Transfer
  imports Runtime_Conservation
begin

text \<open>
  The account-based transfer \<open>execute_simple_transfer\<close> of \<^verbatim>\<open>crates/setu-runtime/src/executor.rs\<close>:
  it succeeds, and moves exactly the amount, whenever the account holds enough of the coin type in
  at most 51 coins; an empty account with the amount 0 makes it panic.
\<close>

section \<open>Collecting the coins of an account\<close>

definition coins_of :: "(object_id, coin) fmap \<Rightarrow> string \<Rightarrow> object_id list \<Rightarrow> (object_id \<times> coin) list" where
  "coins_of m ct ids = List.map_filter (\<lambda>i. case fmlookup m i of
     None \<Rightarrow> None | Some c \<Rightarrow> if coin_type c = ct then Some (i, c) else None) ids"

lemma coins_of_simps [simp]:
  "coins_of m ct [] = []"
  "coins_of m ct (i # ids) = (case fmlookup m i of
     None \<Rightarrow> coins_of m ct ids
   | Some c \<Rightarrow> if coin_type c = ct then (i, c) # coins_of m ct ids else coins_of m ct ids)"
  by (simp_all add: coins_of_def List.map_filter_simps split: option.split)

lemma set_coins_of:
  "(i, c) \<in> set (coins_of m ct ids) \<longleftrightarrow> i \<in> set ids \<and> fmlookup m i = Some c \<and> coin_type c = ct"
  by (induction ids) (auto split: option.splits)

lemma distinct_coins_of: "distinct ids \<Longrightarrow> distinct (map fst (coins_of m ct ids))"
proof (induction ids)
  case (Cons i ids)
  have "i \<notin> fst ` set (coins_of m ct ids)"
    using Cons.prems set_coins_of [of i _ m ct ids] by auto
  then show ?case
    using Cons by (auto split: option.split)
qed simp

lemma listed_total_coins_of:
  "listed_total f m (map fst (coins_of m ct ids)) = (\<Sum>(i, c)\<leftarrow>coins_of m ct ids. f c)"
  by (induction ids) (auto split: option.splits)

lemma coins_of_total:
  assumes "distinct ids"
    and "\<And>i c. fmlookup m i = Some c \<Longrightarrow> i \<in> set ids \<longleftrightarrow> md_owner (metadata c) = Some a"
  shows "(\<Sum>(i, c)\<leftarrow>coins_of m ct ids. unat (coin_value c)) = coins_total (held_by a ct) m"
proof -
  let ?l = "map fst (coins_of m ct ids)"
  have look: "fmlookup m i = Some c \<and> md_owner (metadata c) = Some a \<and> coin_type c = ct"
    if "(i, c) \<in> set (coins_of m ct ids)" for i c
    using that assms(2) by (auto simp: set_coins_of)
  have "(\<Sum>(i, c)\<leftarrow>coins_of m ct ids. unat (coin_value c)) = listed_total (\<lambda>c. unat (coin_value c)) m ?l"
    by (rule listed_total_coins_of [symmetric])
  also have "\<dots> = listed_total (held_by a ct) m ?l"
    by (rule listed_total_cong) (use look in \<open>fastforce simp: held_by_def\<close>)
  also have "\<dots> = (\<Sum>i\<in>set ?l. held_by a ct (the (fmlookup m i)))"
    unfolding listed_total_def
    by (rule sum_list_distinct_conv_sum_set) (rule distinct_coins_of [OF assms(1)])
  also have "\<dots> = coins_total (held_by a ct) m"
    unfolding coins_total_def fmsum_def
  proof (rule sum.mono_neutral_left)
    show "set ?l \<subseteq> fset (fmdom m)"
      using look by (auto intro: fmdomI)
    show "\<forall>i\<in>fset (fmdom m) - set ?l. held_by a ct (the (fmlookup m i)) = 0"
    proof
      fix i
      assume i: "i \<in> fset (fmdom m) - set ?l"
      then obtain c where c: "fmlookup m i = Some c"
        by (auto simp: fmlookup_dom_iff)
      then have "(i, c) \<notin> set (coins_of m ct ids)"
        using i by force
      then show "held_by a ct (the (fmlookup m i)) = 0"
        using c assms(2) [OF c] by (auto simp: set_coins_of held_by_def)
    qed
  qed simp
  finally show ?thesis .
qed

context coin_store
begin

lemma collect_coins_apply:
  "inv s \<Longrightarrow> collect_coins ops ct ids acc (s, ctx) = (Inr (acc @ coins_of (view s) ct ids), (s, ctx))"
proof (induction ids arbitrary: acc)
  case (Cons i ids)
  then show ?case
    by (cases "fmlookup (view s) i") (simp_all add: rd_apply)
qed simp

lemma execute_transfer_run:
  assumes "inv s" "output_counter ctx \<noteq> - 1"
    and "fmlookup (view s) (tx_coin_id t) = Some coin" "is_owned coin"
    and "md_owner (metadata coin) = Some (sender tx)"
    and "amount t = Some amt" "amt \<noteq> 0" "amt \<le> coin_value coin"
  shows "\<exists>out s' ctx'. execute_transfer ops E tx t (s, ctx) = (Inr out, (s', ctx'))"
  using assms transfer_full_apply [OF assms(1,4), of E tx t ctx]
    transfer_partial_apply [OF assms(1,5,8,2), where E = E and t = t and tx = tx]
  by (auto simp: execute_transfer_def rd_apply)

lemma merge_sources_run:
  assumes "inv s" "distinct ids"
    and "\<And>i. i \<in> set ids \<Longrightarrow> \<exists>c. fmlookup (view s) i = Some c \<and> md_owner (metadata c) = Some owner
         \<and> coin_type c = ct"
    and "unat (coin_value target) + listed_total (\<lambda>c. unat (coin_value c)) (view s) ids < 2 ^ 64"
  shows "\<exists>r s'. merge_sources ops E owner ct ids target ch del (s, ctx) = (Inr r, (s', ctx))"
  using assms
proof (induction ids arbitrary: s target ch del)
  case (Cons i ids)
  obtain source where src: "fmlookup (view s) i = Some source"
    "md_owner (metadata source) = Some owner" "coin_type source = ct"
    using Cons.prems(3) [of i] by auto
  let ?s = "snd (delete_object ops s i)"
  let ?b = "\<lparr>bal_value = coin_value target + coin_value source\<rparr>"
  have "unat (coin_value target) + unat (coin_value source) < 2 ^ 64"
    using Cons.prems(4) src(1) by simp
  then have dep: "deposit (cd_balance (data target)) (cd_balance (data source)) = (?b, Inr ())"
    and val: "unat (coin_value (set_balance target ?b))
        = unat (coin_value target) + unat (coin_value source)"
    by (simp_all add: deposit_def checked_add_def coin_value_def set_balance_def unat_add_no_overflow)
  have s: "inv ?s" "view ?s = fmdrop i (view s)"
    using Cons.prems(1) by (simp_all add: delete_inv delete_view)
  have "\<exists>c. fmlookup (view ?s) j = Some c \<and> md_owner (metadata c) = Some owner \<and> coin_type c = ct"
    if "j \<in> set ids" for j
    using that Cons.prems(2,3) s(2) by auto
  moreover have "unat (coin_value (set_balance target ?b))
      + listed_total (\<lambda>c. unat (coin_value c)) (view ?s) ids < 2 ^ 64"
    using Cons.prems(2,4) val s(2) src(1) by simp
  ultimately have "\<exists>r s'. merge_sources ops E owner ct ids (set_balance target ?b)
      (ch @ [delete_change i (to_coin_state_bytes E source)]) (del @ [i]) (?s, ctx)
      = (Inr r, (s', ctx))"
    using Cons.IH [OF s(1)] Cons.prems(2) by simp
  then show ?case
    using Cons.prems(1) src dep by (simp add: rd_apply rm_apply)
qed simp

lemma execute_merge_coins_run:
  assumes "inv s" "ids \<noteq> []" "length ids \<le> MAX_MERGE_SOURCES" "distinct (tid # ids)"
    and "\<And>i. i \<in> set (tid # ids) \<Longrightarrow> \<exists>c. fmlookup (view s) i = Some c
         \<and> md_owner (metadata c) = Some owner \<and> coin_type c = ct"
    and "listed_total (\<lambda>c. unat (coin_value c)) (view s) (tid # ids) < 2 ^ 64"
  shows "\<exists>out s'. execute_merge_coins ops E owner tid ids (s, ctx) = (Inr out, (s', ctx))"
proof -
  obtain target where t: "fmlookup (view s) tid = Some target" "md_owner (metadata target) = Some owner"
    "coin_type target = ct"
    using assms(5) [of tid] by auto
  have "distinct ids" "first_duplicate [] ids = None" "tid \<notin> set ids"
    using assms(4) by (simp_all add: first_duplicate_None)
  moreover obtain target' ch del s1 where m: "merge_sources ops E owner ct ids target [] [] (s, ctx)
      = (Inr (target', ch, del), (s1, ctx))"
    using merge_sources_run [OF assms(1) \<open>distinct ids\<close>, of owner ct target E "[]" "[]" ctx] assms(5,6) t
    by (auto simp del: merge_sources.simps)
  moreover have "inv s1" "md_owner (metadata (incr_coin E target')) = Some owner"
    using merge_sources_ok [OF assms(1) \<open>distinct ids\<close> m] t(2) by simp_all
  ultimately show ?thesis
    using assms(1-3) t
    by (simp add: execute_merge_coins_def rd_apply wr_apply Let_def del: merge_sources.simps)
qed

end

section \<open>Success\<close>

text \<open>What the totals are after moving an amount from one address to another.\<close>

definition moved_between ::
  "(object_id, coin) fmap \<Rightarrow> (object_id, coin) fmap \<Rightarrow> address \<Rightarrow> address \<Rightarrow> string \<Rightarrow> nat \<Rightarrow> bool" where
  "moved_between m m' a b ct n \<longleftrightarrow>
     (\<forall>x ct'. coins_total (held_by x ct') m' + (if x = a \<and> ct' = ct then n else 0)
        = coins_total (held_by x ct') m + (if x = b \<and> ct' = ct then n else 0)) \<and>
     (\<forall>ct'. coins_total (of_type ct') m' = coins_total (of_type ct') m)"

context coin_store
begin

lemma transfer_from_coin:
  assumes "inv s" "output_counter ctx \<noteq> - 1" "fmlookup (view s) (next_id E ctx) = None"
    and "fmlookup (view s) i = Some coin" "is_owned coin" "md_owner (metadata coin) = Some a"
    and "amt \<noteq> 0" "amt \<le> coin_value coin"
  shows "\<exists>out s' ctx'. execute_transaction ops E (new_transfer_deterministic E a i b (Some amt) ts) (s, ctx)
      = (Inr out, (s', ctx')) \<and> inv s' \<and> moved_between (view s) (view s') a b (coin_type coin) (unat amt)"
proof -
  let ?tx = "new_transfer_deterministic E a i b (Some amt) ts"
  define t where "t = \<lparr>tx_coin_id = i, recipient = b, amount = Some amt\<rparr>"
  have t: "tx_coin_id t = i" "recipient t = b" "amount t = Some amt" "sender ?tx = a"
    "tx_type ?tx = Transfer t" "moved t coin = unat amt"
    by (simp_all add: t_def new_transfer_deterministic_def transfer_transaction_def moved_def)
  obtain out s' ctx' where run: "execute_transfer ops E ?tx t (s, ctx) = (Inr out, (s', ctx'))"
    using execute_transfer_run [OF assms(1,2), of t coin ?tx amt E] assms(4-8) t by auto
  obtain coin' where "fmlookup (view s) (tx_coin_id t) = Some coin'" "inv s'"
    and held: "\<And>x ct. coins_total (held_by x ct) (view s')
          + (if x = sender ?tx \<and> ct = coin_type coin' then moved t coin' else 0)
        = coins_total (held_by x ct) (view s)
          + (if x = recipient t \<and> ct = coin_type coin' then moved t coin' else 0)"
    and typed: "\<And>ct. coins_total (of_type ct) (view s') = coins_total (of_type ct) (view s)"
    by (rule execute_transfer_ok [OF assms(1-3) run]) metis
  moreover from this(1) have "coin' = coin"
    using assms(4) t by simp
  ultimately have "moved_between (view s) (view s') a b (coin_type coin) (unat amt)"
    unfolding moved_between_def by (simp only: t simp_thms)
  then show ?thesis
    using t run \<open>inv s'\<close> by (auto simp: execute_transaction_def)
qed

lemma merge_then_transfer_run:
  assumes "inv s" "output_counter ctx \<noteq> - 1" "fmlookup (view s) (next_id E ctx) = None"
    and "ids \<noteq> []" "length ids \<le> MAX_MERGE_SOURCES" "distinct (tid # ids)"
    and "\<And>i. i \<in> set (tid # ids) \<Longrightarrow> \<exists>c. fmlookup (view s) i = Some c \<and> is_owned c
         \<and> md_owner (metadata c) = Some a \<and> coin_type c = ct"
    and "listed_total (\<lambda>c. unat (coin_value c)) (view s) (tid # ids) < 2 ^ 64"
    and "amt \<noteq> 0" "unat amt \<le> listed_total (\<lambda>c. unat (coin_value c)) (view s) (tid # ids)"
  shows "\<exists>out s' ctx'. merge_then_transfer ops E a b amt tid ids (s, ctx) = (Inr out, (s', ctx'))
      \<and> inv s' \<and> moved_between (view s) (view s') a b ct (unat amt)"
proof -
  obtain out1 s1 where m: "execute_merge_coins ops E a tid ids (s, ctx) = (Inr out1, (s1, ctx))"
    using execute_merge_coins_run [OF assms(1,4,5,6), of a ct E ctx] assms(7,8) by blast
  obtain target target' where r: "fmlookup (view s) tid = Some target" "inv s1"
    "fmlookup (view s1) tid = Some target'" "md_owner (metadata target') = Some a"
    "coin_type target' = coin_type target" "is_owned target \<Longrightarrow> is_owned target'"
    "unat (coin_value target')
        = unat (coin_value target) + listed_total (\<lambda>c. unat (coin_value c)) (view s) ids"
    "\<And>i. i \<in> set ids \<Longrightarrow> fmlookup (view s1) i = None"
    "\<And>i. i \<notin> set (tid # ids) \<Longrightarrow> fmlookup (view s1) i = fmlookup (view s) i"
    and held: "\<And>x ct. coins_total (held_by x ct) (view s1) = coins_total (held_by x ct) (view s)"
    and typed: "\<And>ct. coins_total (of_type ct) (view s1) = coins_total (of_type ct) (view s)"
    by (rule execute_merge_coins_ok [OF assms(1) m]) (rule that; (assumption | simp))
  have target: "is_owned target'" "coin_type target' = ct"
    using r(1,5,6) assms(7) [of tid] by auto
  have free: "fmlookup (view s1) (next_id E ctx) = None"
    using assms(3) r(1,8,9) by (cases "next_id E ctx \<in> set (tid # ids)") auto
  have "amt \<le> coin_value target'"
    using r(1,7) assms(10) by (simp add: word_le_nat_alt)
  from transfer_from_coin [OF r(2) assms(2) free r(3) target(1) r(4) assms(9) this]
  obtain out2 s' ctx' where "execute_transaction ops E
      (new_transfer_deterministic E a tid b (Some amt) (ctx_timestamp ctx)) (s1, ctx)
      = (Inr out2, (s', ctx'))" "inv s'"
      and "moved_between (view s1) (view s') a b ct (unat amt)"
    unfolding target(2) by blast
  then show ?thesis
    using m held typed by (simp add: merge_then_transfer_def moved_between_def)
qed

lemma descending_split:
  assumes "distinct (map fst coins)" "amt \<noteq> 0" "unat amt \<le> (\<Sum>(i, c)\<leftarrow>coins. unat (coin_value c))"
    and "find (\<lambda>(_, c). amt \<le> coin_value c) (sort_key (\<lambda>(_, c). coin_value c) coins) = None"
  obtains tid c rest where
    "sort_key (\<lambda>(_, c). - int (unat (coin_value c))) (sort_key (\<lambda>(_, c). coin_value c) coins)
       = (tid, c) # rest" "rest \<noteq> []"
    "mset ((tid, c) # rest) = mset coins"
proof -
  let ?d = "sort_key (\<lambda>(_, c). - int (unat (coin_value c))) (sort_key (\<lambda>(_, c). coin_value c) coins)"
  have ms: "mset ?d = mset coins"
    by simp
  have small: "\<not> amt \<le> coin_value c" if "(i, c) \<in> set coins" for i c
    using that assms(4) by (fastforce simp: find_None_iff)
  have "coins \<noteq> []"
    using assms(2,3) by (auto simp: unat_eq_0)
  then have "?d \<noteq> []"
    using ms by (metis mset_zero_iff)
  then obtain tid c rest where d: "?d = (tid, c) # rest"
    by (metis neq_Nil_conv surj_pair)
  have "rest \<noteq> []"
  proof
    assume "rest = []"
    then have "mset coins = {#(tid, c)#}"
      using ms unfolding d by simp
    then have "coins = [(tid, c)]"
      by simp
    then show False
      using small assms(3) by (simp add: word_le_nat_alt)
  qed
  then show thesis
    using that [OF d] ms unfolding d by simp
qed

end

definition coins_held :: "(object_id, coin) fmap \<Rightarrow> address \<Rightarrow> string \<Rightarrow> object_id set" where
  "coins_held m a ct =
     {i. \<exists>c. fmlookup m i = Some c \<and> md_owner (metadata c) = Some a \<and> coin_type c = ct}"

definition type_or_root :: "string option \<Rightarrow> string" where
  "type_or_root ct = (case ct of None \<Rightarrow> ''ROOT'' | Some c \<Rightarrow> c)"

context coin_store
begin

lemma pay_from_coins:
  assumes "inv s" "output_counter ctx \<noteq> - 1" "fmlookup (view s) (next_id E ctx) = None"
    and "distinct (map fst coins)" "length coins \<le> Suc MAX_MERGE_SOURCES"
    and "\<And>i c. (i, c) \<in> set coins \<Longrightarrow> fmlookup (view s) i = Some c \<and> is_owned c
         \<and> md_owner (metadata c) = Some a \<and> coin_type c = ct"
    and "(\<Sum>(i, c)\<leftarrow>coins. unat (coin_value c)) < 2 ^ 64"
    and "amt \<noteq> 0" "unat amt \<le> (\<Sum>(i, c)\<leftarrow>coins. unat (coin_value c))"
    and "sort_key (\<lambda>(_, c). - int (unat (coin_value c))) (sort_key (\<lambda>(_, c). coin_value c) coins)
       = (tid, tc) # rest" "rest \<noteq> []" "mset ((tid, tc) # rest) = mset coins"
  shows "\<exists>out s' ctx'. merge_then_transfer ops E a b amt tid (map fst rest) (s, ctx)
      = (Inr out, (s', ctx')) \<and> inv s' \<and> moved_between (view s) (view s') a b ct (unat amt)"
proof (rule merge_then_transfer_run [OF assms(1-3)])
  have ms: "mset (tid # map fst rest) = mset (map fst coins)"
    using arg_cong [OF assms(12), of "image_mset fst"] by simp
  then show "distinct (tid # map fst rest)"
    using assms(4) by (metis mset_eq_imp_distinct_iff)
  have "length ((tid, tc) # rest) = length coins"
    using assms(12) by (rule mset_eq_length)
  then show "length (map fst rest) \<le> MAX_MERGE_SOURCES"
    using assms(5) by simp
  show "map fst rest \<noteq> []"
    using assms(11) by simp
  have set: "set (tid # map fst rest) = fst ` set coins"
    using mset_eq_setD [OF ms] by simp
  show "\<exists>c. fmlookup (view s) i = Some c \<and> is_owned c \<and> md_owner (metadata c) = Some a
      \<and> coin_type c = ct" if "i \<in> set (tid # map fst rest)" for i
    using that assms(6) unfolding set by fastforce
  have "listed_total f (view s) (map fst cs) = (\<Sum>(i, c)\<leftarrow>cs. f c)" if "set cs \<subseteq> set coins"
    for f :: "coin \<Rightarrow> nat" and cs
    using that assms(6) by (induction cs) auto
  moreover have "set ((tid, tc) # rest) \<subseteq> set coins"
    using mset_eq_setD [OF assms(12)] by simp
  ultimately have "listed_total (\<lambda>c. unat (coin_value c)) (view s) (map fst ((tid, tc) # rest))
      = (\<Sum>(i, c)\<leftarrow>(tid, tc) # rest. unat (coin_value c))"
    by blast
  also have "\<dots> = (\<Sum>(i, c)\<leftarrow>coins. unat (coin_value c))"
    unfolding sum_mset_sum_list [symmetric] mset_map assms(12) ..
  finally have "listed_total (\<lambda>c. unat (coin_value c)) (view s) (tid # map fst rest)
      = (\<Sum>(i, c)\<leftarrow>coins. unat (coin_value c))"
    by simp
  then show "listed_total (\<lambda>c. unat (coin_value c)) (view s) (tid # map fst rest) < 2 ^ 64"
    "unat amt \<le> listed_total (\<lambda>c. unat (coin_value c)) (view s) (tid # map fst rest)"
    using assms(7,9) by simp_all
  show "amt \<noteq> 0"
    by (rule assms(8))
qed

lemma execute_simple_transfer_run:
  assumes "inv s" "output_counter ctx \<noteq> - 1" "fmlookup (view s) (next_id E ctx) = None"
    and "\<not> in_tee ctx" "Address_from_hex E from = Inr a" "Address_from_hex E to = Inr b"
    and "\<And>i c. fmlookup (view s) i = Some c \<Longrightarrow> md_owner (metadata c) = Some a \<Longrightarrow> is_owned c"
    and "card (coins_held (view s) a (type_or_root ct)) \<le> Suc MAX_MERGE_SOURCES"
    and "coins_total (held_by a (type_or_root ct)) (view s) < 2 ^ 64"
    and "amt \<noteq> 0" "unat amt \<le> coins_total (held_by a (type_or_root ct)) (view s)"
  shows "\<exists>out s' ctx'. execute_simple_transfer ops E from to amt ct (s, ctx)
      = (Inr out, (s', ctx')) \<and> inv s'
      \<and> moved_between (view s) (view s') a b (type_or_root ct) (unat amt)"
proof -
  obtain l where l: "get_owned_objects ops s a = Inr l" "distinct l"
    "\<And>i c. fmlookup (view s) i = Some c \<Longrightarrow> i \<in> set l \<longleftrightarrow> md_owner (metadata c) = Some a"
    using owned_law [OF assms(1), of a] by blast
  define coins where "coins = coins_of (view s) (type_or_root ct) l"
  have dist: "distinct (map fst coins)"
    unfolding coins_def by (rule distinct_coins_of [OF l(2)])
  have props: "fmlookup (view s) i = Some c \<and> is_owned c \<and> md_owner (metadata c) = Some a
      \<and> coin_type c = type_or_root ct" if "(i, c) \<in> set coins" for i c
    using that l(3) assms(7) unfolding coins_def set_coins_of by blast
  have sum: "(\<Sum>(i, c)\<leftarrow>coins. unat (coin_value c)) = coins_total (held_by a (type_or_root ct)) (view s)"
    unfolding coins_def by (rule coins_of_total [OF l(2,3)])
  have "fst ` set coins = coins_held (view s) a (type_or_root ct)"
    using l(3) unfolding coins_def coins_held_def
    by (auto simp: set_coins_of image_iff) (metis l(3) set_coins_of fst_conv)
  then have len: "length coins \<le> Suc MAX_MERGE_SOURCES"
    using assms(8) distinct_card [OF dist] by simp
  obtain T where T: "checked_sum 0 (map (\<lambda>(_, c). coin_value c) coins) = Some T"
    "unat T = coins_total (held_by a (type_or_root ct)) (view s)"
  proof -
    have "sum_list (map unat (map (\<lambda>(_, c). coin_value c) coins))
        = coins_total (held_by a (type_or_root ct)) (view s)"
      unfolding sum [symmetric] by (simp add: comp_def case_prod_unfold)
    then have "checked_sum 0 (map (\<lambda>(_, c). coin_value c) coins)
        = Some (word_of_nat (coins_total (held_by a (type_or_root ct)) (view s)))"
      using assms(9) by (simp add: checked_sum_Some unat_of_nat)
    then show thesis
      using that assms(9) by (simp add: unat_of_nat)
  qed
  have "\<not> T < amt"
    using T(2) assms(11) by (simp add: word_less_nat_alt)
  moreover have "rd_owned ops a (s, ctx) = (Inr l, (s, ctx))"
    using l(1) by (simp add: rd_owned_def)
  ultimately have eq: "execute_simple_transfer ops E from to amt ct (s, ctx)
      = (case find (\<lambda>(_, c). amt \<le> coin_value c) (sort_key (\<lambda>(_, c). coin_value c) coins) of
           Some (i, _) \<Rightarrow> execute_transaction ops E
             (new_transfer_deterministic E a i b (Some amt) (ctx_timestamp ctx))
         | None \<Rightarrow>
             (case sort_key (\<lambda>(_, c). - int (unat (coin_value c)))
                 (sort_key (\<lambda>(_, c). coin_value c) coins) of
                [] \<Rightarrow> throw (Panic ''index out of bounds'')
              | (tid, _) # rest \<Rightarrow> merge_then_transfer ops E a b amt tid (map fst rest))) (s, ctx)"
    using assms(1,4-6) T(1)
    by (simp add: execute_simple_transfer_def parse_address_def collect_coins_apply
        coins_def type_or_root_def Let_def cong: option.case_cong)
  show ?thesis
  proof (cases "find (\<lambda>(_, c). amt \<le> coin_value c) (sort_key (\<lambda>(_, c). coin_value c) coins)")
    case None
    obtain tid tc rest where d:
      "sort_key (\<lambda>(_, c). - int (unat (coin_value c))) (sort_key (\<lambda>(_, c). coin_value c) coins)
         = (tid, tc) # rest" "rest \<noteq> []" "mset ((tid, tc) # rest) = mset coins"
      using descending_split [OF dist assms(10) _ None] sum assms(11) by metis
    then show ?thesis
      unfolding eq None d(1) using pay_from_coins [OF assms(1-3) dist len props _ assms(10) _ d, of b]
        sum assms(9,11) by simp
  next
    case (Some x)
    obtain i c where x1: "x = (i, c)"
      by (cases x)
    have "x \<in> set (sort_key (\<lambda>(_, c). coin_value c) coins)" "case x of (_, c) \<Rightarrow> amt \<le> coin_value c"
      using Some unfolding find_Some_iff by (metis nth_mem)+
    then have x: "x = (i, c)" "(i, c) \<in> set coins" "amt \<le> coin_value c"
      using x1 by simp_all
    then show ?thesis
      unfolding eq Some x(1) using transfer_from_coin [OF assms(1-3), of i c a amt b "ctx_timestamp ctx"] props [OF x(2)]
        assms(10) by simp
  qed
qed

end

section \<open>Properties\<close>



text \<open>
  With the amount 0 an account that owns no coin of the type makes the handler panic: the check
  of the total passes, no single coin is found, and the largest coin is taken from an empty list.
\<close>

lemma simple_transfer_zero_panics:
  assumes "mem_inv s" and "\<not> in_tee ctx"
    and "Address_from_hex E from = Inr a" and "Address_from_hex E to = Inr b"
    and "mem_get_owned_objects s a = Inr []"
  shows "execute_simple_transfer mem_ops E from to 0 ct (s, ctx)
    = (Inl (Panic ''index out of bounds''), (s, ctx))"
  using assms
  by (simp add: execute_simple_transfer_def parse_address_def rd_owned_def mem_ops_def Let_def)

lemma simple_transfer_zero_panics_example:
  "execute_simple_transfer mem_ops sample_ext (id_to_string sample_ext 9)
     (id_to_string sample_ext 8) 0 None (mem_new, sample_ctx)
   = (Inl (Panic ''index out of bounds''), (mem_new, sample_ctx))"
  by (rule simple_transfer_zero_panics)
    (simp_all add: Address_parse sample_ext_laws mem_get_owned_objects_def mem_new_def owned_ids_def,
     simp_all add: mem_inv_def)

end
