(* ===== verification/Event_Dag.thy ===== *)
theory Event_Dag
  imports Events
begin

text \<open>
  The DAG that stores the events (\<^verbatim>\<open>consensus/src/dag.rs\<close>).

  The DAG is the record \<open>dag\<close> of its six maps and sets. The two
  breadth-first searches and the garbage collector are recursions over their work queue.

  The lemmas show the well-formedness of the DAG under every operation, that the depth of an event
  strictly exceeds that of its parents, that the searches decide reachability along parent edges,
  and what the garbage collector removes and keeps.
\<close>

section \<open>The DAG\<close>

record dag =
  events :: "(event_id, event) fmap"
  children :: "(event_id, event_id fset) fmap"
  depths :: "(event_id, u64) fmap"
  tips :: "event_id fset"
  max_depth :: u64
  pending :: "event_id fset"

datatype dag_error =
    DuplicateEvent event_id
  | MissingParent event_id
  | EventNotFound event_id
  | InvalidEvent string

definition dag_new :: dag where
  "dag_new = \<lparr>events = fmempty, children = fmempty, depths = fmempty, tips = {||}, max_depth = 0,
     pending = {||}\<rparr>"

definition dag_contains :: "dag \<Rightarrow> event_id \<Rightarrow> bool" where
  "dag_contains d i \<longleftrightarrow> fmlookup (events d) i \<noteq> None"

definition get_event :: "dag \<Rightarrow> event_id \<Rightarrow> event option" where
  "get_event d i = fmlookup (events d) i"

definition get_depth :: "dag \<Rightarrow> event_id \<Rightarrow> u64 option" where
  "get_depth d i = fmlookup (depths d) i"

text \<open>The loop over the parents that computes the largest parent depth.\<close>

fun parent_depth_loop :: "dag \<Rightarrow> event_id list \<Rightarrow> u64 \<Rightarrow> dag_error + u64" where
  "parent_depth_loop d [] acc = Inr acc"
| "parent_depth_loop d (p # ps) acc =
     (if \<not> dag_contains d p then Inl (MissingParent p)
      else parent_depth_loop d ps
             (max acc (case fmlookup (depths d) p of None \<Rightarrow> 0 | Some x \<Rightarrow> x)))"

text \<open>\<open>entry(p).or_insert_with(HashSet::new)\<close>.\<close>

definition child_set :: "(event_id, event_id fset) fmap \<Rightarrow> event_id \<Rightarrow> event_id fset" where
  "child_set m p = (case fmlookup m p of None \<Rightarrow> {||} | Some s \<Rightarrow> s)"

definition link_parent :: "event_id \<Rightarrow> event_id \<Rightarrow> dag \<Rightarrow> dag" where
  "link_parent i p d =
     d\<lparr>children := fmupd p (finsert i (child_set (children d) p)) (children d),
       tips := tips d |-| {|p|}\<rparr>"

definition store_event :: "dag \<Rightarrow> event \<Rightarrow> u64 \<Rightarrow> dag" where
  "store_event d e depth =
     d\<lparr>events := fmupd (ev_id e) e (events d), depths := fmupd (ev_id e) depth (depths d),
       tips := finsert (ev_id e) (tips d), pending := finsert (ev_id e) (pending d),
       max_depth := max (max_depth d) depth\<rparr>"

definition dag_add_event :: "dag \<Rightarrow> event \<Rightarrow> dag \<times> (dag_error + event_id)" where
  "dag_add_event d e =
     (if dag_contains d (ev_id e) then (d, Inl (DuplicateEvent (ev_id e)))
      else
        case (if parent_ids e = [] then Inr 0
              else case parent_depth_loop d (parent_ids e) 0 of
                     Inl err \<Rightarrow> Inl err
                   | Inr m \<Rightarrow> Inr (m + 1)) of
          Inl err \<Rightarrow> (d, Inl err)
        | Inr depth \<Rightarrow>
            (store_event (fold (link_parent (ev_id e)) (parent_ids e) d) e depth, Inr (ev_id e)))"

definition add_event_with_depth :: "dag \<Rightarrow> event \<Rightarrow> u64 \<Rightarrow> dag \<times> (dag_error + event_id)" where
  "add_event_with_depth d e depth =
     (if dag_contains d (ev_id e) then (d, Inl (DuplicateEvent (ev_id e)))
      else
        (store_event
           (fold (\<lambda>p d'. if dag_contains d' p then link_parent (ev_id e) p d' else d')
             (parent_ids e) d) e depth,
         Inr (ev_id e)))"

definition node_count :: "dag \<Rightarrow> nat" where
  "node_count d = fmlen (events d)"

definition get_pending_events :: "dag \<Rightarrow> event list" where
  "get_pending_events d =
     List.map_filter (fmlookup (events d)) (sorted_list_of_fset (pending d))"

definition get_events_in_range :: "dag \<Rightarrow> u64 \<Rightarrow> u64 \<Rightarrow> event list" where
  "get_events_in_range d lo hi =
     map snd (filter (\<lambda>(i, _). case fmlookup (depths d) i of
         Some x \<Rightarrow> lo \<le> x \<and> x \<le> hi | None \<Rightarrow> False) (entries (events d)))"

definition get_events_at_depth :: "dag \<Rightarrow> u64 \<Rightarrow> event list" where
  "get_events_at_depth d x =
     map snd (filter (\<lambda>(i, _). fmlookup (depths d) i = Some x) (entries (events d)))"

definition set_status :: "event_status \<Rightarrow> event_id \<Rightarrow> dag \<Rightarrow> dag" where
  "set_status st i d =
     (case fmlookup (events d) i of
        None \<Rightarrow> d
      | Some e \<Rightarrow> d\<lparr>events := fmupd i (e\<lparr>status := st\<rparr>) (events d)\<rparr>)"

definition confirm_event :: "dag \<Rightarrow> event_id \<Rightarrow> dag \<times> bool" where
  "confirm_event d i =
     (case fmlookup (events d) i of
        Some e \<Rightarrow> ((set_status Confirmed i d)\<lparr>pending := pending d |-| {|i|}\<rparr>, True)
      | None \<Rightarrow> (d, False))"

definition finalize_one :: "event_id \<Rightarrow> dag \<Rightarrow> dag" where
  "finalize_one i d = (set_status Finalized i d)\<lparr>pending := pending d |-| {|i|}\<rparr>"

definition finalize_events :: "dag \<Rightarrow> event_id list \<Rightarrow> dag" where
  "finalize_events d ids = fold finalize_one ids d"

definition finalize_up_to_depth :: "dag \<Rightarrow> u64 \<Rightarrow> dag" where
  "finalize_up_to_depth d depth =
     fold (\<lambda>(i, _) d'. case fmlookup (depths d') i of
         Some x \<Rightarrow> if x \<le> depth then finalize_one i d' else d'
       | None \<Rightarrow> d') (entries (events d)) d"

definition is_active :: "dag \<Rightarrow> event_id \<Rightarrow> bool" where
  "is_active d c \<longleftrightarrow> (case fmlookup (events d) c of
     Some e \<Rightarrow> status e \<noteq> Finalized | None \<Rightarrow> False)"

definition has_active_children :: "dag \<Rightarrow> event_id \<Rightarrow> bool" where
  "has_active_children d i \<longleftrightarrow>
     (case fmlookup (children d) i of Some cs \<Rightarrow> fBex cs (is_active d) | None \<Rightarrow> False)"

definition unlink_parent :: "event_id \<Rightarrow> event_id \<Rightarrow> dag \<Rightarrow> dag" where
  "unlink_parent i p d =
     (case fmlookup (children d) p of
        Some cs \<Rightarrow> d\<lparr>children := fmupd p (cs |-| {|i|}) (children d)\<rparr>
      | None \<Rightarrow> d)"

definition remove_event :: "dag \<Rightarrow> event_id \<Rightarrow> dag \<times> event_id list option" where
  "remove_event d i =
     (if has_active_children d i then (d, None)
      else
        case fmlookup (events d) i of
          None \<Rightarrow> (d, None)
        | Some e \<Rightarrow>
            (let d1 = d\<lparr>events := fmdrop i (events d), depths := fmdrop i (depths d),
                        tips := tips d |-| {|i|}, pending := pending d |-| {|i|}\<rparr>;
                 d2 = fold (unlink_parent i) (parent_ids e) d1
             in (d2\<lparr>children := fmdrop i (children d2)\<rparr>, Some (parent_ids e))))"

definition get_children :: "dag \<Rightarrow> event_id \<Rightarrow> event_id fset" where
  "get_children d i = child_set (children d) i"

definition dag_is_empty :: "dag \<Rightarrow> bool" where
  "dag_is_empty d \<longleftrightarrow> events d = fmempty"

section \<open>Garbage collection\<close>

record gc_stats =
  removed :: nat
  retained :: nat

lemma fold_unlink_events [simp]: "events (fold (unlink_parent i) ps d) = events d"
  by (induction ps arbitrary: d) (auto simp: unlink_parent_def split: option.split)

lemma remove_event_events:
  "remove_event d i = (d', Some ps) \<Longrightarrow>
   fmlookup (events d) i \<noteq> None \<and> events d' = fmdrop i (events d)"
  by (auto simp: remove_event_def Let_def split: if_splits option.splits)

lemma remove_event_less:
  assumes "remove_event d i = (d', Some ps)"
  shows "fmlen (events d') < fmlen (events d)"
proof -
  have "i |\<in>| fmdom (events d)" "fmdom (events d') = fmdom (events d) |-| {|i|}"
    using remove_event_events [OF assms] by (auto simp: fmlookup_dom_iff)
  then show ?thesis
    by (metis card_Diff1_less fcard.rep_eq finite_fset fset_simps(1,2) minus_fset.rep_eq)
qed

text \<open>The work queue of the collector.\<close>

definition gc_push :: "dag \<Rightarrow> event_id list \<Rightarrow> event_id list" where
  "gc_push d ps = filter (\<lambda>p. case fmlookup (events d) p of
     Some e \<Rightarrow> status e = Finalized | None \<Rightarrow> False) ps"

function gc_loop ::
  "event_id list \<Rightarrow> event_id list \<Rightarrow> dag \<Rightarrow> gc_stats \<Rightarrow> dag \<times> gc_stats" where
  "gc_loop targets [] d st = (d, st)"
| "gc_loop targets (i # queue) d st =
     (case remove_event d i of
        (d', Some ps) \<Rightarrow>
          gc_loop targets (queue @ gc_push d' ps) d' (st\<lparr>removed := removed st + 1\<rparr>)
      | (_, None) \<Rightarrow>
          gc_loop targets queue d
            (if i \<in> set targets \<and> dag_contains d i then st\<lparr>retained := retained st + 1\<rparr> else st))"
  by pat_completeness auto
termination
  by (relation "measures [\<lambda>(_, _, d, _). fmlen (events d), \<lambda>(_, q, _, _). length q]")
    (auto dest: remove_event_less [OF sym])

definition gc_finalized_events :: "dag \<Rightarrow> event_id list \<Rightarrow> dag \<times> gc_stats" where
  "gc_finalized_events d ids = gc_loop ids ids d \<lparr>removed = 0, retained = 0\<rparr>"

section \<open>Ancestors\<close>

definition unseen :: "dag \<Rightarrow> event_id fset \<Rightarrow> nat" where
  "unseen d seen = card (fset (fmdom (events d)) - fset seen)"

lemma unseen_less:
  assumes "fmlookup (events d) c = Some e" "c |\<notin>| seen"
  shows "unseen d (finsert c seen) < unseen d seen"
  unfolding unseen_def
proof (rule psubset_card_mono)
  have "c \<in> fset (fmdom (events d))"
    using assms(1) by (rule fmdomI)
  then show "fset (fmdom (events d)) - fset (finsert c seen) \<subset> fset (fmdom (events d)) - fset seen"
    using assms(2) by auto
qed simp

lemma unseen_absent:
  assumes "fmlookup (events d) c = None"
  shows "unseen d (finsert c seen) = unseen d seen"
proof -
  have "c \<notin> fset (fmdom (events d))"
    using assms by (simp add: fmdom_notI)
  then have "fset (fmdom (events d)) - fset (finsert c seen) = fset (fmdom (events d)) - fset seen"
    by auto
  then show ?thesis
    by (simp add: unseen_def)
qed

function ancestor_loop :: "dag \<Rightarrow> event_id \<Rightarrow> event_id fset \<Rightarrow> event_id list \<Rightarrow> bool" where
  "ancestor_loop d a visited [] = False"
| "ancestor_loop d a visited (c # queue) =
     (if c |\<in>| visited then ancestor_loop d a visited queue
      else
        case fmlookup (events d) c of
          None \<Rightarrow> ancestor_loop d a (finsert c visited) queue
        | Some e \<Rightarrow>
            if a \<in> set (parent_ids e) then True
            else ancestor_loop d a (finsert c visited) (queue @ parent_ids e))"
  by pat_completeness auto
termination
  by (relation "measures [\<lambda>(d, _, s, _). unseen d s, \<lambda>(_, _, _, q). length q]")
    (auto simp: unseen_less unseen_absent)

definition is_ancestor :: "dag \<Rightarrow> event_id \<Rightarrow> event_id \<Rightarrow> bool" where
  "is_ancestor d a c = (if a = c then False else ancestor_loop d a {||} [c])"

function ancestors_loop :: "dag \<Rightarrow> event_id fset \<Rightarrow> event_id list \<Rightarrow> event_id fset" where
  "ancestors_loop d acc [] = acc"
| "ancestors_loop d acc (c # queue) =
     (if c |\<in>| acc then ancestors_loop d acc queue
      else
        case fmlookup (events d) c of
          None \<Rightarrow> ancestors_loop d (finsert c acc) queue
        | Some e \<Rightarrow> ancestors_loop d (finsert c acc) (queue @ parent_ids e))"
  by pat_completeness auto
termination
  by (relation "measures [\<lambda>(d, s, _). unseen d s, \<lambda>(_, _, q). length q]")
    (auto simp: unseen_less unseen_absent)

definition get_ancestors :: "dag \<Rightarrow> event_id \<Rightarrow> event_id fset" where
  "get_ancestors d i =
     ancestors_loop d {||} (case fmlookup (events d) i of Some e \<Rightarrow> parent_ids e | None \<Rightarrow> [])"

text \<open>The parent edges of the stored events.\<close>

definition parent_edges :: "dag \<Rightarrow> (event_id \<times> event_id) set" where
  "parent_edges d = {(p, c). \<exists>e. fmlookup (events d) c = Some e \<and> p \<in> set (parent_ids e)}"

lemma parent_edges_iff:
  "(p, c) \<in> parent_edges d \<longleftrightarrow> (\<exists>e. fmlookup (events d) c = Some e \<and> p \<in> set (parent_ids e))"
  by (simp add: parent_edges_def)

lemma ancestors_loop_mono: "acc |\<subseteq>| ancestors_loop d acc queue"
  by (induction d acc queue rule: ancestors_loop.induct) (auto split: option.split)

lemma ancestors_loop_queue: "set queue \<subseteq> fset (ancestors_loop d acc queue)"
proof (induction d acc queue rule: ancestors_loop.induct)
  case (2 d acc c queue)
  then show ?case
    using ancestors_loop_mono [of acc d queue] ancestors_loop_mono [of "finsert c acc" d]
    by (cases "fmlookup (events d) c") (auto 0 3)
qed simp

lemma ancestors_loop_closed:
  assumes "\<And>c p. c |\<in>| acc \<Longrightarrow> (p, c) \<in> parent_edges d \<Longrightarrow> p |\<in>| acc \<or> p \<in> set queue"
  shows "c |\<in>| ancestors_loop d acc queue \<Longrightarrow> (p, c) \<in> parent_edges d
    \<Longrightarrow> p |\<in>| ancestors_loop d acc queue"
  using assms
proof (induction d acc queue arbitrary: p c rule: ancestors_loop.induct)
  case (2 d acc x queue)
  consider (seen) "x |\<in>| acc" | (gone) "x |\<notin>| acc" "fmlookup (events d) x = None"
    | (fresh) e where "x |\<notin>| acc" "fmlookup (events d) x = Some e"
    by (cases "fmlookup (events d) x") auto
  then show ?case
  proof cases
    case seen
    then show ?thesis
      using 2(1) [OF seen, of c p] 2(4-6) by auto
  next
    case gone
    then have "\<not> (q, x) \<in> parent_edges d" for q
      by (simp add: parent_edges_iff)
    then show ?thesis
      using 2(2) [OF gone, of c p] 2(4-6) gone by auto
  next
    case fresh
    then have "(q, x) \<in> parent_edges d \<Longrightarrow> q \<in> set (parent_ids e)" for q
      by (simp add: parent_edges_iff)
    then show ?thesis
      using 2(3) [OF fresh, of c p] 2(4-6) fresh by auto
  qed
qed simp

lemma ancestors_loop_sound:
  "x |\<in>| ancestors_loop d acc queue \<Longrightarrow> x |\<in>| acc \<or> (\<exists>c \<in> set queue. (x, c) \<in> (parent_edges d)\<^sup>*)"
proof (induction d acc queue rule: ancestors_loop.induct)
  case (2 d acc c queue)
  show ?case
  proof (cases "fmlookup (events d) c")
    case None
    then show ?thesis
      using 2 by (auto split: if_splits)
  next
    case (Some e)
    have "(x, c) \<in> (parent_edges d)\<^sup>*" if "(x, p) \<in> (parent_edges d)\<^sup>*" "p \<in> set (parent_ids e)" for p
      using that Some by (meson parent_edges_iff rtrancl.rtrancl_into_rtrancl)
    then show ?thesis
      using 2 Some by (auto split: if_splits)
  qed
qed simp

lemma ancestors_loop_eq:
  "fset (ancestors_loop d {||} queue) = {x. \<exists>c \<in> set queue. (x, c) \<in> (parent_edges d)\<^sup>*}"
proof
  show "fset (ancestors_loop d {||} queue) \<subseteq> {x. \<exists>c \<in> set queue. (x, c) \<in> (parent_edges d)\<^sup>*}"
    using ancestors_loop_sound [of _ d "{||}" queue] by auto
  show "{x. \<exists>c \<in> set queue. (x, c) \<in> (parent_edges d)\<^sup>*} \<subseteq> fset (ancestors_loop d {||} queue)"
  proof clarify
    fix x c
    assume "(x, c) \<in> (parent_edges d)\<^sup>*" "c \<in> set queue"
    then show "x |\<in>| ancestors_loop d {||} queue"
    proof (induction rule: converse_rtrancl_induct)
      case base
      then show ?case
        using ancestors_loop_queue by blast
    next
      case (step y z)
      then show ?case
        using ancestors_loop_closed [of "{||}" d queue z y] by auto
    qed
  qed
qed

lemma ancestor_loop_eq:
  "ancestor_loop d a visited queue \<longleftrightarrow>
     (\<exists>c. c |\<in>| ancestors_loop d visited queue \<and> c |\<notin>| visited \<and> (a, c) \<in> parent_edges d)"
proof (induction d a visited queue rule: ancestor_loop.induct)
  case (2 d a visited c queue)
  show ?case
  proof (cases "c |\<in>| visited")
    case True
    then show ?thesis
      using 2(1) by simp
  next
    case False
    show ?thesis
    proof (cases "fmlookup (events d) c")
      case None
      then have "(a, c) \<notin> parent_edges d"
        by (simp add: parent_edges_iff)
      then show ?thesis
        using 2(2) [OF False None] False None by auto
    next
      case (Some e)
      show ?thesis
      proof (cases "a \<in> set (parent_ids e)")
        case True
        moreover have "c |\<in>| ancestors_loop d (finsert c visited) (queue @ parent_ids e)"
          using ancestors_loop_mono by blast
        ultimately show ?thesis
          using False Some by (auto simp: parent_edges_iff)
      next
        case no: False
        then have "(a, c) \<notin> parent_edges d"
          using Some by (simp add: parent_edges_iff)
        then show ?thesis
          using 2(3) [OF False Some no] False Some no by auto
      qed
    qed
  qed
qed simp

text \<open>
  C22: the ancestor searches are correct and terminate on every DAG. \<open>get_ancestors\<close> returns exactly
  the events reachable by one or more parent edges of stored events, and \<open>is_ancestor\<close> decides that
  relation between two different events.
\<close>

theorem ancestor_search_correct:
  "fset (get_ancestors d i) = {a. (a, i) \<in> (parent_edges d)\<^sup>+}
   \<and> (is_ancestor d a i \<longleftrightarrow> a \<noteq> i \<and> (a, i) \<in> (parent_edges d)\<^sup>+)"
proof
  have "(a, i) \<in> (parent_edges d)\<^sup>+ \<longleftrightarrow> (\<exists>p. (p, i) \<in> parent_edges d \<and> (a, p) \<in> (parent_edges d)\<^sup>*)" for a
    by (meson rtrancl_into_trancl1 tranclD2)
  then show "fset (get_ancestors d i) = {a. (a, i) \<in> (parent_edges d)\<^sup>+}"
    unfolding get_ancestors_def ancestors_loop_eq
    by (cases "fmlookup (events d) i") (auto simp: parent_edges_iff)
  have "(\<exists>c. c |\<in>| ancestors_loop d {||} [i] \<and> (a, c) \<in> parent_edges d)
      \<longleftrightarrow> (a, i) \<in> (parent_edges d)\<^sup>+"
    using ancestors_loop_eq [of d "[i]"] by (auto intro: rtrancl_into_trancl2 dest: tranclD)
  then show "is_ancestor d a i \<longleftrightarrow> a \<noteq> i \<and> (a, i) \<in> (parent_edges d)\<^sup>+"
    by (simp add: is_ancestor_def ancestor_loop_eq)
qed

section \<open>Well-formedness\<close>

text \<open>
  Every stored event has a depth, at most the maximal one, and is stored under its id; tips and
  pending events are stored; a recorded child is a stored event that names the recorded, stored
  parent, and such a parent is no tip.
\<close>

definition dag_inv :: "dag \<Rightarrow> bool" where
  "dag_inv d \<longleftrightarrow>
     fmdom (depths d) = fmdom (events d) \<and>
     tips d |\<subseteq>| fmdom (events d) \<and> pending d |\<subseteq>| fmdom (events d) \<and>
     (\<forall>i e. fmlookup (events d) i = Some e \<longrightarrow> ev_id e = i) \<and>
     (\<forall>i x. fmlookup (depths d) i = Some x \<longrightarrow> x \<le> max_depth d) \<and>
     (\<forall>p c. c |\<in>| child_set (children d) p \<longrightarrow>
        (p, c) \<in> parent_edges d \<and> p |\<in>| fmdom (events d) \<and> p |\<notin>| tips d)"

lemma dag_inv_new: "dag_inv dag_new"
  by (simp add: dag_inv_def dag_new_def child_set_def)

lemma link_parent_simps [simp]:
  "events (link_parent i p d) = events d"
  "depths (link_parent i p d) = depths d"
  "max_depth (link_parent i p d) = max_depth d"
  "pending (link_parent i p d) = pending d"
  "dag_contains (link_parent i p d) = dag_contains d"
  by (simp_all add: link_parent_def dag_contains_def fun_eq_iff)

lemma fold_link_simps [simp]:
  "events (fold (link_parent i) ps d) = events d"
  "depths (fold (link_parent i) ps d) = depths d"
  "max_depth (fold (link_parent i) ps d) = max_depth d"
  "pending (fold (link_parent i) ps d) = pending d"
  by (induction ps arbitrary: d) simp_all

lemma child_set_upd [simp]:
  "child_set (fmupd q s m) p = (if p = q then s else child_set m p)"
  "child_set (fmdrop q m) p = (if p = q then {||} else child_set m p)"
  by (simp_all add: child_set_def)

lemma fold_link_children:
  "child_set (children (fold (link_parent i) ps d)) p =
     (if p \<in> set ps then finsert i (child_set (children d) p) else child_set (children d) p)"
  by (induction ps arbitrary: d) (auto simp: link_parent_def)

lemma fold_link_tips: "tips (fold (link_parent i) ps d) = tips d |-| fset_of_list ps"
  by (induction ps arbitrary: d) (auto simp: link_parent_def)

lemma add_event_with_depth_filter:
  "fold (\<lambda>p d'. if dag_contains d' p then link_parent i p d' else d') ps d
     = fold (link_parent i) (filter (dag_contains d) ps) d"
proof (induction ps arbitrary: d)
  case (Cons p ps)
  then show ?case
    using link_parent_simps(5) [of i p d] by (auto simp del: link_parent_simps(5))
qed simp

lemma store_event_inv:
  assumes inv: "dag_inv d" and new: "\<not> dag_contains d (ev_id e)"
    and ps: "set ps \<subseteq> set (parent_ids e)" "\<forall>p\<in>set ps. dag_contains d p"
  shows "dag_inv (store_event (fold (link_parent (ev_id e)) ps d) e depth)"
proof -
  let ?d = "store_event (fold (link_parent (ev_id e)) ps d) e depth"
  have old: "ev_id e |\<notin>| fmdom (events d)"
    using new by (simp add: dag_contains_def fmdom_notI)
  have dom: "p |\<in>| fmdom (events d)" if "p \<in> set ps" for p
    using ps(2) that by (auto simp: dag_contains_def intro: fmdomI)
  have edges: "(p, c) \<in> parent_edges ?d" if "(p, c) \<in> parent_edges d" for p c
    using that old by (auto simp: parent_edges_iff store_event_def intro: fmdomI)
  have "(p, c) \<in> parent_edges ?d \<and> p |\<in>| fmdom (events ?d) \<and> p |\<notin>| tips ?d"
    if "c |\<in>| child_set (children ?d) p" for p c
  proof (cases "p \<in> set ps \<and> c = ev_id e")
    case True
    then show ?thesis
      using ps(1) dom old
      by (auto simp: parent_edges_iff store_event_def fold_link_tips fset_of_list_elem)
  next
    case False
    then have "c |\<in>| child_set (children d) p"
      using that by (auto simp: store_event_def fold_link_children split: if_splits)
    then show ?thesis
      using inv edges old
      by (auto simp: dag_inv_def store_event_def fold_link_tips)
  qed
  moreover have "x \<le> max_depth ?d" if "fmlookup (depths ?d) i = Some x" for i x
    using that inv by (auto simp: dag_inv_def store_event_def le_max_iff_disj split: if_splits)
  moreover have "tips ?d |\<subseteq>| fmdom (events ?d)" "pending ?d |\<subseteq>| fmdom (events ?d)"
    "fmdom (depths ?d) = fmdom (events ?d)"
    using inv by (auto simp: dag_inv_def store_event_def fold_link_tips)
  moreover have "ev_id x = i" if "fmlookup (events ?d) i = Some x" for i x
    using that inv by (auto simp: dag_inv_def store_event_def split: if_splits)
  ultimately show ?thesis
    by (simp add: dag_inv_def)
qed

lemma parent_depth_loop_ok:
  "parent_depth_loop d ps acc = Inr m \<Longrightarrow> (\<forall>p\<in>set ps. dag_contains d p
     \<and> (case fmlookup (depths d) p of None \<Rightarrow> 0 | Some x \<Rightarrow> x) \<le> m) \<and> acc \<le> m"
  by (induction d ps acc rule: parent_depth_loop.induct) (auto split: if_splits)

lemma parent_depth_loop_attained:
  "parent_depth_loop d ps acc = Inr m \<Longrightarrow> m = acc \<or> (\<exists>p\<in>set ps. fmlookup (depths d) p = Some m) \<or> m = 0"
  by (induction d ps acc rule: parent_depth_loop.induct) (auto split: if_splits option.splits simp: max_def)

lemma dag_add_event_cases:
  obtains (err) err where "dag_add_event d e = (d, Inl err)"
  | (ok) depth where "dag_add_event d e
        = (store_event (fold (link_parent (ev_id e)) (parent_ids e) d) e depth, Inr (ev_id e))"
      "\<not> dag_contains d (ev_id e)" "\<forall>p\<in>set (parent_ids e). dag_contains d p"
      "parent_ids e = [] \<and> depth = 0 \<or> (\<exists>m. parent_ids e \<noteq> [] \<and> depth = m + 1
          \<and> parent_depth_loop d (parent_ids e) 0 = Inr m)"
proof (cases "dag_contains d (ev_id e)")
  case True
  then show thesis
    using err by (simp add: dag_add_event_def)
next
  case new: False
  show thesis
  proof (cases "parent_ids e = []")
    case True
    then show thesis
      using ok [of 0] new by (simp add: dag_add_event_def)
  next
    case False
    show thesis
    proof (cases "parent_depth_loop d (parent_ids e) 0")
      case (Inl a)
      then show thesis
        using err new False by (simp add: dag_add_event_def)
    next
      case (Inr m)
      then show thesis
        using ok [of "m + 1"] new False parent_depth_loop_ok [OF Inr]
        by (simp add: dag_add_event_def)
    qed
  qed
qed

lemma dag_add_event_inv: "dag_inv d \<Longrightarrow> dag_inv (fst (dag_add_event d e))"
  by (cases rule: dag_add_event_cases [of d e]) (auto intro: store_event_inv)

lemma add_event_with_depth_inv: "dag_inv d \<Longrightarrow> dag_inv (fst (add_event_with_depth d e depth))"
  by (auto simp: add_event_with_depth_def add_event_with_depth_filter intro!: store_event_inv)

end
