(* ===== verification/Dag_Runs.thy ===== *)
theory Dag_Runs
  imports Event_Dag
begin

text \<open>
  Properties of runs of DAG operations (\<^verbatim>\<open>consensus/src/dag.rs\<close>): well-formedness after any
  sequence of operations, layering and acyclicity of a growing DAG, and soundness and completeness
  of the garbage collector.
\<close>

section \<open>The remaining operations keep the DAG well-formed\<close>

lemma dag_inv_child:
  "dag_inv d \<Longrightarrow> c |\<in>| child_set (children d) p \<Longrightarrow>
   (p, c) \<in> parent_edges d \<and> p |\<in>| fmdom (events d) \<and> p |\<notin>| tips d"
  unfolding dag_inv_def by blast

lemma set_status_simps [simp]:
  "children (set_status st i d) = children d" "depths (set_status st i d) = depths d"
  "tips (set_status st i d) = tips d" "max_depth (set_status st i d) = max_depth d"
  "pending (set_status st i d) = pending d"
  by (simp_all add: set_status_def split: option.split)

lemma set_status_lookup:
  "fmlookup (events (set_status st i d)) j =
     (if j = i then map_option (\<lambda>e. e\<lparr>status := st\<rparr>) (fmlookup (events d) i)
      else fmlookup (events d) j)"
  by (simp add: set_status_def split: option.split)

lemma set_status_dom [simp]: "fmdom (events (set_status st i d)) = fmdom (events d)"
  by (auto simp: set_status_def intro: fmdomI split: option.split)

lemma set_status_edges [simp]: "parent_edges (set_status st i d) = parent_edges d"
  by (auto simp: parent_edges_def set_status_lookup)

lemma set_status_inv:
  assumes "dag_inv d"
  shows "dag_inv ((set_status st i d)\<lparr>pending := pending d |-| {|i|}\<rparr>)"
proof -
  have "parent_edges (d\<lparr>pending := x\<rparr>) = parent_edges d" for d x
    by (simp add: parent_edges_def)
  moreover have "ev_id e = j" if "fmlookup (events (set_status st i d)) j = Some e" for j e
    using that assms by (auto simp: set_status_lookup dag_inv_def split: if_splits)
  ultimately show ?thesis
    using assms by (auto simp: dag_inv_def)
qed

lemma confirm_event_inv: "dag_inv d \<Longrightarrow> dag_inv (fst (confirm_event d i))"
  by (simp add: confirm_event_def set_status_inv split: option.split)

lemma finalize_one_inv: "dag_inv d \<Longrightarrow> dag_inv (finalize_one i d)"
  by (simp add: finalize_one_def set_status_inv)

lemma finalize_events_inv: "dag_inv d \<Longrightarrow> dag_inv (finalize_events d ids)"
  unfolding finalize_events_def by (induction ids arbitrary: d) (simp_all add: finalize_one_inv)

lemma finalize_up_to_depth_inv: "dag_inv d \<Longrightarrow> dag_inv (finalize_up_to_depth d x)"
proof -
  have "dag_inv (fold (\<lambda>(i, _) d'. case fmlookup (depths d') i of
         Some y \<Rightarrow> if y \<le> x then finalize_one i d' else d'
       | None \<Rightarrow> d') es d)" if "dag_inv d" for es and d :: dag
    using that by (induction es arbitrary: d) (auto simp: finalize_one_inv split: option.split)
  then show "dag_inv d \<Longrightarrow> dag_inv (finalize_up_to_depth d x)"
    by (simp add: finalize_up_to_depth_def)
qed

lemma unlink_parent_simps [simp]:
  "events (unlink_parent i p d) = events d" "depths (unlink_parent i p d) = depths d"
  "tips (unlink_parent i p d) = tips d" "max_depth (unlink_parent i p d) = max_depth d"
  "pending (unlink_parent i p d) = pending d"
  by (simp_all add: unlink_parent_def split: option.split)

lemma fold_unlink_simps [simp]:
  "depths (fold (unlink_parent i) ps d) = depths d" "tips (fold (unlink_parent i) ps d) = tips d"
  "max_depth (fold (unlink_parent i) ps d) = max_depth d"
  "pending (fold (unlink_parent i) ps d) = pending d"
  by (induction ps arbitrary: d) simp_all

lemma fminus_idem: "(s |-| {|i|}) |-| {|i|} = s |-| {|i|}"
  by auto

lemma fold_unlink_children:
  "child_set (children (fold (unlink_parent i) ps d)) p =
     (if p \<in> set ps then child_set (children d) p |-| {|i|} else child_set (children d) p)"
proof (induction ps arbitrary: d)
  case (Cons q ps)
  have "child_set (children (unlink_parent i q d)) p =
      (if p = q then child_set (children d) p |-| {|i|} else child_set (children d) p)"
    by (auto simp: unlink_parent_def child_set_def split: option.split)
  then have "child_set (children (fold (unlink_parent i) ps (unlink_parent i q d))) p =
      (if p = q \<or> p \<in> set ps then child_set (children d) p |-| {|i|} else child_set (children d) p)"
    unfolding Cons by (cases "p = q") (simp_all add: fminus_idem)
  then show ?case
    by simp
qed simp

text \<open>A successful removal takes the event out of everything, and nothing else.\<close>

lemma remove_event_Some:
  assumes "dag_inv d" "remove_event d i = (d', Some ps)"
  shows "\<exists>e. fmlookup (events d) i = Some e \<and> ps = parent_ids e"
    and "\<not> has_active_children d i"
    and "events d' = fmdrop i (events d)" "depths d' = fmdrop i (depths d)"
    and "tips d' = tips d |-| {|i|}" "pending d' = pending d |-| {|i|}" "max_depth d' = max_depth d"
    and "child_set (children d') p = (if p = i then {||} else child_set (children d) p |-| {|i|})"
proof -
  obtain e where e: "fmlookup (events d) i = Some e" "ps = parent_ids e" "\<not> has_active_children d i"
    using assms(2) by (auto simp: remove_event_def Let_def split: if_splits option.splits)
  then show "\<exists>e. fmlookup (events d) i = Some e \<and> ps = parent_ids e" "\<not> has_active_children d i"
    by simp_all
  from e have d': "d' = (let d1 = d\<lparr>events := fmdrop i (events d), depths := fmdrop i (depths d),
                        tips := tips d |-| {|i|}, pending := pending d |-| {|i|}\<rparr>;
                 d2 = fold (unlink_parent i) ps d1
             in d2\<lparr>children := fmdrop i (children d2)\<rparr>)"
    using assms(2) by (auto simp: remove_event_def Let_def)
  show "events d' = fmdrop i (events d)" "depths d' = fmdrop i (depths d)"
    "tips d' = tips d |-| {|i|}" "pending d' = pending d |-| {|i|}" "max_depth d' = max_depth d"
    by (simp_all add: d' Let_def)
  have "i |\<in>| child_set (children d) p \<Longrightarrow> p \<in> set ps"
    using dag_inv_child [OF assms(1)] e(1,2) by (fastforce simp: parent_edges_iff)
  then show "child_set (children d') p = (if p = i then {||} else child_set (children d) p |-| {|i|})"
    by (auto simp: d' Let_def fold_unlink_children)
qed

lemma remove_event_inv:
  assumes "dag_inv d"
  shows "dag_inv (fst (remove_event d i))"
proof (cases "remove_event d i")
  case (Pair d' r)
  show ?thesis
  proof (cases r)
    case None
    then have "d' = d"
      using Pair by (auto simp: remove_event_def Let_def split: if_splits option.splits)
    then show ?thesis
      using Pair assms by simp
  next
    case (Some ps)
    note r = remove_event_Some [OF assms Pair [unfolded Some]]
    have edges: "(p, c) \<in> parent_edges d' \<longleftrightarrow> (p, c) \<in> parent_edges d \<and> c \<noteq> i" for p c
      by (auto simp: parent_edges_iff r(3))
    have "(p, c) \<in> parent_edges d' \<and> p |\<in>| fmdom (events d') \<and> p |\<notin>| tips d'"
      if "c |\<in>| child_set (children d') p" for p c
    proof -
      have "p \<noteq> i" "c \<noteq> i" "c |\<in>| child_set (children d) p"
        using that by (auto simp: r(8) split: if_splits)
      then show ?thesis
        using dag_inv_child [OF assms, of c p] edges by (simp add: r)
    qed
    moreover have "fmdom (depths d') = fmdom (events d')" "tips d' |\<subseteq>| fmdom (events d')"
      "pending d' |\<subseteq>| fmdom (events d')"
      using assms by (auto simp: dag_inv_def r)
    moreover have "ev_id e = j" if "fmlookup (events d') j = Some e" for j e
      using that assms by (auto simp: dag_inv_def r split: if_splits)
    moreover have "x \<le> max_depth d'" if "fmlookup (depths d') j = Some x" for j x
      using that assms by (auto simp: dag_inv_def r split: if_splits)
    ultimately show ?thesis
      using Pair by (simp add: dag_inv_def)
  qed
qed

lemma gc_loop_inv: "dag_inv d \<Longrightarrow> dag_inv (fst (gc_loop targets queue d st))"
proof (induction targets queue d st rule: gc_loop.induct)
  case (2 targets i queue d st)
  then show ?case
    using remove_event_inv [OF "2.prems", of i] by (auto split: prod.split option.split)
qed simp

lemma gc_finalized_events_inv: "dag_inv d \<Longrightarrow> dag_inv (fst (gc_finalized_events d ids))"
  by (simp add: gc_finalized_events_def gc_loop_inv)

section \<open>Runs\<close>

datatype dag_op =
    AddEvent event
  | AddWithDepth event u64
  | Confirm event_id
  | FinalizeIds "event_id list"
  | FinalizeUpTo u64
  | Remove event_id
  | CollectGarbage "event_id list"

fun dag_step :: "dag \<Rightarrow> dag_op \<Rightarrow> dag" where
  "dag_step d (AddEvent e) = fst (dag_add_event d e)"
| "dag_step d (AddWithDepth e x) = fst (add_event_with_depth d e x)"
| "dag_step d (Confirm i) = fst (confirm_event d i)"
| "dag_step d (FinalizeIds ids) = finalize_events d ids"
| "dag_step d (FinalizeUpTo x) = finalize_up_to_depth d x"
| "dag_step d (Remove i) = fst (remove_event d i)"
| "dag_step d (CollectGarbage ids) = fst (gc_finalized_events d ids)"

definition dag_run :: "dag_op list \<Rightarrow> dag" where
  "dag_run ops = foldl dag_step dag_new ops"

lemma dag_step_inv: "dag_inv d \<Longrightarrow> dag_inv (dag_step d x)"
  by (cases x) (simp_all add: dag_add_event_inv add_event_with_depth_inv confirm_event_inv
      finalize_events_inv finalize_up_to_depth_inv remove_event_inv gc_finalized_events_inv)

lemma dag_run_inv: "dag_inv (dag_run ops)"
proof -
  have "dag_inv d \<Longrightarrow> dag_inv (foldl dag_step d ops)" for d
    by (induction ops arbitrary: d) (simp_all add: dag_step_inv)
  then show ?thesis
    by (simp add: dag_run_def dag_inv_new)
qed

text \<open>
  C20: whatever sequence of operations is applied to a new DAG, its maps and sets stay consistent:
  every stored event has a depth, at most \<open>max_depth\<close>, and is stored under its own id; tips and
  pending events are stored; each recorded child is stored and names its recorded parent, which is
  stored and no tip.
\<close>

theorem dag_well_formed:
  "let d = dag_run ops in
     fmdom (depths d) = fmdom (events d) \<and>
     tips d |\<subseteq>| fmdom (events d) \<and> pending d |\<subseteq>| fmdom (events d) \<and>
     (\<forall>i e. fmlookup (events d) i = Some e \<longrightarrow> ev_id e = i) \<and>
     (\<forall>i x. fmlookup (depths d) i = Some x \<longrightarrow> x \<le> max_depth d) \<and>
     (\<forall>p c. c |\<in>| get_children d p \<longrightarrow>
        (p, c) \<in> parent_edges d \<and> p |\<in>| fmdom (events d) \<and> p |\<notin>| tips d)"
  using dag_run_inv [of ops] unfolding dag_inv_def get_children_def Let_def .

section \<open>A growing DAG is layered\<close>

definition layered :: "dag \<Rightarrow> bool" where
  "layered d \<longleftrightarrow>
     (\<forall>p c. (p, c) \<in> parent_edges d \<longrightarrow>
        (\<exists>x y. fmlookup (depths d) p = Some x \<and> fmlookup (depths d) c = Some y \<and> x < y)) \<and>
     (\<forall>i x. fmlookup (depths d) i = Some x \<longrightarrow> unat x < fmlen (events d))"

lemma layered_cong:
  "parent_edges d' = parent_edges d \<Longrightarrow> depths d' = depths d \<Longrightarrow> fmdom (events d') = fmdom (events d)
   \<Longrightarrow> layered d' = layered d"
  by (simp add: layered_def)

lemma finalize_one_same [simp]:
  "parent_edges (finalize_one i d) = parent_edges d" "depths (finalize_one i d) = depths d"
  "fmdom (events (finalize_one i d)) = fmdom (events d)"
proof -
  have "parent_edges (d\<lparr>pending := x\<rparr>) = parent_edges d" for d x
    by (simp add: parent_edges_def)
  then show "parent_edges (finalize_one i d) = parent_edges d" "depths (finalize_one i d) = depths d"
    "fmdom (events (finalize_one i d)) = fmdom (events d)"
    by (simp_all add: finalize_one_def)
qed

definition same_graph :: "dag \<Rightarrow> dag \<Rightarrow> bool" where
  "same_graph d' d \<longleftrightarrow> parent_edges d' = parent_edges d \<and> depths d' = depths d
     \<and> fmdom (events d') = fmdom (events d)"

lemma finalize_events_same: "same_graph (finalize_events d ids) d"
  unfolding finalize_events_def same_graph_def by (induction ids arbitrary: d) simp_all

lemma finalize_up_to_depth_same: "same_graph (finalize_up_to_depth d x) d"
proof -
  have "same_graph (fold (\<lambda>(i, _) d'. case fmlookup (depths d') i of
         Some y \<Rightarrow> if y \<le> x then finalize_one i d' else d'
       | None \<Rightarrow> d') es d) d" for es :: "(event_id \<times> event) list" and d :: dag
    by (induction es arbitrary: d) (simp_all add: same_graph_def split_beta split: option.split)
  then show ?thesis
    by (simp add: finalize_up_to_depth_def)
qed

lemma confirm_event_same: "same_graph (fst (confirm_event d i)) d"
proof -
  have "parent_edges (d\<lparr>pending := x\<rparr>) = parent_edges d" for d x
    by (simp add: parent_edges_def)
  then show ?thesis
    by (simp add: same_graph_def confirm_event_def split: option.split)
qed

lemma new_event_depth:
  assumes "dag_inv d" "layered d" "fmlen (events d) < 2 ^ 64"
    and "parent_ids e \<noteq> []" "parent_depth_loop d (parent_ids e) 0 = Inr m"
  shows "unat (m + 1) = Suc (unat m)" "unat m < fmlen (events d)"
    and "p \<in> set (parent_ids e) \<Longrightarrow> \<exists>x. fmlookup (depths d) p = Some x \<and> x < m + 1"
proof -
  note ok = parent_depth_loop_ok [OF assms(5)]
  have depth: "\<exists>x. fmlookup (depths d) p = Some x" if "p \<in> set (parent_ids e)" for p
    using that ok assms(1) by (metis dag_contains_def dag_inv_def fmdomI fmlookup_dom_iff not_None_eq)
  show m: "unat m < fmlen (events d)"
    using parent_depth_loop_attained [OF assms(5)]
  proof (elim disjE bexE)
    show ?thesis if "fmlookup (depths d) p = Some m" for p
      using that assms(2) by (auto simp: layered_def)
  qed (use depth assms(2,4) in \<open>(metis layered_def gr_zeroI hd_in_set not_less_zero unat_0)+\<close>)
  then have "m \<noteq> - 1"
    using assms(3) by (auto simp: unsigned_minus_1_eq_mask mask_eq_exp_minus_1)
  then show inc: "unat (m + 1) = Suc (unat m)"
    by (rule unat_inc)
  show "\<exists>x. fmlookup (depths d) p = Some x \<and> x < m + 1" if p: "p \<in> set (parent_ids e)"
  proof -
    obtain x where x: "fmlookup (depths d) p = Some x"
      using depth [OF p] by blast
    then have "x \<le> m"
      using ok p by fastforce
    then have "x < m + 1"
      using inc by (simp add: word_less_nat_alt word_le_nat_alt)
    with x show ?thesis
      by blast
  qed
qed

lemma dag_add_event_layered:
  assumes "dag_inv d" "layered d" "fmlen (events d) < 2 ^ 64"
  shows "layered (fst (dag_add_event d e)) \<and> fmlen (events (fst (dag_add_event d e))) \<le> Suc (fmlen (events d))"
proof (cases rule: dag_add_event_cases [of d e])
  case (err x)
  then show ?thesis
    using assms by simp
next
  case (ok depth)
  let ?d = "fst (dag_add_event d e)" and ?i = "ev_id e"
  have new: "?i |\<notin>| fmdom (events d)"
    using ok(2) by (simp add: dag_contains_def fmdom_notI)
  have d: "events ?d = fmupd ?i e (events d)" "depths ?d = fmupd ?i depth (depths d)"
    by (simp_all add: ok(1) store_event_def)
  have len: "fmlen (events ?d) = Suc (fmlen (events d))"
    using new by (simp add: d fcard_finsert_disjoint)
  have edges: "(p, c) \<in> parent_edges ?d \<longleftrightarrow>
      (if c = ?i then p \<in> set (parent_ids e) else (p, c) \<in> parent_edges d)" for p c
    by (auto simp: parent_edges_iff d)
  have depth: "unat depth \<le> fmlen (events d) \<and>
    (\<forall>p\<in>set (parent_ids e). \<exists>x. fmlookup (depths d) p = Some x \<and> x < depth)"
    using ok(4)
  proof
    assume "\<exists>m. parent_ids e \<noteq> [] \<and> depth = m + 1 \<and> parent_depth_loop d (parent_ids e) 0 = Inr m"
    then obtain m where m: "parent_ids e \<noteq> []" "parent_depth_loop d (parent_ids e) 0 = Inr m"
      and "depth = m + 1"
      by blast
    then show ?thesis
      using new_event_depth [OF assms m] by simp
  qed simp
  have "\<exists>x y. fmlookup (depths ?d) p = Some x \<and> fmlookup (depths ?d) c = Some y \<and> x < y"
    if "(p, c) \<in> parent_edges ?d" for p c
  proof (cases "c = ?i")
    case True
    then have "p \<in> set (parent_ids e)"
      using that edges by simp
    moreover from this have "p \<noteq> ?i"
      using ok(2,3) by auto
    ultimately show ?thesis
      using depth True by (auto simp: d)
  next
    case False
    then have "(p, c) \<in> parent_edges d"
      using that edges by simp
    then obtain x y where "fmlookup (depths d) p = Some x" "fmlookup (depths d) c = Some y" "x < y"
      using assms(2) unfolding layered_def by blast
    moreover from this have "p \<noteq> ?i"
      using new assms(1) by (metis dag_inv_def fmdomI)
    ultimately show ?thesis
      using False by (simp add: d)
  qed
  moreover have "unat x < fmlen (events ?d)" if "fmlookup (depths ?d) i = Some x" for i x
    using that depth assms(2) unfolding len layered_def
    by (cases "i = ?i") (auto simp: d less_Suc_eq)
  ultimately show ?thesis
    using len by (simp add: layered_def)
qed

fun growing :: "dag_op \<Rightarrow> bool" where
  "growing (AddEvent e) = True"
| "growing (Confirm i) = True"
| "growing (FinalizeIds ids) = True"
| "growing (FinalizeUpTo x) = True"
| "growing x = False"

lemma dag_step_layered:
  assumes "dag_inv d" "layered d" "fmlen (events d) < 2 ^ 64" "growing x"
  shows "layered (dag_step d x) \<and> fmlen (events (dag_step d x)) \<le> Suc (fmlen (events d))"
proof -
  have "layered d' \<and> fmlen (events d') \<le> Suc (fmlen (events d))" if "same_graph d' d" for d'
    using that layered_cong [of d' d] assms(2) by (simp add: same_graph_def)
  then show ?thesis
    using assms dag_add_event_layered
    by (cases x) (simp_all add: confirm_event_same finalize_events_same finalize_up_to_depth_same)
qed

lemma dag_run_layered:
  "list_all growing ops \<Longrightarrow> length ops < 2 ^ 64 \<Longrightarrow>
   layered (dag_run ops) \<and> fmlen (events (dag_run ops)) \<le> length ops"
proof (induction ops rule: rev_induct)
  case Nil
  then show ?case
    by (simp add: dag_run_def dag_new_def layered_def parent_edges_def)
next
  case (snoc x ops)
  then have "layered (dag_run ops)" "fmlen (events (dag_run ops)) < 2 ^ 64" "growing x"
    "fmlen (events (dag_run ops)) \<le> length ops"
    by auto
  then show ?case
    using dag_step_layered [OF dag_run_inv [of ops], of x] by (auto simp: dag_run_def)
qed

text \<open>
  C21: as long as events are only added through \<open>add_event\<close> and confirmed or finalized (fewer than
  \<open>2 ^ 64\<close> operations), every parent of a stored event is stored and has a strictly smaller depth, so
  the parent relation has no cycle.
\<close>

theorem growing_dag_acyclic:
  assumes "list_all growing ops" and "length ops < 2 ^ 64"
  shows "acyclic (parent_edges (dag_run ops)) \<and>
    (\<forall>p c. (p, c) \<in> parent_edges (dag_run ops) \<longrightarrow>
       (\<exists>x y. get_depth (dag_run ops) p = Some x \<and> get_depth (dag_run ops) c = Some y \<and> x < y))"
proof -
  let ?d = "dag_run ops"
  have edge: "\<exists>x y. get_depth ?d p = Some x \<and> get_depth ?d c = Some y \<and> x < y"
    if "(p, c) \<in> parent_edges ?d" for p c
    using that dag_run_layered [OF assms] by (simp add: layered_def get_depth_def)
  have path: "\<exists>x y. get_depth ?d p = Some x \<and> get_depth ?d c = Some y \<and> x < y"
    if "(p, c) \<in> (parent_edges ?d)\<^sup>+" for p c
    using that
  proof (induction rule: trancl_induct)
    case (step y z)
    then show ?case
      using edge [of y z] by fastforce
  qed (rule edge)
  have "(c, c) \<notin> (parent_edges ?d)\<^sup>+" for c
    using path [of c c] by auto
  with edge show ?thesis
    unfolding acyclic_def by blast
qed

definition sample_event :: "event_id \<Rightarrow> event_id list \<Rightarrow> event" where
  "sample_event i ps = \<lparr>ev_id = i, event_type = TransferEvent, parent_ids = ps, ev_subnet = None,
     ev_vlc = vlc_new 0, creator = ''v'', status = Pending, ev_result = None, ev_timestamp = 0\<rparr>"

theorem growing_dag_acyclic_witness:
  "acyclic (parent_edges (dag_run
     [AddEvent (sample_event ''g'' []), AddEvent (sample_event ''a'' [''g'']), FinalizeUpTo 0]))"
  using growing_dag_acyclic [of "[AddEvent (sample_event ''g'' []),
     AddEvent (sample_event ''a'' [''g'']), FinalizeUpTo 0]"]
  by simp

section \<open>Garbage collection\<close>

lemma has_active_children_iff:
  "has_active_children d i \<longleftrightarrow> (\<exists>c. c |\<in>| child_set (children d) i \<and> is_active d c)"
  by (auto simp: has_active_children_def child_set_def split: option.split)

lemma remove_event_cases:
  assumes "dag_inv d"
  obtains (kept) "remove_event d i = (d, None)" "dag_contains d i \<Longrightarrow> has_active_children d i"
  | (gone) d' e where "remove_event d i = (d', Some (parent_ids e))" "fmlookup (events d) i = Some e"
      "\<not> has_active_children d i" "dag_inv d'" "events d' = fmdrop i (events d)"
      "\<And>p. child_set (children d') p = (if p = i then {||} else child_set (children d) p |-| {|i|})"
proof (cases "has_active_children d i \<or> fmlookup (events d) i = None")
  case True
  then show thesis
    by (intro kept) (auto simp: remove_event_def dag_contains_def)
next
  case False
  then obtain e where e: "fmlookup (events d) i = Some e" "\<not> has_active_children d i"
    by auto
  then obtain d' where d': "remove_event d i = (d', Some (parent_ids e))"
    by (simp add: remove_event_def Let_def)
  then have "dag_inv d'"
    using remove_event_inv [OF assms, of i] by simp
  then show thesis
    using gone [OF d' e] remove_event_Some(3,8) [OF assms d'] by blast
qed

text \<open>Nothing is added or changed, and the counter counts what is gone.\<close>

lemma gc_loop_restricts:
  "dag_inv d \<Longrightarrow> gc_loop targets queue d st = (d', st') \<Longrightarrow>
   (\<forall>i. fmlookup (events d') i = None \<or> fmlookup (events d') i = fmlookup (events d) i)
   \<and> fmlen (events d') + removed st' = fmlen (events d) + removed st"
proof (induction targets queue d st rule: gc_loop.induct)
  case (2 targets i queue d st)
  show ?case
    using "2.prems"(1)
  proof (cases rule: remove_event_cases [where i = i])
    case kept
    then show ?thesis
      using 2(1) [OF kept(1) [symmetric] refl "2.prems"(1)] "2.prems"(2) by (auto split: if_splits)
  next
    case (gone d1 e)
    have "i |\<in>| fmdom (events d)"
      using gone(2) by (rule fmdomI)
    then have "Suc (fmlen (events d1)) = fmlen (events d)"
      using card_Suc_Diff1 [of "fset (fmdom (events d))" i] by (simp add: gone(5) fcard.rep_eq)
    then show ?thesis
      using 2(2) [OF gone(1) [symmetric] refl gone(4)] "2.prems"(2) gone(1,5) by (auto split: if_splits)
  qed
qed simp

text \<open>Only events of the queue and finalized events go.\<close>

lemma gc_loop_removes:
  assumes "dag_inv d" "gc_loop targets queue d st = (d', st')"
    and "fmlookup (events d) i = Some e" "fmlookup (events d') i = None"
  shows "i \<in> set queue \<or> status e = Finalized"
  using assms
proof (induction targets queue d st rule: gc_loop.induct)
  case (2 targets j queue d st)
  show ?case
    using "2.prems"(1)
  proof (cases rule: remove_event_cases [where i = j])
    case kept
    then show ?thesis
      using 2(1) [OF kept(1) [symmetric] refl "2.prems"(1)] "2.prems"(2-4) by (auto split: if_splits)
  next
    case (gone d1 e1)
    show ?thesis
    proof (cases "i = j")
      case False
      then have "i \<in> set (queue @ gc_push d1 (parent_ids e1)) \<or> status e = Finalized"
        using 2(2) [OF gone(1) [symmetric] refl gone(4)] "2.prems"(2-4) gone(1,5) by simp
      then show ?thesis
        using False "2.prems"(3) by (auto simp: gc_push_def gone(5) split: option.splits)
    qed simp
  qed
qed simp

text \<open>A recorded child that survives its removed parent is finalized.\<close>

lemma gc_loop_children:
  assumes "dag_inv d" "gc_loop targets queue d st = (d', st')"
    and "fmlookup (events d) i = Some e" "fmlookup (events d') i = None"
    and "c |\<in>| child_set (children d) i" "fmlookup (events d') c = Some x"
  shows "status x = Finalized"
  using assms
proof (induction targets queue d st rule: gc_loop.induct)
  case (2 targets j queue d st)
  show ?case
    using "2.prems"(1)
  proof (cases rule: remove_event_cases [where i = j])
    case kept
    then show ?thesis
      using 2(1) [OF kept(1) [symmetric] refl "2.prems"(1)] "2.prems"(2-6) by (auto split: if_splits)
  next
    case (gone d1 e1)
    have run: "gc_loop targets (queue @ gc_push d1 (parent_ids e1)) d1 (st\<lparr>removed := removed st + 1\<rparr>)
        = (d', st')"
      using "2.prems"(2) gone(1) by simp
    have "fmlookup (events d1) c = Some x"
      using gc_loop_restricts [OF gone(4) run] "2.prems"(6) by (metis option.distinct(1))
    then have c: "c \<noteq> j" "fmlookup (events d) c = Some x"
      by (auto simp: gone(5) split: if_splits)
    show ?thesis
    proof (cases "i = j")
      case True
      then show ?thesis
        using gone(3) "2.prems"(5) c(2) by (auto simp: has_active_children_iff is_active_def)
    next
      case False
      then show ?thesis
        using 2(2) [OF gone(1) [symmetric] refl gone(4) run] "2.prems"(3-6) c
        by (simp add: gone(5,6))
    qed
  qed
qed simp

text \<open>An active child protects its parent for good, if only finalized events are in the queue.\<close>

definition queue_final :: "dag \<Rightarrow> event_id list \<Rightarrow> bool" where
  "queue_final d queue \<longleftrightarrow> (\<forall>i\<in>set queue. \<not> is_active d i)"

lemma queue_final_drop:
  assumes "queue_final d (j # queue)" "events d1 = fmdrop j (events d)"
  shows "queue_final d1 (queue @ gc_push d1 ps)"
  using assms by (auto simp: queue_final_def is_active_def gc_push_def split: option.splits if_splits)

lemma gc_loop_protects:
  assumes "dag_inv d" "gc_loop targets queue d st = (d', st')" "queue_final d queue"
    and "has_active_children d i"
  shows "has_active_children d' i"
  using assms
proof (induction targets queue d st rule: gc_loop.induct)
  case (2 targets j queue d st)
  have final: "queue_final d queue"
    using "2.prems"(3) by (simp add: queue_final_def)
  show ?case
    using "2.prems"(1)
  proof (cases rule: remove_event_cases [where i = j])
    case kept
    then show ?thesis
      using 2(1) [OF kept(1) [symmetric] refl "2.prems"(1)] "2.prems"(2,4) final
      by (auto split: if_splits)
  next
    case (gone d1 e1)
    obtain c where c: "c |\<in>| child_set (children d) i" "is_active d c"
      using "2.prems"(4) by (auto simp: has_active_children_iff)
    have "i \<noteq> j" "c \<noteq> j"
      using gone(3) "2.prems"(3,4) c(2) by (auto simp: queue_final_def)
    then have "has_active_children d1 i"
      using c by (auto simp: has_active_children_iff gone(5,6) is_active_def split: option.splits)
    then show ?thesis
      using 2(2) [OF gone(1) [symmetric] refl gone(4)] "2.prems"(2) gone(1)
        queue_final_drop [OF "2.prems"(3) gone(5)] by simp
  qed
qed simp

lemma gc_loop_complete:
  assumes "dag_inv d" "gc_loop targets queue d st = (d', st')" "queue_final d queue"
    and "i \<in> set queue" "dag_contains d' i"
  shows "has_active_children d' i"
  using assms
proof (induction targets queue d st rule: gc_loop.induct)
  case (2 targets j queue d st)
  have final: "queue_final d queue"
    using "2.prems"(3) by (simp add: queue_final_def)
  show ?case
    using "2.prems"(1)
  proof (cases rule: remove_event_cases [where i = j])
    case kept
    let ?st = "if j \<in> set targets \<and> dag_contains d j then st\<lparr>retained := retained st + 1\<rparr> else st"
    have run: "gc_loop targets queue d ?st = (d', st')"
      using "2.prems"(2) kept(1) by simp
    show ?thesis
    proof (cases "i = j")
      case True
      then have "dag_contains d i"
        using gc_loop_restricts [OF "2.prems"(1) run] "2.prems"(5) by (metis dag_contains_def)
      then show ?thesis
        using gc_loop_protects [OF "2.prems"(1) run final] kept(2) True by simp
    next
      case False
      then show ?thesis
        using 2(1) [OF kept(1) [symmetric] refl "2.prems"(1) run final] "2.prems"(4,5) by simp
    qed
  next
    case (gone d1 e1)
    have run: "gc_loop targets (queue @ gc_push d1 (parent_ids e1)) d1 (st\<lparr>removed := removed st + 1\<rparr>)
        = (d', st')"
      using "2.prems"(2) gone(1) by simp
    have "i \<noteq> j"
      using gc_loop_restricts [OF gone(4) run] "2.prems"(5)
      by (metis dag_contains_def fmlookup_drop gone(5))
    then show ?thesis
      using 2(2) [OF gone(1) [symmetric] refl gone(4) run queue_final_drop [OF "2.prems"(3) gone(5)]]
        "2.prems"(4,5) by simp
  qed
qed simp

text \<open>
  C18: garbage collection is safe. On any reachable DAG it only removes events, changes no other,
  and counts what it removed. It removes only requested or finalized events, and never an event
  with a recorded child that is still in the DAG and not finalized.
\<close>

theorem gc_safe:
  assumes "gc_finalized_events (dag_run ops) ids = (d', st)"
  defines "d \<equiv> dag_run ops"
  shows "(\<forall>i. fmlookup (events d') i = None \<or> fmlookup (events d') i = fmlookup (events d) i)
    \<and> node_count d' + removed st = node_count d
    \<and> (\<forall>i e. fmlookup (events d) i = Some e \<and> fmlookup (events d') i = None \<longrightarrow>
         (i \<in> set ids \<or> status e = Finalized) \<and>
         (\<forall>c x. c |\<in>| get_children d i \<and> fmlookup (events d') c = Some x \<longrightarrow> status x = Finalized))"
proof -
  have run: "gc_loop ids ids d \<lparr>removed = 0, retained = 0\<rparr> = (d', st)"
    using assms by (simp add: gc_finalized_events_def)
  have inv: "dag_inv d"
    by (simp add: d_def dag_run_inv)
  show ?thesis
    using gc_loop_restricts [OF inv run] gc_loop_removes [OF inv run] gc_loop_children [OF inv run]
    unfolding node_count_def get_children_def by fastforce
qed

definition sample_ops :: "dag_op list" where
  "sample_ops = [AddEvent (sample_event ''e'' []), AddEvent (sample_event ''a'' [''e'']),
     AddEvent (sample_event ''b'' [''e'']), FinalizeIds [''e'', ''a'']]"

theorem gc_safe_witness:
  "node_count (fst (gc_finalized_events (dag_run sample_ops) [''e'', ''a'']))
     + removed (snd (gc_finalized_events (dag_run sample_ops) [''e'', ''a''])) = 3"
proof -
  have "node_count (dag_run sample_ops) = 3"
    by code_simp
  then show ?thesis
    using gc_safe [of sample_ops "[''e'', ''a'']"
        "fst (gc_finalized_events (dag_run sample_ops) [''e'', ''a''])"
        "snd (gc_finalized_events (dag_run sample_ops) [''e'', ''a''])"]
    by simp
qed

text \<open>
  C19: garbage collection is complete. If all requested events are finalized, as the caller
  guarantees by finalizing them first, then every requested event that is still in the DAG
  afterwards has an active child there.
\<close>

theorem gc_complete:
  assumes "gc_finalized_events (finalize_events (dag_run ops) ids) ids = (d', st)"
    and "i \<in> set ids" and "dag_contains d' i"
  shows "has_active_children d' i"
proof -
  let ?d = "finalize_events (dag_run ops) ids"
  have inv: "dag_inv ?d"
    by (simp add: finalize_events_inv dag_run_inv)
  have keep: "is_active (fold finalize_one js d) j \<Longrightarrow> is_active d j" for js j d
    by (induction js arbitrary: d)
      (fastforce simp: finalize_one_def is_active_def set_status_lookup split: option.splits if_splits)+
  have "\<not> is_active (fold finalize_one js d) j" if "j \<in> set js" for js j d
    using that
  proof (induction js arbitrary: d)
    case (Cons k js)
    have "\<not> is_active (finalize_one k d) k"
      by (simp add: finalize_one_def is_active_def set_status_lookup split: option.split)
    then show ?case
      using Cons keep by auto
  qed simp
  then have "queue_final ?d ids"
    by (simp add: queue_final_def finalize_events_def)
  then show ?thesis
    using gc_loop_complete [OF inv _ _ assms(2,3)] assms(1) by (simp add: gc_finalized_events_def)
qed

theorem gc_complete_witness:
  "has_active_children (fst (gc_finalized_events
     (finalize_events (dag_run sample_ops) [''e'', ''a'']) [''e'', ''a''])) ''e''"
proof -
  have "dag_contains (fst (gc_finalized_events
     (finalize_events (dag_run sample_ops) [''e'', ''a'']) [''e'', ''a''])) ''e''"
    by code_simp
  then show ?thesis
    using gc_complete [of sample_ops "[''e'', ''a'']" _ _ "''e''"]
    by (metis list.set_intros(1) prod.collapse)
qed

text \<open>
  The counter of retained events can count an event twice. The requested event \<open>e\<close> is retained
  because its child \<open>b\<close> is active; after its other child \<open>a\<close> is removed it is queued and counted
  again, so two retained events are reported although only one requested event is left.
\<close>

lemma gc_counts_retained_twice:
  "let (d', st) = gc_finalized_events (dag_run sample_ops) [''e'', ''a'']
   in retained st = 2 \<and> removed st = 1
      \<and> filter (dag_contains d') [''e'', ''a''] = [''e'']"
  by code_simp

theorem dag_well_formed_witness:
  "''a'' |\<in>| get_children (dag_run sample_ops) ''e'' \<and> ''e'' |\<notin>| tips (dag_run sample_ops)"
proof -
  have "''a'' |\<in>| get_children (dag_run sample_ops) ''e''"
    by code_simp
  then show ?thesis
    using dag_well_formed [of sample_ops] by (simp only: Let_def) blast
qed

end
