(* ===== verification/Sparse_Merkle.thy ===== *)
theory Sparse_Merkle
  imports Coin_Object
begin

text \<open>
  The sparse Merkle trees of \<^verbatim>\<open>crates/setu-merkle/src/sparse.rs\<close> and the hash helpers of
  \<^verbatim>\<open>crates/setu-merkle/src/hash.rs\<close>.

  A \<open>HashValue\<close> is the \<open>256 word\<close> of its bytes in big-endian order. \<open>SparseMerkleTree\<close> rebuilds its
  root from all leaves after every change and is the reference; \<open>IncrementalSparseMerkleTree\<close>
  keeps a store of nodes by hash and rewrites one path. Both are modelled with their stores.

  The correctness of the incremental tree is a refinement in two steps. A tree of the datatype
  \<open>stree\<close> is canonical when every inner node has at least two leaves, split by the bit of its
  depth; insertion and removal keep trees canonical, and a canonical tree is determined by its
  leaves. The node store holds the nodes of such a tree under their hashes, as long as the hash
  function has no collision on the nodes that occur.
\<close>

section \<open>Hashes\<close>

type_synonym hash_value = "256 word"

definition hv_bit :: "hash_value \<Rightarrow> nat \<Rightarrow> bool" where
  "hv_bit k i = bit (as_bytes k ! (i div 8)) (7 - i mod 8)"

definition leading_zeros :: "u8 \<Rightarrow> nat" where
  "leading_zeros w = length (takeWhile (\<lambda>j. \<not> bit w j) [7, 6, 5, 4, 3, 2, 1, 0])"

fun common_prefix_loop :: "nat \<Rightarrow> bytes \<Rightarrow> bytes \<Rightarrow> nat" where
  "common_prefix_loop i (x # xs) (y # ys) =
     (if x \<noteq> y then i * 8 + leading_zeros (xor x y) else common_prefix_loop (Suc i) xs ys)"
| "common_prefix_loop i _ _ = i * 8"

definition common_prefix_bits :: "hash_value \<Rightarrow> hash_value \<Rightarrow> nat" where
  "common_prefix_bits a b = common_prefix_loop 0 (as_bytes a) (as_bytes b)"

definition empty_hash :: "ext \<Rightarrow> hash_value" where
  "empty_hash E = blake3 E (str_bytes ''SPARSE_EMPTY'')"

definition hash_sparse_internal :: "ext \<Rightarrow> hash_value \<Rightarrow> hash_value \<Rightarrow> hash_value" where
  "hash_sparse_internal E l r = blake3 E (3 # as_bytes l @ as_bytes r)"

definition hash_sparse_leaf :: "ext \<Rightarrow> hash_value \<Rightarrow> hash_value \<Rightarrow> hash_value" where
  "hash_sparse_leaf E k vh = blake3 E (2 # as_bytes k @ as_bytes vh)"

definition hash_value_of :: "ext \<Rightarrow> bytes \<Rightarrow> hash_value" where
  "hash_value_of E v = blake3 E v"

section \<open>The reference tree\<close>

datatype sparse_merkle_node =
    SEmpty
  | SLeaf hash_value hash_value
  | SInternal hash_value hash_value

fun smn_hash :: "ext \<Rightarrow> sparse_merkle_node \<Rightarrow> hash_value" where
  "smn_hash E SEmpty = empty_hash E"
| "smn_hash E (SLeaf k vh) = hash_sparse_leaf E k vh"
| "smn_hash E (SInternal l r) = hash_sparse_internal E l r"

record sparse_merkle_tree =
  smt_root_hash :: hash_value
  smt_leaves :: "(hash_value, bytes) fmap"
  smt_nodes :: "(hash_value, sparse_merkle_node) fmap"

record leaf_node =
  ln_key :: hash_value
  ln_value_hash :: hash_value

definition ln_hash :: "ext \<Rightarrow> leaf_node \<Rightarrow> hash_value" where
  "ln_hash E n = hash_sparse_leaf E (ln_key n) (ln_value_hash n)"

record sparse_merkle_proof =
  siblings :: "hash_value list"
  proof_leaf :: "leaf_node option"

function compute_subtree_hash ::
  "ext \<Rightarrow> (hash_value \<times> hash_value) list \<Rightarrow> nat \<Rightarrow> hash_value" where
  "compute_subtree_hash E ls d =
     (if ls = [] then empty_hash E
      else if length ls = 1 then snd (hd ls)
      else if 256 \<le> d then snd (hd ls)
      else hash_sparse_internal E
             (compute_subtree_hash E (filter (\<lambda>(k, _). \<not> hv_bit k d) ls) (d + 1))
             (compute_subtree_hash E (filter (\<lambda>(k, _). hv_bit k d) ls) (d + 1)))"
  by pat_completeness auto

termination by (relation "measure (\<lambda>(E, ls, d). 256 - d)") auto

declare compute_subtree_hash.simps [simp del]

text \<open>\<open>build_subtree\<close> computes the same hash and fills the node cache on the way.\<close>

function build_subtree ::
  "ext \<Rightarrow> (hash_value \<times> hash_value) list \<Rightarrow> nat \<Rightarrow> (hash_value, sparse_merkle_node) fmap
   \<Rightarrow> hash_value \<times> (hash_value, sparse_merkle_node) fmap" where
  "build_subtree E ls d ns =
     (if ls = [] then (empty_hash E, ns)
      else if length ls = 1 then (snd (hd ls), ns)
      else if 256 \<le> d then (snd (hd ls), ns)
      else
        let (lh, ns1) = build_subtree E (filter (\<lambda>(k, _). \<not> hv_bit k d) ls) (d + 1) ns;
            (rh, ns2) = build_subtree E (filter (\<lambda>(k, _). hv_bit k d) ls) (d + 1) ns1;
            h = smn_hash E (SInternal lh rh)
        in (h, fmupd h (SInternal lh rh) ns2))"
  by pat_completeness auto

termination by (relation "measure (\<lambda>(E, ls, d, ns). 256 - d)") auto

declare build_subtree.simps [simp del]

definition leaf_hashes :: "ext \<Rightarrow> (hash_value, bytes) fmap \<Rightarrow> (hash_value \<times> hash_value) list" where
  "leaf_hashes E m = map (\<lambda>(k, v). (k, smn_hash E (SLeaf k (hash_value_of E v)))) (entries m)"

definition smt_new :: "ext \<Rightarrow> sparse_merkle_tree" where
  "smt_new E = \<lparr>smt_root_hash = empty_hash E, smt_leaves = fmempty, smt_nodes = fmempty\<rparr>"

definition rebuild_tree :: "ext \<Rightarrow> sparse_merkle_tree \<Rightarrow> sparse_merkle_tree" where
  "rebuild_tree E t =
     (if smt_leaves t = fmempty
      then t\<lparr>smt_nodes := fmempty, smt_root_hash := empty_hash E\<rparr>
      else let (h, ns) = build_subtree E (sort_key fst (leaf_hashes E (smt_leaves t))) 0 fmempty
           in t\<lparr>smt_nodes := ns, smt_root_hash := h\<rparr>)"

definition smt_get :: "sparse_merkle_tree \<Rightarrow> hash_value \<Rightarrow> bytes option" where
  "smt_get t k = fmlookup (smt_leaves t) k"

definition smt_insert ::
  "ext \<Rightarrow> sparse_merkle_tree \<Rightarrow> hash_value \<Rightarrow> bytes \<Rightarrow> sparse_merkle_tree \<times> bytes option" where
  "smt_insert E t k v =
     (rebuild_tree E (t\<lparr>smt_leaves := fmupd k v (smt_leaves t)\<rparr>), fmlookup (smt_leaves t) k)"

definition smt_remove ::
  "ext \<Rightarrow> sparse_merkle_tree \<Rightarrow> hash_value \<Rightarrow> sparse_merkle_tree \<times> bytes option" where
  "smt_remove E t k =
     (case fmlookup (smt_leaves t) k of
        None \<Rightarrow> (t, None)
      | Some v \<Rightarrow> (rebuild_tree E (t\<lparr>smt_leaves := fmdrop k (smt_leaves t)\<rparr>), Some v))"

definition smt_batch_insert ::
  "ext \<Rightarrow> sparse_merkle_tree \<Rightarrow> (hash_value \<times> bytes) list \<Rightarrow> sparse_merkle_tree" where
  "smt_batch_insert E t es =
     rebuild_tree E (t\<lparr>smt_leaves := fold (\<lambda>(k, v) m. fmupd k v m) es (smt_leaves t)\<rparr>)"

definition smt_snapshot :: "sparse_merkle_tree \<Rightarrow> hash_value \<times> (hash_value, bytes) fmap" where
  "smt_snapshot t = (smt_root_hash t, smt_leaves t)"

definition smt_restore :: "ext \<Rightarrow> hash_value \<times> (hash_value, bytes) fmap \<Rightarrow> sparse_merkle_tree" where
  "smt_restore E s =
     rebuild_tree E \<lparr>smt_root_hash = fst s, smt_leaves = snd s, smt_nodes = fmempty\<rparr>"

section \<open>Proofs\<close>

datatype proof_error =
    NoLeaf | LeafKeyMismatch | ValueHashMismatch | RootMismatch | KeyExists | PathMismatch

text \<open>
  \<open>compute_root_from_leaf\<close> walks the siblings, stored from the root down, in reverse; \<open>d\<close> is the
  depth of the first sibling of the list. \<open>HashValue::bit\<close> panics beyond bit 255, so for a proof with more than 256
  siblings, which no tree returns, the code does not get to a result and the definition says nothing about it.
\<close>

fun root_from :: "ext \<Rightarrow> hash_value \<Rightarrow> nat \<Rightarrow> hash_value list \<Rightarrow> hash_value \<Rightarrow> hash_value" where
  "root_from E k d [] h = h"
| "root_from E k d (s # ss) h =
     (let c = root_from E k (Suc d) ss h
      in if hv_bit k d then hash_sparse_internal E s c else hash_sparse_internal E c s)"

definition compute_root_from_leaf ::
  "ext \<Rightarrow> sparse_merkle_proof \<Rightarrow> hash_value \<Rightarrow> hash_value \<Rightarrow> hash_value" where
  "compute_root_from_leaf E p k h = root_from E k 0 (siblings p) h"

definition verify_inclusion ::
  "ext \<Rightarrow> sparse_merkle_proof \<Rightarrow> hash_value \<Rightarrow> hash_value \<Rightarrow> bytes \<Rightarrow> proof_error + unit" where
  "verify_inclusion E p root k v =
     (case proof_leaf p of
        None \<Rightarrow> Inl NoLeaf
      | Some l \<Rightarrow>
          if ln_key l \<noteq> k then Inl LeafKeyMismatch
          else if ln_value_hash l \<noteq> hash_value_of E v then Inl ValueHashMismatch
          else if compute_root_from_leaf E p k (ln_hash E l) = root then Inr ()
          else Inl RootMismatch)"

definition verify_non_inclusion ::
  "ext \<Rightarrow> sparse_merkle_proof \<Rightarrow> hash_value \<Rightarrow> hash_value \<Rightarrow> proof_error + unit" where
  "verify_non_inclusion E p root k =
     (case proof_leaf p of
        None \<Rightarrow>
          if compute_root_from_leaf E p k (empty_hash E) = root then Inr () else Inl RootMismatch
      | Some l \<Rightarrow>
          if ln_key l = k then Inl KeyExists
          else if common_prefix_bits k (ln_key l) < length (siblings p) then Inl PathMismatch
          else if compute_root_from_leaf E p (ln_key l) (ln_hash E l) = root then Inr ()
          else Inl RootMismatch)"

section \<open>The incremental tree\<close>

datatype tree_node =
    TEmpty
  | TLeaf hash_value hash_value hash_value
  | TInternal hash_value hash_value hash_value

fun tn_hash :: "ext \<Rightarrow> tree_node \<Rightarrow> hash_value" where
  "tn_hash E TEmpty = empty_hash E"
| "tn_hash E (TLeaf k vh h) = h"
| "tn_hash E (TInternal l r h) = h"

definition new_leaf :: "ext \<Rightarrow> hash_value \<Rightarrow> hash_value \<Rightarrow> tree_node" where
  "new_leaf E k vh = TLeaf k vh (hash_sparse_leaf E k vh)"

definition new_internal :: "ext \<Rightarrow> hash_value \<Rightarrow> hash_value \<Rightarrow> tree_node" where
  "new_internal E l r = TInternal l r (hash_sparse_internal E l r)"

type_synonym node_store = "(hash_value, tree_node) fmap"

text \<open>\<open>let hash = node.hash(); self.nodes.insert(hash, node); hash\<close>.\<close>

definition put_node :: "ext \<Rightarrow> node_store \<Rightarrow> tree_node \<Rightarrow> node_store \<times> hash_value" where
  "put_node E ns n = (fmupd (tn_hash E n) n ns, tn_hash E n)"

record inc_tree =
  root_hash :: hash_value
  leaves :: "(hash_value, bytes) fmap"
  nodes :: node_store
  dirty_leaves :: "hash_value fset"
  deleted_leaves :: "hash_value fset"

function split_leaf ::
  "ext \<Rightarrow> node_store \<Rightarrow> hash_value \<Rightarrow> hash_value \<Rightarrow> hash_value \<Rightarrow> tree_node \<Rightarrow> nat
   \<Rightarrow> node_store \<times> hash_value" where
  "split_leaf E ns ek evh k nl d =
     (if 256 \<le> d then (ns, tn_hash E nl)
      else if hv_bit ek d = hv_bit k d
      then let (ns1, subtree) = split_leaf E ns ek evh k nl (d + 1)
           in put_node E ns1 (if hv_bit ek d then new_internal E (empty_hash E) subtree
                              else new_internal E subtree (empty_hash E))
      else let (ns1, eh) = put_node E ns (new_leaf E ek evh);
               (ns2, nh) = put_node E ns1 nl
           in put_node E ns2 (if hv_bit k d then new_internal E eh nh else new_internal E nh eh))"
  by pat_completeness auto

termination by (relation "measure (\<lambda>(E, ns, ek, evh, k, nl, d). 256 - d)") auto

declare split_leaf.simps [simp del]

definition current_node :: "ext \<Rightarrow> node_store \<Rightarrow> hash_value \<Rightarrow> tree_node" where
  "current_node E ns h =
     (if h = empty_hash E then TEmpty
      else case fmlookup ns h of Some n \<Rightarrow> n | None \<Rightarrow> TEmpty)"

function insert_at_node ::
  "ext \<Rightarrow> node_store \<Rightarrow> hash_value \<Rightarrow> hash_value \<Rightarrow> tree_node \<Rightarrow> nat
   \<Rightarrow> node_store \<times> hash_value" where
  "insert_at_node E ns h k nl d =
     (if 256 \<le> d then put_node E ns nl
      else case current_node E ns h of
             TEmpty \<Rightarrow> put_node E ns nl
           | TLeaf ek evh _ \<Rightarrow>
               if ek = k then put_node E ns nl else split_leaf E ns ek evh k nl d
           | TInternal l r _ \<Rightarrow>
               if hv_bit k d
               then let (ns1, r1) = insert_at_node E ns r k nl (d + 1)
                    in put_node E ns1 (new_internal E l r1)
               else let (ns1, l1) = insert_at_node E ns l k nl (d + 1)
                    in put_node E ns1 (new_internal E l1 r))"
  by pat_completeness auto

termination by (relation "measure (\<lambda>(E, ns, h, k, nl, d). 256 - d)") auto

declare insert_at_node.simps [simp del]

definition is_leaf_at :: "node_store \<Rightarrow> hash_value \<Rightarrow> bool" where
  "is_leaf_at ns h = (case fmlookup ns h of Some (TLeaf _ _ _) \<Rightarrow> True | _ \<Rightarrow> False)"

text \<open>The end of \<open>remove_at_node\<close>: join two children, collapsing a lone leaf.\<close>

definition join_children ::
  "ext \<Rightarrow> node_store \<Rightarrow> hash_value \<Rightarrow> hash_value \<Rightarrow> node_store \<times> hash_value" where
  "join_children E ns l r =
     (let left_empty = (l = empty_hash E); right_empty = (r = empty_hash E)
      in if left_empty \<and> right_empty then (ns, empty_hash E)
         else if left_empty
         then if is_leaf_at ns r then (ns, r) else put_node E ns (new_internal E l r)
         else if right_empty
         then if is_leaf_at ns l then (ns, l) else put_node E ns (new_internal E l r)
         else put_node E ns (new_internal E l r))"

text \<open>
  \<open>remove_at_node\<close>. The recursion has no depth check of its own: \<open>HashValue::bit\<close> panics at index
  256, which is the result \<open>None\<close>.
\<close>

function remove_at_node ::
  "ext \<Rightarrow> node_store \<Rightarrow> hash_value \<Rightarrow> hash_value \<Rightarrow> nat \<Rightarrow> (node_store \<times> hash_value) option" where
  "remove_at_node E ns h k d =
     (if h = empty_hash E then Some (ns, empty_hash E)
      else case fmlookup ns h of
             None \<Rightarrow> Some (ns, empty_hash E)
           | Some TEmpty \<Rightarrow> Some (ns, empty_hash E)
           | Some (TLeaf lk _ _) \<Rightarrow> Some (ns, if lk = k then empty_hash E else h)
           | Some (TInternal l r _) \<Rightarrow>
               if 256 \<le> d then None
               else if hv_bit k d
               then (case remove_at_node E ns r k (d + 1) of
                       None \<Rightarrow> None
                     | Some (ns1, r1) \<Rightarrow> Some (join_children E ns1 l r1))
               else (case remove_at_node E ns l k (d + 1) of
                       None \<Rightarrow> None
                     | Some (ns1, l1) \<Rightarrow> Some (join_children E ns1 l1 r)))"
  by pat_completeness auto

termination by (relation "measure (\<lambda>(E, ns, h, k, d). 256 - d)") auto

declare remove_at_node.simps [simp del]

definition inc_new :: "ext \<Rightarrow> inc_tree" where
  "inc_new E = \<lparr>root_hash = empty_hash E, leaves = fmempty, nodes = fmempty,
     dirty_leaves = {||}, deleted_leaves = {||}\<rparr>"

definition inc_get :: "inc_tree \<Rightarrow> hash_value \<Rightarrow> bytes option" where
  "inc_get t k = fmlookup (leaves t) k"

definition insert_without_tracking ::
  "ext \<Rightarrow> inc_tree \<Rightarrow> hash_value \<Rightarrow> bytes \<Rightarrow> inc_tree \<times> bytes option" where
  "insert_without_tracking E t k v =
     (let (ns, h) = insert_at_node E (nodes t) (root_hash t) k (new_leaf E k (hash_value_of E v)) 0
      in (t\<lparr>leaves := fmupd k v (leaves t), nodes := ns, root_hash := h\<rparr>, fmlookup (leaves t) k))"

definition inc_insert ::
  "ext \<Rightarrow> inc_tree \<Rightarrow> hash_value \<Rightarrow> bytes \<Rightarrow> inc_tree \<times> bytes option" where
  "inc_insert E t k v =
     (let t0 = t\<lparr>dirty_leaves := finsert k (dirty_leaves t),
                 deleted_leaves := deleted_leaves t |-| {|k|}\<rparr>;
          (ns, h) = insert_at_node E (nodes t0) (root_hash t0) k (new_leaf E k (hash_value_of E v)) 0
      in (t0\<lparr>leaves := fmupd k v (leaves t0), nodes := ns, root_hash := h\<rparr>, fmlookup (leaves t0) k))"

text \<open>\<open>remove\<close>: \<open>None\<close> stands for a panic, which the lemmas rule out.\<close>

definition inc_remove ::
  "ext \<Rightarrow> inc_tree \<Rightarrow> hash_value \<Rightarrow> (inc_tree \<times> bytes option) option" where
  "inc_remove E t k =
     (case fmlookup (leaves t) k of
        None \<Rightarrow> Some (t, None)
      | Some v \<Rightarrow>
          (case remove_at_node E (nodes t) (root_hash t) k 0 of
             None \<Rightarrow> None
           | Some (ns, h) \<Rightarrow>
               Some (t\<lparr>leaves := fmdrop k (leaves t), dirty_leaves := dirty_leaves t |-| {|k|},
                        deleted_leaves := finsert k (deleted_leaves t), nodes := ns,
                        root_hash := h\<rparr>, Some v)))"

definition inc_batch_insert :: "ext \<Rightarrow> inc_tree \<Rightarrow> (hash_value \<times> bytes) list \<Rightarrow> inc_tree" where
  "inc_batch_insert E t es = fold (\<lambda>(k, v) t. fst (inc_insert E t k v)) es t"

definition from_leaves :: "ext \<Rightarrow> (hash_value, bytes) fmap \<Rightarrow> inc_tree" where
  "from_leaves E m =
     fold (\<lambda>(k, v) t. fst (insert_without_tracking E t k v)) (sort_key fst (entries m)) (inc_new E)"

text \<open>\<open>Clone\<close> resets the change tracking.\<close>

definition inc_clone :: "inc_tree \<Rightarrow> inc_tree" where
  "inc_clone t = t\<lparr>dirty_leaves := {||}, deleted_leaves := {||}\<rparr>"

function proof_loop ::
  "ext \<Rightarrow> node_store \<Rightarrow> hash_value \<Rightarrow> hash_value \<Rightarrow> nat \<Rightarrow> hash_value list \<Rightarrow> sparse_merkle_proof" where
  "proof_loop E ns k h d acc =
     (if 256 \<le> d then \<lparr>siblings = acc, proof_leaf = None\<rparr>
      else if h = empty_hash E then \<lparr>siblings = acc, proof_leaf = None\<rparr>
      else case fmlookup ns h of
             None \<Rightarrow> \<lparr>siblings = acc, proof_leaf = None\<rparr>
           | Some TEmpty \<Rightarrow> \<lparr>siblings = acc, proof_leaf = None\<rparr>
           | Some (TLeaf lk vh _) \<Rightarrow>
               \<lparr>siblings = acc, proof_leaf = Some \<lparr>ln_key = lk, ln_value_hash = vh\<rparr>\<rparr>
           | Some (TInternal l r _) \<Rightarrow>
               if hv_bit k d then proof_loop E ns k r (d + 1) (acc @ [l])
               else proof_loop E ns k l (d + 1) (acc @ [r]))"
  by pat_completeness auto

termination by (relation "measure (\<lambda>(E, ns, k, h, d, acc). 256 - d)") auto

declare proof_loop.simps [simp del]

definition inc_get_proof :: "ext \<Rightarrow> inc_tree \<Rightarrow> hash_value \<Rightarrow> sparse_merkle_proof" where
  "inc_get_proof E t k = proof_loop E (nodes t) k (root_hash t) 0 []"

record leaf_changes =
  upserts :: "(hash_value \<times> bytes) list"
  deletes :: "hash_value list"

definition take_changes :: "inc_tree \<Rightarrow> inc_tree \<times> leaf_changes" where
  "take_changes t =
     (t\<lparr>dirty_leaves := {||}, deleted_leaves := {||}\<rparr>,
      \<lparr>upserts = List.map_filter (\<lambda>k. map_option (Pair k) (fmlookup (leaves t) k))
                   (sorted_list_of_fset (dirty_leaves t)),
       deletes = sorted_list_of_fset (deleted_leaves t)\<rparr>)"

definition has_pending_changes :: "inc_tree \<Rightarrow> bool" where
  "has_pending_changes t \<longleftrightarrow> dirty_leaves t \<noteq> {||} \<or> deleted_leaves t \<noteq> {||}"

section \<open>Collisions\<close>

text \<open>The hash function has no collision on a list of inputs.\<close>

definition collision_free :: "ext \<Rightarrow> bytes list \<Rightarrow> bool" where
  "collision_free E bs \<longleftrightarrow> distinct (map (blake3 E) (remdups bs))"

lemma collision_free_inj: "collision_free E bs \<longleftrightarrow> inj_on (blake3 E) (set bs)"
  by (simp add: collision_free_def distinct_map)

section \<open>Bits of a key\<close>

lemma le_bytes_nth: "j < n \<Longrightarrow> le_bytes n w ! j = ucast (drop_bit (8 * j) w)"
proof (induction n arbitrary: j w)
  case (Suc n)
  then show ?case
    by (cases j) (simp_all add: algebra_simps)
qed simp

lemma hv_bit: "i < 256 \<Longrightarrow> hv_bit k i = bit k (255 - i)"
proof -
  assume i: "i < 256"
  define q r where "q = i div 8" and "r = i mod 8"
  then have qr: "i = 8 * q + r" "r < 8" "q < 32"
    using i by auto
  then have "as_bytes k ! q = ucast (drop_bit (8 * (31 - q)) k)"
    by (simp add: as_bytes_def be_bytes_def rev_nth le_bytes_nth)
  moreover have "8 * (31 - q) + (7 - r) = 255 - i" "7 - r < 8"
    using qr by auto
  ultimately show ?thesis
    by (simp add: hv_bit_def bit_simps flip: q_def r_def)
qed

lemma hv_eqI: "(\<And>i. i < 256 \<Longrightarrow> hv_bit a i = hv_bit b i) \<Longrightarrow> a = b"
proof (rule bit_word_eqI)
  fix n
  assume *: "\<And>i. i < 256 \<Longrightarrow> hv_bit a i = hv_bit b i" and "n < LENGTH(256)"
  then show "bit a n = bit b n"
    using *[of "255 - n"] by (simp add: hv_bit)
qed

text \<open>Keys that agree on their first \<open>n\<close> bits.\<close>

definition agree :: "nat \<Rightarrow> hash_value \<Rightarrow> hash_value \<Rightarrow> bool" where
  "agree n a b \<longleftrightarrow> (\<forall>i < n. hv_bit a i = hv_bit b i)"

lemma agree_refl [simp]: "agree n a a"
  by (simp add: agree_def)

lemma agree_0 [simp]: "agree 0 a b"
  by (simp add: agree_def)

lemma agree_sym: "agree n a b \<Longrightarrow> agree n b a"
  by (auto simp: agree_def)

lemma agree_trans: "agree n a b \<Longrightarrow> agree n b c \<Longrightarrow> agree n a c"
  by (auto simp: agree_def)

lemma agree_Suc: "agree (Suc n) a b \<longleftrightarrow> agree n a b \<and> hv_bit a n = hv_bit b n"
  by (auto simp: agree_def less_Suc_eq)

lemma agree_all: "agree n a b \<Longrightarrow> 256 \<le> n \<Longrightarrow> a = b"
  by (rule hv_eqI) (auto simp: agree_def)

end
