(* ===== verification/Sparse_Trees.thy ===== *)
theory Sparse_Trees
  imports Sparse_Merkle
begin

text \<open>
  Binary trees over the bits of 256-bit keys, the abstract view of the sparse Merkle trees: when a
  tree is canonical, insertion and removal, and the tree of a list of leaves. A canonical tree is
  determined by its leaves, and the reference implementation hashes the tree of its leaf list.
\<close>

section \<open>Canonical trees\<close>

datatype stree = Tip | Lf hash_value hash_value | Nd stree stree

fun lvs :: "stree \<Rightarrow> (hash_value \<times> hash_value) set" where
  "lvs Tip = {}"
| "lvs (Lf k v) = {(k, v)}"
| "lvs (Nd l r) = lvs l \<union> lvs r"

abbreviation keys :: "stree \<Rightarrow> hash_value set" where
  "keys t \<equiv> fst ` lvs t"

text \<open>
  A tree is canonical at depth \<open>d\<close> when each inner node has at least two keys and sends a key to
  the side its bit names, and the keys agree on the first \<open>d\<close> bits.
\<close>

fun canonical :: "nat \<Rightarrow> stree \<Rightarrow> bool" where
  "canonical d Tip = True"
| "canonical d (Lf k v) = True"
| "canonical d (Nd l r) =
     (canonical (Suc d) l \<and> canonical (Suc d) r \<and>
      (\<exists>a \<in> keys (Nd l r). \<exists>b \<in> keys (Nd l r). a \<noteq> b) \<and>
      (\<forall>k \<in> keys l. \<not> hv_bit k d) \<and> (\<forall>k \<in> keys r. hv_bit k d) \<and>
      (\<forall>a \<in> keys (Nd l r). \<forall>b \<in> keys (Nd l r). agree d a b))"

declare canonical.simps(3) [simp del]

lemma canonical_agree: "canonical d t \<Longrightarrow> a \<in> keys t \<Longrightarrow> b \<in> keys t \<Longrightarrow> agree d a b"
  by (cases t) (auto simp: canonical.simps(3))

lemma canonical_NdD:
  assumes "canonical d (Nd l r)"
  shows "canonical (Suc d) l" "canonical (Suc d) r"
    and "\<forall>p \<in> lvs l. \<not> hv_bit (fst p) d" "\<forall>p \<in> lvs r. hv_bit (fst p) d"
  using assms by (simp_all add: canonical.simps(3))

lemma canonical_two:
  assumes "canonical d (Nd l r)"
  obtains a b where "a \<in> keys (Nd l r)" "b \<in> keys (Nd l r)" "a \<noteq> b"
proof -
  have "\<exists>a \<in> keys (Nd l r). \<exists>b \<in> keys (Nd l r). a \<noteq> b"
    using assms unfolding canonical.simps(3) by (elim conjE)
  with that show thesis
    by blast
qed

lemma canonical_not_single: "canonical d (Nd l r) \<Longrightarrow> lvs (Nd l r) \<noteq> {p}"
  by (metis canonical_two image_insert image_empty singletonD)

lemma canonical_not_empty: "canonical d (Nd l r) \<Longrightarrow> lvs (Nd l r) \<noteq> {}"
  by (metis canonical_two image_empty empty_iff)

lemma canonical_depth: "canonical d (Nd l r) \<Longrightarrow> d < 256"
  by (metis agree_all canonical_agree canonical_two not_less)

lemma canonical_sides:
  assumes "canonical d (Nd l r)"
  shows "lvs l = {p \<in> lvs (Nd l r). \<not> hv_bit (fst p) d}"
    and "lvs r = {p \<in> lvs (Nd l r). hv_bit (fst p) d}"
  using canonical_NdD(3,4) [OF assms] by auto

lemma canonical_unique: "canonical d s \<Longrightarrow> canonical d t \<Longrightarrow> lvs s = lvs t \<Longrightarrow> s = t"
proof (induction s arbitrary: d t)
  case Tip
  then show ?case
    by (cases t) (auto dest: canonical_not_empty)
next
  case (Lf k v)
  show ?case
  proof (cases t)
    case t: (Nd l r)
    with Lf.prems canonical_not_single [of d l r "(k, v)"] show ?thesis
      by simp
  qed (use Lf.prems in simp_all)
next
  case (Nd l r)
  show ?case
  proof (cases t)
    case Tip
    with Nd.prems canonical_not_empty [of d l r] show ?thesis
      by simp
  next
    case (Lf k v)
    with Nd.prems canonical_not_single [of d l r "(k, v)"] show ?thesis
      by simp
  next
    case t: (Nd l' r')
    note c = Nd.prems(1) Nd.prems(2) [unfolded t]
    have "lvs l = lvs l'"
      by (rule box_equals [OF _ canonical_sides(1) [OF c(1), symmetric]
            canonical_sides(1) [OF c(2), symmetric]]) (simp only: Nd.prems(3) t)
    moreover have "lvs r = lvs r'"
      by (rule box_equals [OF _ canonical_sides(2) [OF c(1), symmetric]
            canonical_sides(2) [OF c(2), symmetric]]) (simp only: Nd.prems(3) t)
    ultimately have "l = l'" "r = r'"
      using Nd.IH(1) [OF canonical_NdD(1) [OF c(1)] canonical_NdD(1) [OF c(2)]]
        Nd.IH(2) [OF canonical_NdD(2) [OF c(1)] canonical_NdD(2) [OF c(2)]] by blast+
    with t show ?thesis
      by simp
  qed
qed

text \<open>A canonical tree has at most one leaf per key.\<close>

lemma canonical_fun: "canonical d t \<Longrightarrow> (k, u) \<in> lvs t \<Longrightarrow> (k, v) \<in> lvs t \<Longrightarrow> u = v"
proof (induction t arbitrary: d)
  case (Nd l r)
  note * = canonical_NdD [OF Nd.prems(1)]
  show ?case
    using Nd.prems(2,3) Nd.IH(1) [OF *(1)] Nd.IH(2) [OF *(2)] *(3,4) by fastforce
qed auto

section \<open>Insertion and removal on trees\<close>

function split_tree ::
  "hash_value \<Rightarrow> hash_value \<Rightarrow> hash_value \<Rightarrow> hash_value \<Rightarrow> nat \<Rightarrow> stree" where
  "split_tree ek ev k v d =
     (if 256 \<le> d then Lf k v
      else if hv_bit ek d = hv_bit k d
      then if hv_bit ek d then Nd Tip (split_tree ek ev k v (d + 1))
           else Nd (split_tree ek ev k v (d + 1)) Tip
      else if hv_bit k d then Nd (Lf ek ev) (Lf k v) else Nd (Lf k v) (Lf ek ev))"
  by pat_completeness auto

termination by (relation "measure (\<lambda>(ek, ev, k, v, d). 256 - d)") auto

declare split_tree.simps [simp del]

fun ins_tree :: "hash_value \<Rightarrow> hash_value \<Rightarrow> stree \<Rightarrow> nat \<Rightarrow> stree" where
  "ins_tree k v Tip d = Lf k v"
| "ins_tree k v (Lf ek ev) d = (if ek = k then Lf k v else split_tree ek ev k v d)"
| "ins_tree k v (Nd l r) d =
     (if hv_bit k d then Nd l (ins_tree k v r (Suc d)) else Nd (ins_tree k v l (Suc d)) r)"

fun join_tree :: "stree \<Rightarrow> stree \<Rightarrow> stree" where
  "join_tree Tip Tip = Tip"
| "join_tree Tip (Lf k v) = Lf k v"
| "join_tree (Lf k v) Tip = Lf k v"
| "join_tree l r = Nd l r"

fun del_tree :: "hash_value \<Rightarrow> stree \<Rightarrow> nat \<Rightarrow> stree" where
  "del_tree k Tip d = Tip"
| "del_tree k (Lf ek ev) d = (if ek = k then Tip else Lf ek ev)"
| "del_tree k (Nd l r) d =
     (if hv_bit k d then join_tree l (del_tree k r (Suc d))
      else join_tree (del_tree k l (Suc d)) r)"

lemma split_tree_lvs:
  "ek \<noteq> k \<Longrightarrow> agree d ek k \<Longrightarrow> lvs (split_tree ek ev k v d) = {(ek, ev), (k, v)}"
proof (induction ek ev k v d rule: split_tree.induct)
  case (1 ek ev k v d)
  then have "d < 256"
    using agree_all not_less by blast
  with 1 show ?case
    by (subst split_tree.simps) (auto simp: agree_Suc)
qed

lemma split_tree_canonical:
  "ek \<noteq> k \<Longrightarrow> agree d ek k \<Longrightarrow> canonical d (split_tree ek ev k v d)"
proof (induction ek ev k v d rule: split_tree.induct)
  case (1 ek ev k v d)
  then have d: "d < 256"
    using agree_all not_less by blast
  have sym: "agree d k ek"
    using 1 by (simp add: agree_sym)
  show ?case
  proof (cases "hv_bit ek d = hv_bit k d")
    case True
    then have "agree (Suc d) ek k"
      using 1 by (simp add: agree_Suc)
    then show ?thesis
      using 1 d True sym
      by (subst split_tree.simps) (auto simp: split_tree_lvs canonical.simps(3))
  next
    case False
    then show ?thesis
      using 1 d sym by (subst split_tree.simps) (auto simp: canonical.simps(3))
  qed
qed

lemma side_agree:
  assumes "canonical d (Nd l r)" and "\<forall>a \<in> keys (Nd l r). agree d a k"
  shows "hv_bit k d \<Longrightarrow> \<forall>a \<in> keys r. agree (Suc d) a k" "hv_bit k d \<Longrightarrow> \<forall>p \<in> lvs l. fst p \<noteq> k"
    and "\<not> hv_bit k d \<Longrightarrow> \<forall>a \<in> keys l. agree (Suc d) a k" "\<not> hv_bit k d \<Longrightarrow> \<forall>p \<in> lvs r. fst p \<noteq> k"
  using canonical_NdD(3,4) [OF assms(1)] assms(2) by (auto simp: agree_Suc)

lemma ins_tree_lvs:
  "canonical d t \<Longrightarrow> \<forall>a \<in> keys t. agree d a k
   \<Longrightarrow> lvs (ins_tree k v t d) = insert (k, v) {p \<in> lvs t. fst p \<noteq> k}"
proof (induction t arbitrary: d)
  case (Nd l r)
  note IH = Nd.IH(1) [OF canonical_NdD(1) [OF Nd.prems(1)]]
    Nd.IH(2) [OF canonical_NdD(2) [OF Nd.prems(1)]]
  show ?case
  proof (cases "hv_bit k d")
    case True
    then show ?thesis
      using IH(2) side_agree(1,2) [OF Nd.prems] by auto
  next
    case False
    then show ?thesis
      using IH(1) side_agree(3,4) [OF Nd.prems] by auto
  qed
qed (auto simp: split_tree_lvs)

lemma canonical_NdI:
  assumes "canonical (Suc d) l" "canonical (Suc d) r"
    and "\<forall>p \<in> lvs l. \<not> hv_bit (fst p) d" "\<forall>p \<in> lvs r. hv_bit (fst p) d"
    and "\<forall>p \<in> lvs (Nd l r). agree d (fst p) k"
    and "a \<in> keys (Nd l r)" "b \<in> keys (Nd l r)" "a \<noteq> b"
  shows "canonical d (Nd l r)"
proof -
  have "\<forall>a \<in> keys (Nd l r). \<forall>b \<in> keys (Nd l r). agree d a b"
    using assms(5) agree_sym agree_trans by blast
  with assms show ?thesis
    unfolding canonical.simps(3) by blast
qed

lemma ins_tree_canonical:
  "canonical d t \<Longrightarrow> \<forall>a \<in> keys t. agree d a k \<Longrightarrow> canonical d (ins_tree k v t d)"
proof (induction t arbitrary: d)
  case (Lf ek ev)
  then show ?case
    by (simp add: split_tree_canonical)
next
  case (Nd l r)
  have lv: "lvs (ins_tree k v (Nd l r) d) = insert (k, v) {p \<in> lvs (Nd l r). fst p \<noteq> k}"
    using Nd.prems by (rule ins_tree_lvs)
  then have keys: "keys (ins_tree k v (Nd l r) d) = insert k (keys (Nd l r))"
    by force
  have ag: "\<forall>p \<in> lvs (ins_tree k v (Nd l r) d). agree d (fst p) k"
    using Nd.prems(2) unfolding lv by auto
  obtain a b where ab0: "a \<in> keys (Nd l r)" "b \<in> keys (Nd l r)" "a \<noteq> b"
    by (rule canonical_two [OF Nd.prems(1)])
  then have ab: "a \<in> keys (ins_tree k v (Nd l r) d)" "b \<in> keys (ins_tree k v (Nd l r) d)"
    unfolding keys by (simp_all only: insert_iff simp_thms)
  note sub = canonical_NdD [OF Nd.prems(1)] and side = side_agree [OF Nd.prems]
  show ?case
  proof (cases "hv_bit k d")
    case True
    have "canonical d (Nd l (ins_tree k v r (Suc d)))"
    proof (rule canonical_NdI)
      show "canonical (Suc d) (ins_tree k v r (Suc d))"
        using Nd.IH(2) [OF sub(2) side(1) [OF True]] .
      show "\<forall>p \<in> lvs (ins_tree k v r (Suc d)). hv_bit (fst p) d"
        using True sub(4) unfolding ins_tree_lvs [OF sub(2) side(1) [OF True]] by auto
    qed (use sub ag ab ab0(3) True in simp_all)
    with True show ?thesis
      by simp
  next
    case False
    have "canonical d (Nd (ins_tree k v l (Suc d)) r)"
    proof (rule canonical_NdI)
      show "canonical (Suc d) (ins_tree k v l (Suc d))"
        using Nd.IH(1) [OF sub(1) side(3) [OF False]] .
      show "\<forall>p \<in> lvs (ins_tree k v l (Suc d)). \<not> hv_bit (fst p) d"
        using False sub(3) unfolding ins_tree_lvs [OF sub(1) side(3) [OF False]] by auto
    qed (use sub ag ab ab0(3) False in simp_all)
    with False show ?thesis
      by simp
  qed
qed simp

lemma join_tree_lvs [simp]: "lvs (join_tree l r) = lvs l \<union> lvs r"
  by (cases "(l, r)" rule: join_tree.cases) simp_all

lemma join_tree_canonical:
  assumes "canonical (Suc d) l" "canonical (Suc d) r"
    and "\<forall>p \<in> lvs l. \<not> hv_bit (fst p) d" "\<forall>p \<in> lvs r. hv_bit (fst p) d"
    and "\<forall>p \<in> lvs l \<union> lvs r. agree d (fst p) k"
  shows "canonical d (join_tree l r)"
proof -
  have Nd: "canonical d (Nd l r)" if "a \<in> keys l \<union> keys r" "b \<in> keys l \<union> keys r" "a \<noteq> b" for a b
    by (rule canonical_NdI [OF assms(1-4)]) (use assms(5) that in \<open>auto simp: image_Un\<close>)
  have two: "canonical d (Nd l r)" if "p \<in> lvs l" "q \<in> lvs r" for p q
    using assms(3,4) that Nd [of "fst p" "fst q"] by (metis UnI1 UnI2 imageI)
  show ?thesis
  proof (cases l)
    case Tip
    show ?thesis
    proof (cases r)
      case r: (Nd r1 r2)
      then obtain a b where "a \<in> keys r" "b \<in> keys r" "a \<noteq> b"
        using canonical_two [of "Suc d" r1 r2] assms(2) by metis
      with Tip r Nd [of a b] show ?thesis
        by simp
    qed (use Tip in simp_all)
  next
    case (Lf k v)
    show ?thesis
    proof (cases r)
      case r: (Nd r1 r2)
      then obtain a b where "a \<in> keys r" "b \<in> keys r" "a \<noteq> b"
        using canonical_two [of "Suc d" r1 r2] assms(2) by metis
      with Lf r Nd [of a b] show ?thesis
        by simp
    qed (use Lf two in simp_all)
  next
    case l: (Nd l1 l2)
    then obtain a b where "a \<in> keys l" "b \<in> keys l" "a \<noteq> b"
      using canonical_two [of "Suc d" l1 l2] assms(1) by metis
    with l Nd [of a b] show ?thesis
      by simp
  qed
qed

lemma del_tree_lvs: "canonical d t \<Longrightarrow> lvs (del_tree k t d) = {p \<in> lvs t. fst p \<noteq> k}"
proof (induction t arbitrary: d)
  case (Nd l r)
  note sub = canonical_NdD [OF Nd.prems]
  have "\<forall>p \<in> lvs l. fst p \<noteq> k" if "hv_bit k d"
    using sub(3) that by auto
  moreover have "\<forall>p \<in> lvs r. fst p \<noteq> k" if "\<not> hv_bit k d"
    using sub(4) that by auto
  ultimately show ?case
    using Nd.IH(1) [OF sub(1)] Nd.IH(2) [OF sub(2)] by (cases "hv_bit k d") auto
qed auto

lemma del_tree_canonical: "canonical d t \<Longrightarrow> canonical d (del_tree k t d)"
proof (induction t arbitrary: d)
  case (Nd l r)
  note sub = canonical_NdD [OF Nd.prems]
  obtain c where c: "c \<in> keys (Nd l r)"
    using canonical_two [OF Nd.prems] by metis
  then have ag: "\<forall>p \<in> lvs l \<union> lvs r. agree d (fst p) c"
    using canonical_agree [OF Nd.prems _ c] by simp
  show ?case
  proof (cases "hv_bit k d")
    case True
    have "canonical d (join_tree l (del_tree k r (Suc d)))"
      by (rule join_tree_canonical [of _ _ _ c])
        (use sub Nd.IH(2) del_tree_lvs [OF sub(2)] ag in auto)
    with True show ?thesis
      by simp
  next
    case False
    have "canonical d (join_tree (del_tree k l (Suc d)) r)"
      by (rule join_tree_canonical [of _ _ _ c])
        (use sub Nd.IH(1) del_tree_lvs [OF sub(1)] ag in auto)
    with False show ?thesis
      by simp
  qed
qed auto

section \<open>The tree of a list of leaves\<close>

function canon :: "(hash_value \<times> hash_value) list \<Rightarrow> nat \<Rightarrow> stree" where
  "canon ls d =
     (if ls = [] then Tip
      else if length ls = 1 then Lf (fst (hd ls)) (snd (hd ls))
      else if 256 \<le> d then Lf (fst (hd ls)) (snd (hd ls))
      else Nd (canon (filter (\<lambda>(k, _). \<not> hv_bit k d) ls) (Suc d))
              (canon (filter (\<lambda>(k, _). hv_bit k d) ls) (Suc d)))"
  by pat_completeness auto

termination by (relation "measure (\<lambda>(ls, d). 256 - d)") auto

declare canon.simps [simp del]

lemma distinct_keys_filter: "distinct (map fst ls) \<Longrightarrow> distinct (map fst (filter P ls))"
  by (induction ls) auto

lemma canon_canonical:
  "distinct (map fst ls) \<Longrightarrow> (\<And>a b. a \<in> fst ` set ls \<Longrightarrow> b \<in> fst ` set ls \<Longrightarrow> agree d a b)
   \<Longrightarrow> canonical d (canon ls d) \<and> lvs (canon ls d) = set ls"
proof (induction ls d rule: canon.induct)
  case (1 ls d)
  consider "ls = []" | p where "ls = [p]" | p q zs where "ls = p # q # zs"
    by (metis list.exhaust)
  then show ?case
  proof cases
    case (3 p q zs)
    let ?l = "filter (\<lambda>(k, _). \<not> hv_bit k d) ls" and ?r = "filter (\<lambda>(k, _). hv_bit k d) ls"
    have pq: "fst p \<noteq> fst q"
      using 1(3) 3 by simp
    have d: "d < 256"
      using 1(4) [of "fst p" "fst q"] agree_all [of d "fst p" "fst q"] pq 3 by fastforce
    have ne: "ls \<noteq> []" "length ls \<noteq> 1" "\<not> 256 \<le> d"
      using 3 d by simp_all
    have ag: "\<forall>a \<in> set ls. \<forall>b \<in> set ls. agree d (fst a) (fst b)"
      using 1(4) by blast
    have "canonical (Suc d) (canon ?l (Suc d)) \<and> lvs (canon ?l (Suc d)) = set ?l"
      by (rule 1(1) [OF ne distinct_keys_filter [OF 1(3)]]) (use ag in \<open>auto simp: agree_Suc\<close>)
    moreover have "canonical (Suc d) (canon ?r (Suc d)) \<and> lvs (canon ?r (Suc d)) = set ?r"
      by (rule 1(2) [OF ne distinct_keys_filter [OF 1(3)]]) (use ag in \<open>auto simp: agree_Suc\<close>)
    ultimately have sub: "canonical (Suc d) (canon ?l (Suc d))" "lvs (canon ?l (Suc d)) = set ?l"
      "canonical (Suc d) (canon ?r (Suc d))" "lvs (canon ?r (Suc d)) = set ?r"
      by simp_all
    have "canonical d (Nd (canon ?l (Suc d)) (canon ?r (Suc d)))"
    proof (rule canonical_NdI [of _ _ _ "fst p" "fst p" "fst q"])
      have "p \<in> set ls"
        using 3 by simp
      then show "\<forall>x \<in> lvs (Nd (canon ?l (Suc d)) (canon ?r (Suc d))). agree d (fst x) (fst p)"
        using ag by (auto simp: sub)
      have "p \<in> set ?l \<union> set ?r" "q \<in> set ?l \<union> set ?r"
        using 3 by (auto split: prod.split)
      then show "fst p \<in> keys (Nd (canon ?l (Suc d)) (canon ?r (Suc d)))"
        "fst q \<in> keys (Nd (canon ?l (Suc d)) (canon ?r (Suc d)))"
        by (simp_all only: lvs.simps sub) (rule imageI, assumption)+
    qed (use sub pq in auto)
    moreover have "canon ls d = Nd (canon ?l (Suc d)) (canon ?r (Suc d))"
      using ne by (subst canon.simps) simp
    moreover have "set ?l \<union> set ?r = set ls"
      by auto
    ultimately show ?thesis
      by (simp add: sub)
  qed (simp_all add: canon.simps)
qed

fun thash :: "ext \<Rightarrow> stree \<Rightarrow> hash_value" where
  "thash E Tip = empty_hash E"
| "thash E (Lf k v) = hash_sparse_leaf E k v"
| "thash E (Nd l r) = hash_sparse_internal E (thash E l) (thash E r)"

text \<open>The reference computes the hash of this tree.\<close>

lemma filter_leaf_hashes:
  "filter (\<lambda>(k, _). P k) (map (\<lambda>(k, v). (k, f k v)) ls) =
   map (\<lambda>(k, v). (k, f k v)) (filter (\<lambda>(k, _). P k) ls)"
  by (induction ls) auto

lemma compute_subtree_hash_canon:
  "compute_subtree_hash E (map (\<lambda>(k, v). (k, hash_sparse_leaf E k v)) ls) d = thash E (canon ls d)"
proof (induction ls d rule: canon.induct)
  case (1 ls d)
  show ?case
  proof (cases "ls = [] \<or> length ls = 1 \<or> 256 \<le> d")
    case True
    then show ?thesis
      by (subst compute_subtree_hash.simps, subst canon.simps)
        (auto simp: hd_map split: prod.split)
  next
    case False
    with 1 show ?thesis
      by (subst compute_subtree_hash.simps, subst canon.simps)
        (simp add: filter_leaf_hashes)
  qed
qed

lemma build_subtree_hash: "fst (build_subtree E ls d ns) = compute_subtree_hash E ls d"
proof (induction E ls d ns rule: build_subtree.induct)
  case (1 E ls d ns)
  show ?case
    by (subst build_subtree.simps, subst compute_subtree_hash.simps)
      (use 1 in \<open>auto simp: Let_def split: prod.split; metis fst_conv\<close>)
qed

end
