(* ===== verification/Sparse_Merkle_Refine.thy ===== *)
theory Sparse_Merkle_Refine
  imports Sparse_Trees
begin

text \<open>
  The incremental sparse Merkle tree (\<open>IncrementalSparseMerkleTree\<close>) implements the reference tree
  (\<open>SparseMerkleTree\<close>) of \<^verbatim>\<open>crates/setu-merkle/src/sparse.rs\<close>: its node table represents the canonical tree of
  its leaves, insertion and removal keep that, and so both trees have the same leaves and the same root
  after the same operations.
\<close>

lemma hv_bit_code [code]:
  "hv_bit k i = (if i < 256 then bit k (255 - i) else bit (as_bytes k ! (i div 8)) (7 - i mod 8))"
  by (simp add: hv_bit) (simp add: hv_bit_def)

section \<open>The tree of a leaf map\<close>

definition tree_of :: "ext \<Rightarrow> (hash_value, bytes) fmap \<Rightarrow> stree" where
  "tree_of E m = canon (map (\<lambda>(k, v). (k, hash_value_of E v)) (entries m)) 0"

lemma tree_of_canonical [simp]: "canonical 0 (tree_of E m)"
  and tree_of_lvs: "lvs (tree_of E m) = {(k, hash_value_of E v) | k v. fmlookup m k = Some v}"
proof -
  have "map fst (map (\<lambda>(k, v). (k, hash_value_of E v)) (entries m)) = map fst (entries m)"
    by (simp add: case_prod_beta comp_def)
  then have *: "canonical 0 (tree_of E m) \<and>
      lvs (tree_of E m) = set (map (\<lambda>(k, v). (k, hash_value_of E v)) (entries m))"
    unfolding tree_of_def by (intro canon_canonical) (simp_all only: distinct_entries agree_0)
  then show "canonical 0 (tree_of E m)"
    by simp
  have "set (map (\<lambda>(k, v). (k, hash_value_of E v)) (entries m))
      = {(k, hash_value_of E v) | k v. fmlookup m k = Some v}"
    unfolding set_map by (auto simp: image_iff)
  with * show "lvs (tree_of E m) = {(k, hash_value_of E v) | k v. fmlookup m k = Some v}"
    by metis
qed

lemma tree_of_keys: "keys (tree_of E m) = fset (fmdom m)"
  unfolding tree_of_lvs by (auto simp: image_iff fmlookup_dom_iff)

lemma tree_of_empty [simp]: "tree_of E fmempty = Tip"
  unfolding tree_of_def by (subst canon.simps) (simp add: sorted_list_of_fmap_def sorted_list_of_fset.rep_eq)

lemma tree_of_upd: "ins_tree k (hash_value_of E v) (tree_of E m) 0 = tree_of E (fmupd k v m)"
proof (rule canonical_unique)
  show "canonical 0 (ins_tree k (hash_value_of E v) (tree_of E m) 0)"
    by (simp add: ins_tree_canonical)
  show "lvs (ins_tree k (hash_value_of E v) (tree_of E m) 0) = lvs (tree_of E (fmupd k v m))"
    by (subst ins_tree_lvs) (auto simp: tree_of_lvs split: if_splits)
qed simp

lemma tree_of_drop: "del_tree k (tree_of E m) 0 = tree_of E (fmdrop k m)"
proof (rule canonical_unique)
  show "canonical 0 (del_tree k (tree_of E m) 0)"
    by (simp add: del_tree_canonical)
  show "lvs (del_tree k (tree_of E m) 0) = lvs (tree_of E (fmdrop k m))"
    by (subst del_tree_lvs [OF tree_of_canonical]) (auto simp: tree_of_lvs)
qed simp

text \<open>The root that \<open>rebuild_tree\<close> computes.\<close>

lemma sort_key_map_snd:
  "sort_key fst (map (\<lambda>(k, v). (k, f k v)) xs) = map (\<lambda>(k, v). (k, f k v)) (sort_key fst xs)"
proof -
  have "insort_key fst (case x of (k, v) \<Rightarrow> (k, f k v)) (map (\<lambda>(k, v). (k, f k v)) ys) =
      map (\<lambda>(k, v). (k, f k v)) (insort_key fst x ys)" for x ys
    by (induction ys) (auto split: prod.splits)
  then show ?thesis
    by (induction xs) auto
qed

lemma map_fst_snd [simp]: "map fst (map (\<lambda>(k, v). (k, f k v)) xs) = map fst xs"
  by (induction xs) auto

lemma canon_sort:
  assumes "distinct (map fst xs)"
  shows "canon (sort_key fst xs) 0 = canon xs 0"
proof (rule canonical_unique)
  have "distinct (map fst (sort_key fst xs))"
    using assms by (simp only: distinct_sort_key)
  then have *: "canonical 0 (canon (sort_key fst xs) 0) \<and> lvs (canon (sort_key fst xs) 0) = set xs"
    using canon_canonical [of "sort_key fst xs" 0] by simp
  have **: "canonical 0 (canon xs 0) \<and> lvs (canon xs 0) = set xs"
    using canon_canonical [of xs 0] assms by simp
  from * show "canonical 0 (canon (sort_key fst xs) 0)" ..
  from ** show "canonical 0 (canon xs 0)" ..
  from * ** show "lvs (canon (sort_key fst xs) 0) = lvs (canon xs 0)"
    by simp
qed

lemma rebuild_tree_root: "smt_root_hash (rebuild_tree E t) = thash E (tree_of E (smt_leaves t))"
proof (cases "smt_leaves t = fmempty")
  case False
  define qs where "qs = map (\<lambda>(k, v). (k, hash_value_of E v)) (entries (smt_leaves t))"
  have "leaf_hashes E (smt_leaves t) = map (\<lambda>(k, v). (k, hash_sparse_leaf E k v)) qs"
    by (simp add: leaf_hashes_def qs_def case_prod_beta comp_def)
  moreover have "distinct (map fst qs)"
    by (simp only: qs_def map_fst_snd distinct_entries)
  ultimately have "compute_subtree_hash E (sort_key fst (leaf_hashes E (smt_leaves t))) 0
      = thash E (tree_of E (smt_leaves t))"
    by (simp only: sort_key_map_snd compute_subtree_hash_canon canon_sort)
      (simp only: tree_of_def qs_def)
  with False show ?thesis
    using build_subtree_hash [of E "sort_key fst (leaf_hashes E (smt_leaves t))" 0 fmempty]
    by (auto simp: rebuild_tree_def split: prod.split)
qed (simp add: rebuild_tree_def)

section \<open>The node store\<close>

fun subtrees :: "stree \<Rightarrow> stree set" where
  "subtrees Tip = {Tip}"
| "subtrees (Lf k v) = {Lf k v}"
| "subtrees (Nd l r) = insert (Nd l r) (subtrees l \<union> subtrees r)"

lemma self_subtree [simp, intro]: "t \<in> subtrees t"
  by (cases t) auto

lemma subtree_trans: "s \<in> subtrees t \<Longrightarrow> u \<in> subtrees s \<Longrightarrow> u \<in> subtrees t"
  by (induction t) auto

text \<open>What is hashed at each node.\<close>

fun node_bytes :: "ext \<Rightarrow> stree \<Rightarrow> bytes" where
  "node_bytes E Tip = str_bytes ''SPARSE_EMPTY''"
| "node_bytes E (Lf k v) = 2 # as_bytes k @ as_bytes v"
| "node_bytes E (Nd l r) = 3 # as_bytes (thash E l) @ as_bytes (thash E r)"

lemma thash_bytes: "thash E t = blake3 E (node_bytes E t)"
  by (cases t) (simp_all add: empty_hash_def hash_sparse_leaf_def hash_sparse_internal_def)

text \<open>A set of trees, closed under subtrees, on whose nodes the hash function has no collision.\<close>

definition hash_universe :: "ext \<Rightarrow> stree set \<Rightarrow> bool" where
  "hash_universe E T \<longleftrightarrow> Tip \<in> T \<and> (\<forall>t \<in> T. subtrees t \<subseteq> T) \<and> inj_on (blake3 E) (node_bytes E ` T)"

lemma str_bytes_SPARSE_EMPTY: "hd (str_bytes ''SPARSE_EMPTY'') = 83" "str_bytes ''SPARSE_EMPTY'' \<noteq> []"
  by (simp_all add: str_bytes_def of_char_def)

lemma node_bytes_tag: "hd (node_bytes E t) = (case t of Tip \<Rightarrow> 83 | Lf _ _ \<Rightarrow> 2 | Nd _ _ \<Rightarrow> 3)"
  by (cases t) (simp_all add: str_bytes_SPARSE_EMPTY)

lemma hash_universe_bytes:
  "hash_universe E T \<Longrightarrow> s \<in> T \<Longrightarrow> t \<in> T \<Longrightarrow> thash E s = thash E t \<Longrightarrow> node_bytes E s = node_bytes E t"
  unfolding hash_universe_def thash_bytes by (meson imageI inj_onD)

lemma hash_universe_inj:
  assumes U: "hash_universe E T"
  shows "s \<in> T \<Longrightarrow> t \<in> T \<Longrightarrow> thash E s = thash E t \<Longrightarrow> s = t"
proof (induction s arbitrary: t)
  case Tip
  then have "node_bytes E Tip = node_bytes E t"
    by (rule hash_universe_bytes [OF U])
  then have "hd (node_bytes E Tip) = hd (node_bytes E t)"
    by (rule arg_cong)
  then show ?case
    unfolding node_bytes_tag by (cases t) simp_all
next
  case (Lf k v)
  then have b: "node_bytes E (Lf k v) = node_bytes E t"
    by (rule hash_universe_bytes [OF U])
  then have "hd (node_bytes E (Lf k v)) = hd (node_bytes E t)"
    by (rule arg_cong)
  with b show ?case
    unfolding node_bytes_tag by (cases t) simp_all
next
  case (Nd l r)
  then have b: "node_bytes E (Nd l r) = node_bytes E t"
    by (intro hash_universe_bytes [OF U])
  then have h: "hd (node_bytes E (Nd l r)) = hd (node_bytes E t)"
    by (rule arg_cong)
  obtain l' r' where t: "t = Nd l' r'"
    using h unfolding node_bytes_tag by (cases t) simp_all
  have "l \<in> T" "r \<in> T" "l' \<in> T" "r' \<in> T"
    using U Nd.prems(1,2) t unfolding hash_universe_def by fastforce+
  moreover have "thash E l = thash E l'" "thash E r = thash E r'"
    using b t by simp_all
  ultimately show ?case
    using Nd.IH(1) [of l'] Nd.IH(2) [of r'] t by simp
qed

lemma thash_not_empty:
  "hash_universe E T \<Longrightarrow> t \<in> T \<Longrightarrow> t \<noteq> Tip \<Longrightarrow> thash E t \<noteq> empty_hash E"
  using hash_universe_inj [of E T t Tip] by (auto simp: hash_universe_def)

fun node_of :: "ext \<Rightarrow> stree \<Rightarrow> tree_node" where
  "node_of E Tip = TEmpty"
| "node_of E (Lf k v) = new_leaf E k v"
| "node_of E (Nd l r) = new_internal E (thash E l) (thash E r)"

lemma tn_hash_node_of [simp]: "tn_hash E (node_of E t) = thash E t"
  by (cases t) (simp_all add: new_leaf_def new_internal_def)

text \<open>Every stored node is the node of a tree of the universe, and the nodes of \<open>t\<close> are stored.\<close>

definition store_ok :: "ext \<Rightarrow> stree set \<Rightarrow> node_store \<Rightarrow> bool" where
  "store_ok E T ns \<longleftrightarrow>
     (\<forall>h n. fmlookup ns h = Some n \<longrightarrow> (\<exists>t \<in> T. t \<noteq> Tip \<and> h = thash E t \<and> n = node_of E t))"

definition stored :: "ext \<Rightarrow> node_store \<Rightarrow> stree \<Rightarrow> bool" where
  "stored E ns t \<longleftrightarrow> (\<forall>s \<in> subtrees t. s \<noteq> Tip \<longrightarrow> fmlookup ns (thash E s) = Some (node_of E s))"

definition extends :: "node_store \<Rightarrow> node_store \<Rightarrow> bool" where
  "extends ns ns' \<longleftrightarrow> (\<forall>h n. fmlookup ns h = Some n \<longrightarrow> fmlookup ns' h = Some n)"

lemma extends_refl [simp]: "extends ns ns"
  by (simp add: extends_def)

lemma extends_trans: "extends a b \<Longrightarrow> extends b c \<Longrightarrow> extends a c"
  by (simp add: extends_def)

lemma stored_extends: "stored E ns t \<Longrightarrow> extends ns ns' \<Longrightarrow> stored E ns' t"
  by (simp add: extends_def stored_def)

lemma stored_Nd [simp]:
  "stored E ns (Nd l r) \<longleftrightarrow>
     fmlookup ns (thash E (Nd l r)) = Some (node_of E (Nd l r)) \<and> stored E ns l \<and> stored E ns r"
  by (auto simp: stored_def)

lemma stored_Lf [simp]:
  "stored E ns (Lf k v) \<longleftrightarrow> fmlookup ns (thash E (Lf k v)) = Some (node_of E (Lf k v))"
  by (simp add: stored_def)

lemma stored_Tip [simp]: "stored E ns Tip"
  by (simp add: stored_def)

text \<open>The outcome of an operation that leaves the tree \<open>t\<close> behind.\<close>

definition yields :: "ext \<Rightarrow> stree set \<Rightarrow> node_store \<Rightarrow> stree \<Rightarrow> node_store \<times> hash_value \<Rightarrow> bool" where
  "yields E T ns t res \<longleftrightarrow>
     snd res = thash E t \<and> store_ok E T (fst res) \<and> extends ns (fst res) \<and> stored E (fst res) t"

lemma yields_same: "store_ok E T ns \<Longrightarrow> stored E ns t \<Longrightarrow> yields E T ns t (ns, thash E t)"
  by (simp add: yields_def)

lemma put_node_ok:
  assumes U: "hash_universe E T" and ok: "store_ok E T ns" and t: "t \<in> T" "t \<noteq> Tip"
    and sub: "\<And>s. s \<in> subtrees t \<Longrightarrow> s \<noteq> t \<Longrightarrow> s \<noteq> Tip \<Longrightarrow> fmlookup ns (thash E s) = Some (node_of E s)"
  shows "yields E T ns t (put_node E ns (node_of E t))"
proof -
  have same: "n = node_of E t" if n: "fmlookup ns (thash E t) = Some n" for n
  proof -
    obtain s where "s \<in> T" "thash E t = thash E s" "n = node_of E s"
      using ok n unfolding store_ok_def by blast
    with hash_universe_inj [OF U t(1), of s] show ?thesis
      by simp
  qed
  have "store_ok E T (fmupd (thash E t) (node_of E t) ns)"
    using ok t unfolding store_ok_def by auto
  moreover have ext: "extends ns (fmupd (thash E t) (node_of E t) ns)"
    using same by (auto simp: extends_def)
  moreover have "stored E (fmupd (thash E t) (node_of E t) ns) t"
    unfolding stored_def
  proof (intro ballI impI)
    fix s
    assume s: "s \<in> subtrees t" "s \<noteq> Tip"
    show "fmlookup (fmupd (thash E t) (node_of E t) ns) (thash E s) = Some (node_of E s)"
    proof (cases "s = t")
      case False
      then show ?thesis
        using sub [OF s(1) _ s(2)] ext by (simp add: extends_def)
    qed simp
  qed
  ultimately show ?thesis
    by (simp add: yields_def put_node_def)
qed

lemma put_leaf_ok:
  "hash_universe E T \<Longrightarrow> store_ok E T ns \<Longrightarrow> Lf k v \<in> T
   \<Longrightarrow> yields E T ns (Lf k v) (put_node E ns (new_leaf E k v))"
  using put_node_ok [of E T ns "Lf k v"] by simp

lemma put_internal_ok:
  "hash_universe E T \<Longrightarrow> store_ok E T ns \<Longrightarrow> Nd l r \<in> T \<Longrightarrow> stored E ns l \<Longrightarrow> stored E ns r
   \<Longrightarrow> yields E T ns (Nd l r) (put_node E ns (new_internal E (thash E l) (thash E r)))"
  using put_node_ok [of E T ns "Nd l r"] by (auto simp: stored_def)

lemma yields_trans: "yields E T ns s (ns1, h) \<Longrightarrow> yields E T ns1 t res \<Longrightarrow> yields E T ns t res"
  unfolding yields_def using extends_trans by auto

section \<open>Insertion and removal on the store\<close>

lemma yieldsD:
  assumes "yields E T ns t (ns1, h)"
  shows "h = thash E t" "store_ok E T ns1" "extends ns ns1" "stored E ns1 t"
  using assms by (simp_all add: yields_def)

lemma split_leaf_ok:
  assumes U: "hash_universe E T"
  shows "ek \<noteq> k \<Longrightarrow> agree d ek k \<Longrightarrow> split_tree ek ev k v d \<in> T \<Longrightarrow> store_ok E T ns
    \<Longrightarrow> yields E T ns (split_tree ek ev k v d) (split_leaf E ns ek ev k (new_leaf E k v) d)"
proof (induction ek ev k v d arbitrary: ns rule: split_tree.induct)
  case (1 ek ev k v d)
  have d: "\<not> 256 \<le> d"
    using 1(3,4) agree_all by blast
  have closed: "s \<in> T" if "s \<in> subtrees (split_tree ek ev k v d)" for s
    using U 1(5) that unfolding hash_universe_def by blast
  show ?case
  proof (cases "hv_bit ek d = hv_bit k d")
    case True
    let ?sub = "split_tree ek ev k v (Suc d)"
    have st: "split_tree ek ev k v d = (if hv_bit ek d then Nd Tip ?sub else Nd ?sub Tip)"
      using d True by (subst split_tree.simps) simp
    then have "?sub \<in> T"
      using closed [of ?sub] by (auto split: if_splits)
    moreover have "agree (Suc d) ek k"
      using 1(4) True by (simp add: agree_Suc)
    ultimately have Y: "yields E T ns ?sub (split_leaf E ns ek ev k (new_leaf E k v) (Suc d))"
      using 1(1,2) [OF d True _ 1(3)] 1(6) by (cases "hv_bit ek d") simp_all
    obtain ns1 h where sp: "split_leaf E ns ek ev k (new_leaf E k v) (Suc d) = (ns1, h)"
      by (rule prod.exhaust)
    note Y' = yieldsD [OF Y [unfolded sp]]
    have "yields E T ns1 (split_tree ek ev k v d) (split_leaf E ns ek ev k (new_leaf E k v) d)"
      using d True st put_internal_ok [OF U Y'(2) _ _ Y'(4), of Tip]
        put_internal_ok [OF U Y'(2) _ Y'(4), of Tip] 1(5) Y'(1)
      by (subst split_leaf.simps) (cases "hv_bit k d"; simp add: sp)
    with Y sp yields_trans show ?thesis
      by metis
  next
    case False
    obtain ns1 eh where p1: "put_node E ns (new_leaf E ek ev) = (ns1, eh)"
      by (rule prod.exhaust)
    obtain ns2 nh where p2: "put_node E ns1 (new_leaf E k v) = (ns2, nh)"
      by (rule prod.exhaust)
    have st: "split_tree ek ev k v d
        = (if hv_bit k d then Nd (Lf ek ev) (Lf k v) else Nd (Lf k v) (Lf ek ev))"
      using d False by (subst split_tree.simps) simp
    then have "Lf ek ev \<in> T" "Lf k v \<in> T"
      using closed by (auto split: if_splits)
    then have Y1: "yields E T ns (Lf ek ev) (ns1, eh)"
      using put_leaf_ok [OF U 1(6)] p1 by metis
    have Y2: "yields E T ns1 (Lf k v) (ns2, nh)"
      using put_leaf_ok [OF U yieldsD(2) [OF Y1] \<open>Lf k v \<in> T\<close>] p2 by metis
    note y1 = yieldsD [OF Y1] and y2 = yieldsD [OF Y2]
    have e: "stored E ns2 (Lf ek ev)"
      using stored_extends [OF y1(4) y2(3)] .
    have "yields E T ns2 (split_tree ek ev k v d) (split_leaf E ns ek ev k (new_leaf E k v) d)"
      using d False st put_internal_ok [OF U y2(2) _ e y2(4)] put_internal_ok [OF U y2(2) _ y2(4) e]
        1(5) y1(1) y2(1)
      by (subst split_leaf.simps) (cases "hv_bit k d"; simp add: p1 p2)
    then show ?thesis
      using yields_trans [OF Y1 yields_trans [OF Y2]] by blast
  qed
qed

lemma current_node_ok:
  assumes "hash_universe E T" "t \<in> T" "stored E ns t"
  shows "current_node E ns (thash E t) = node_of E t"
proof (cases "t = Tip")
  case False
  then have "fmlookup ns (thash E t) = Some (node_of E t)"
    using assms(3) unfolding stored_def by auto
  with thash_not_empty [OF assms(1,2) False] show ?thesis
    by (simp add: current_node_def)
qed (simp add: current_node_def)

lemma insert_at_node_ok:
  assumes U: "hash_universe E T"
  shows "canonical d t \<Longrightarrow> \<forall>a \<in> keys t. agree d a k \<Longrightarrow> t \<in> T \<Longrightarrow> ins_tree k v t d \<in> T
    \<Longrightarrow> store_ok E T ns \<Longrightarrow> stored E ns t
    \<Longrightarrow> yields E T ns (ins_tree k v t d) (insert_at_node E ns (thash E t) k (new_leaf E k v) d)"
proof (induction t arbitrary: d ns)
  case Tip
  then have "yields E T ns (Lf k v) (put_node E ns (new_leaf E k v))"
    using put_leaf_ok [OF U] by simp
  then show ?case
    using current_node_ok [OF U Tip.prems(3,6)] by (subst insert_at_node.simps) simp
next
  case (Lf ek ev)
  show ?case
  proof (cases "ek = k")
    case True
    then have "yields E T ns (Lf k v) (put_node E ns (new_leaf E k v))"
      using put_leaf_ok [OF U] Lf.prems by simp
    then show ?thesis
      using current_node_ok [OF U Lf.prems(3,6)] True
      by (subst insert_at_node.simps) (simp add: new_leaf_def)
  next
    case False
    then have "d < 256"
      using Lf.prems(2) agree_all [of d ek k] by force
    moreover have "yields E T ns (split_tree ek ev k v d) (split_leaf E ns ek ev k (new_leaf E k v) d)"
      using split_leaf_ok [OF U False] Lf.prems False by simp
    ultimately show ?thesis
      using current_node_ok [OF U Lf.prems(3,6)] False
      by (subst insert_at_node.simps) (simp add: new_leaf_def)
  qed
next
  case (Nd l r)
  note sub = canonical_NdD [OF Nd.prems(1)] and side = side_agree [OF Nd.prems(1,2)]
  have d: "\<not> 256 \<le> d"
    using canonical_depth [OF Nd.prems(1)] by simp
  have closed: "s \<in> T" if "s \<in> subtrees (Nd l r) \<or> s \<in> subtrees (ins_tree k v (Nd l r) d)" for s
    using U Nd.prems(3,4) that unfolding hash_universe_def by blast
  have st: "stored E ns l" "stored E ns r"
    using Nd.prems(6) by simp_all
  show ?case
  proof (cases "hv_bit k d")
    case True
    obtain ns1 h where i: "insert_at_node E ns (thash E r) k (new_leaf E k v) (Suc d) = (ns1, h)"
      by (rule prod.exhaust)
    have "r \<in> T" "ins_tree k v r (Suc d) \<in> T"
      using closed True by simp_all
    then have Y: "yields E T ns (ins_tree k v r (Suc d)) (ns1, h)"
      using Nd.IH(2) [OF sub(2) side(1) [OF True] _ _ Nd.prems(5) st(2)] i by simp
    note y = yieldsD [OF Y]
    have "yields E T ns1 (Nd l (ins_tree k v r (Suc d)))
        (put_node E ns1 (new_internal E (thash E l) h))"
      unfolding y(1)
      by (rule put_internal_ok [OF U y(2) _ stored_extends [OF st(1) y(3)] y(4)])
        (use Nd.prems(4) True in simp)
    then have "yields E T ns (Nd l (ins_tree k v r (Suc d)))
        (put_node E ns1 (new_internal E (thash E l) h))"
      by (rule yields_trans [OF Y])
    with d True i show ?thesis
      using current_node_ok [OF U Nd.prems(3,6)]
      by (subst insert_at_node.simps) (simp add: new_internal_def)
  next
    case False
    obtain ns1 h where i: "insert_at_node E ns (thash E l) k (new_leaf E k v) (Suc d) = (ns1, h)"
      by (rule prod.exhaust)
    have "l \<in> T" "ins_tree k v l (Suc d) \<in> T"
      using closed False by simp_all
    then have Y: "yields E T ns (ins_tree k v l (Suc d)) (ns1, h)"
      using Nd.IH(1) [OF sub(1) side(3) [OF False] _ _ Nd.prems(5) st(1)] i by simp
    note y = yieldsD [OF Y]
    have "yields E T ns1 (Nd (ins_tree k v l (Suc d)) r)
        (put_node E ns1 (new_internal E h (thash E r)))"
      unfolding y(1)
      by (rule put_internal_ok [OF U y(2) _ y(4) stored_extends [OF st(2) y(3)]])
        (use Nd.prems(4) False in simp)
    then have "yields E T ns (Nd (ins_tree k v l (Suc d)) r)
        (put_node E ns1 (new_internal E h (thash E r)))"
      by (rule yields_trans [OF Y])
    with d False i show ?thesis
      using current_node_ok [OF U Nd.prems(3,6)]
      by (subst insert_at_node.simps) (simp add: new_internal_def)
  qed
qed

lemma is_leaf_at_ok:
  "t \<noteq> Tip \<Longrightarrow> stored E ns t \<Longrightarrow> is_leaf_at ns (thash E t) \<longleftrightarrow> (\<exists>k v. t = Lf k v)"
  by (cases t) (simp_all add: is_leaf_at_def new_leaf_def new_internal_def)

lemma join_children_ok:
  assumes U: "hash_universe E T" and st: "store_ok E T ns" "stored E ns l" "stored E ns r"
    and T: "l \<in> T" "r \<in> T" "join_tree l r \<in> T"
  shows "yields E T ns (join_tree l r) (join_children E ns (thash E l) (thash E r))"
proof -
  have empty: "thash E t = empty_hash E \<longleftrightarrow> t = Tip" if "t \<in> T" for t
    using thash_not_empty [OF U that] by auto
  have node: "yields E T ns (Nd l r) (put_node E ns (new_internal E (thash E l) (thash E r)))"
    if "join_tree l r = Nd l r"
    using put_internal_ok [OF U st(1) _ st(2,3)] T(3) that by simp
  show ?thesis
    using node is_leaf_at_ok [OF _ st(2)] is_leaf_at_ok [OF _ st(3)] yields_same [OF st(1,2)]
      yields_same [OF st(1,3)] empty [OF T(1)] empty [OF T(2)]
    by (cases l; cases r) (simp_all add: join_children_def)
qed

lemma remove_at_node_ok:
  assumes U: "hash_universe E T"
  shows "canonical d t \<Longrightarrow> t \<in> T \<Longrightarrow> del_tree k t d \<in> T \<Longrightarrow> store_ok E T ns \<Longrightarrow> stored E ns t
    \<Longrightarrow> \<exists>res. remove_at_node E ns (thash E t) k d = Some res \<and> yields E T ns (del_tree k t d) res"
proof (induction t arbitrary: d ns)
  case Tip
  then show ?case
    using yields_same [of E T ns Tip] by (subst remove_at_node.simps) simp
next
  case (Lf ek ev)
  have "thash E (Lf ek ev) \<noteq> empty_hash E"
    using thash_not_empty [OF U Lf.prems(2)] by simp
  moreover have "fmlookup ns (thash E (Lf ek ev)) = Some (new_leaf E ek ev)"
    using Lf.prems(5) by simp
  ultimately show ?case
    using yields_same [of E T ns Tip] yields_same [OF Lf.prems(4,5)] Lf.prems(4)
    by (subst remove_at_node.simps) (simp add: new_leaf_def)
next
  case (Nd l r)
  note sub = canonical_NdD [OF Nd.prems(1)]
  have d: "\<not> 256 \<le> d"
    using canonical_depth [OF Nd.prems(1)] by simp
  have ne: "thash E (Nd l r) \<noteq> empty_hash E"
    using thash_not_empty [OF U Nd.prems(2)] by simp
  have lk: "fmlookup ns (thash E (Nd l r)) = Some (new_internal E (thash E l) (thash E r))"
    using Nd.prems(5) by simp
  have st: "stored E ns l" "stored E ns r"
    using Nd.prems(5) by simp_all
  have T: "l \<in> T" "r \<in> T"
    using U Nd.prems(2) unfolding hash_universe_def by fastforce+
  have closed: "s \<in> T" if "join_tree a b \<in> T" "s = a \<or> s = b" for a b s
    using U that unfolding hash_universe_def
    by (cases "(a, b)" rule: join_tree.cases) (fastforce+)
  show ?case
  proof (cases "hv_bit k d")
    case True
    have J: "join_tree l (del_tree k r (Suc d)) \<in> T"
      using Nd.prems(3) True by simp
    then obtain ns1 h where i: "remove_at_node E ns (thash E r) k (Suc d) = Some (ns1, h)"
      and Y: "yields E T ns (del_tree k r (Suc d)) (ns1, h)"
      using Nd.IH(2) [OF sub(2) T(2) _ Nd.prems(4) st(2)] closed by (metis prod.exhaust)
    note y = yieldsD [OF Y]
    have "yields E T ns1 (join_tree l (del_tree k r (Suc d))) (join_children E ns1 (thash E l) h)"
      unfolding y(1) using join_children_ok [OF U y(2) stored_extends [OF st(1) y(3)] y(4) T(1)]
        closed [OF J] J by simp
    then have "yields E T ns (join_tree l (del_tree k r (Suc d))) (join_children E ns1 (thash E l) h)"
      by (rule yields_trans [OF Y])
    with d True i ne lk show ?thesis
      by (subst remove_at_node.simps) (simp add: new_internal_def)
  next
    case False
    have J: "join_tree (del_tree k l (Suc d)) r \<in> T"
      using Nd.prems(3) False by simp
    then obtain ns1 h where i: "remove_at_node E ns (thash E l) k (Suc d) = Some (ns1, h)"
      and Y: "yields E T ns (del_tree k l (Suc d)) (ns1, h)"
      using Nd.IH(1) [OF sub(1) T(1) _ Nd.prems(4) st(1)] closed by (metis prod.exhaust)
    note y = yieldsD [OF Y]
    have "yields E T ns1 (join_tree (del_tree k l (Suc d)) r) (join_children E ns1 h (thash E r))"
      unfolding y(1) using join_children_ok [OF U y(2) y(4) stored_extends [OF st(2) y(3)] _ T(2)]
        closed [OF J] J by simp
    then have "yields E T ns (join_tree (del_tree k l (Suc d)) r) (join_children E ns1 h (thash E r))"
      by (rule yields_trans [OF Y])
    with d False i ne lk show ?thesis
      by (subst remove_at_node.simps) (simp add: new_internal_def)
  qed
qed

section \<open>The incremental tree\<close>

definition inc_ok :: "ext \<Rightarrow> stree set \<Rightarrow> inc_tree \<Rightarrow> bool" where
  "inc_ok E T t \<longleftrightarrow>
     root_hash t = thash E (tree_of E (leaves t)) \<and> tree_of E (leaves t) \<in> T \<and>
     store_ok E T (nodes t) \<and> stored E (nodes t) (tree_of E (leaves t))"

lemma inc_new_ok: "hash_universe E T \<Longrightarrow> inc_ok E T (inc_new E)"
  by (simp add: inc_ok_def inc_new_def store_ok_def hash_universe_def)

lemma insert_without_tracking_ok:
  assumes U: "hash_universe E T" and t: "inc_ok E T t"
    and T: "tree_of E (fmupd k v (leaves t)) \<in> T"
  shows "inc_ok E T (fst (insert_without_tracking E t k v))"
    and "leaves (fst (insert_without_tracking E t k v)) = fmupd k v (leaves t)"
proof -
  obtain ns h where i: "insert_at_node E (nodes t) (root_hash t) k (new_leaf E k (hash_value_of E v)) 0
      = (ns, h)"
    by (rule prod.exhaust)
  have "yields E T (nodes t) (tree_of E (fmupd k v (leaves t))) (ns, h)"
    using insert_at_node_ok [OF U tree_of_canonical, of E "leaves t" k "hash_value_of E v" "nodes t"]
      t T i by (simp add: inc_ok_def tree_of_upd)
  then show "inc_ok E T (fst (insert_without_tracking E t k v))"
    using T yieldsD by (fastforce simp: insert_without_tracking_def inc_ok_def i)
  show "leaves (fst (insert_without_tracking E t k v)) = fmupd k v (leaves t)"
    by (simp add: insert_without_tracking_def i)
qed

text \<open>\<open>insert\<close> differs from \<open>insert_without_tracking\<close> in the change tracking only.\<close>

lemma inc_insert_conv:
  "fst (inc_insert E t k v) =
     (fst (insert_without_tracking E t k v))\<lparr>dirty_leaves := finsert k (dirty_leaves t),
        deleted_leaves := deleted_leaves t |-| {|k|}\<rparr>"
  by (simp add: inc_insert_def insert_without_tracking_def Let_def split: prod.split)

lemma inc_ok_tracking [simp]: "inc_ok E T (t\<lparr>dirty_leaves := a, deleted_leaves := b\<rparr>) = inc_ok E T t"
  by (simp add: inc_ok_def)

lemma inc_insert_ok:
  "hash_universe E T \<Longrightarrow> inc_ok E T t \<Longrightarrow> tree_of E (fmupd k v (leaves t)) \<in> T
   \<Longrightarrow> inc_ok E T (fst (inc_insert E t k v))"
  by (simp add: inc_insert_conv insert_without_tracking_ok)

lemma inc_insert_leaves [simp]: "leaves (fst (inc_insert E t k v)) = fmupd k v (leaves t)"
  by (simp add: inc_insert_def Let_def split: prod.split)

lemma inc_remove_ok:
  assumes U: "hash_universe E T" and t: "inc_ok E T t"
    and T: "tree_of E (fmdrop k (leaves t)) \<in> T"
  shows "\<exists>t'. inc_remove E t k = Some (t', fmlookup (leaves t) k) \<and> inc_ok E T t' \<and>
           leaves t' = fmdrop k (leaves t)"
proof (cases "fmlookup (leaves t) k")
  case None
  then show ?thesis
    using t by (simp add: inc_remove_def fmdrop_None)
next
  case (Some v)
  obtain ns h where i: "remove_at_node E (nodes t) (root_hash t) k 0 = Some (ns, h)"
    and Y: "yields E T (nodes t) (tree_of E (fmdrop k (leaves t))) (ns, h)"
    using remove_at_node_ok [OF U tree_of_canonical, of E "leaves t" k "nodes t"] t T
    by (auto simp: inc_ok_def tree_of_drop)
  show ?thesis
    using Some i yieldsD [OF Y] T by (simp add: inc_remove_def inc_ok_def)
qed

section \<open>Both trees agree\<close>

datatype smt_op = InsertLeaf hash_value bytes | RemoveLeaf hash_value

fun leaf_step :: "(hash_value, bytes) fmap \<Rightarrow> smt_op \<Rightarrow> (hash_value, bytes) fmap" where
  "leaf_step m (InsertLeaf k v) = fmupd k v m"
| "leaf_step m (RemoveLeaf k) = fmdrop k m"

fun inc_run :: "ext \<Rightarrow> smt_op list \<Rightarrow> inc_tree \<Rightarrow> inc_tree option" where
  "inc_run E [] t = Some t"
| "inc_run E (InsertLeaf k v # ops) t = inc_run E ops (fst (inc_insert E t k v))"
| "inc_run E (RemoveLeaf k # ops) t =
     (case inc_remove E t k of None \<Rightarrow> None | Some (t', _) \<Rightarrow> inc_run E ops t')"

fun smt_run :: "ext \<Rightarrow> smt_op list \<Rightarrow> sparse_merkle_tree \<Rightarrow> sparse_merkle_tree" where
  "smt_run E [] t = t"
| "smt_run E (InsertLeaf k v # ops) t = smt_run E ops (fst (smt_insert E t k v))"
| "smt_run E (RemoveLeaf k # ops) t = smt_run E ops (fst (smt_remove E t k))"

fun subtree_list :: "stree \<Rightarrow> stree list" where
  "subtree_list Tip = [Tip]"
| "subtree_list (Lf k v) = [Lf k v]"
| "subtree_list (Nd l r) = Nd l r # subtree_list l @ subtree_list r"

lemma set_subtree_list [simp]: "set (subtree_list t) = subtrees t"
  by (induction t) auto

text \<open>The trees that a sequence of operations passes through, and the bytes hashed for them.\<close>

fun visited :: "ext \<Rightarrow> (hash_value, bytes) fmap \<Rightarrow> smt_op list \<Rightarrow> stree list" where
  "visited E m [] = [tree_of E m]"
| "visited E m (x # ops) = tree_of E m # visited E (leaf_step m x) ops"

definition universe :: "ext \<Rightarrow> smt_op list \<Rightarrow> stree list" where
  "universe E ops = Tip # concat (map subtree_list (visited E fmempty ops))"

definition hashed_nodes :: "ext \<Rightarrow> smt_op list \<Rightarrow> bytes list" where
  "hashed_nodes E ops = map (node_bytes E) (universe E ops)"

lemma universe_ok: "collision_free E (hashed_nodes E ops) \<Longrightarrow> hash_universe E (set (universe E ops))"
  by (auto simp: hash_universe_def universe_def hashed_nodes_def collision_free_inj subset_iff
      intro: subtree_trans)

lemma visited_self: "tree_of E m \<in> set (visited E m ops)"
  by (cases ops) auto

lemma inc_run_ok:
  assumes U: "hash_universe E T"
  shows "inc_ok E T t \<Longrightarrow> set (visited E (leaves t) ops) \<subseteq> T
    \<Longrightarrow> \<exists>t'. inc_run E ops t = Some t' \<and> inc_ok E T t' \<and> leaves t' = foldl leaf_step (leaves t) ops"
proof (induction ops arbitrary: t)
  case (Cons x ops)
  show ?case
  proof (cases x)
    case (InsertLeaf k v)
    then have "tree_of E (fmupd k v (leaves t)) \<in> T"
      using Cons.prems(2) visited_self [of E "fmupd k v (leaves t)" ops] by auto
    then have "inc_ok E T (fst (inc_insert E t k v))"
      by (rule inc_insert_ok [OF U Cons.prems(1)])
    with Cons.IH [of "fst (inc_insert E t k v)"] Cons.prems(2) InsertLeaf show ?thesis
      by simp
  next
    case (RemoveLeaf k)
    then have "tree_of E (fmdrop k (leaves t)) \<in> T"
      using Cons.prems(2) visited_self [of E "fmdrop k (leaves t)" ops] by auto
    then obtain t' where t': "inc_remove E t k = Some (t', fmlookup (leaves t) k)" "inc_ok E T t'"
        "leaves t' = fmdrop k (leaves t)"
      using inc_remove_ok [OF U Cons.prems(1)] by blast
    with Cons.IH [of t'] Cons.prems(2) RemoveLeaf show ?thesis
      by simp
  qed
qed simp

lemma smt_run_leaves: "smt_leaves (smt_run E ops t) = foldl leaf_step (smt_leaves t) ops"
proof (induction ops arbitrary: t)
  case (Cons x ops)
  have rb: "smt_leaves (rebuild_tree E u) = smt_leaves u" for u
    by (simp add: rebuild_tree_def Let_def split: prod.split)
  show ?case
    using Cons by (cases x) (simp_all add: smt_insert_def smt_remove_def rb fmdrop_None split: option.split)
qed simp

lemma smt_run_root:
  "smt_root_hash t = thash E (tree_of E (smt_leaves t))
   \<Longrightarrow> smt_root_hash (smt_run E ops t) = thash E (tree_of E (smt_leaves (smt_run E ops t)))"
proof (induction ops arbitrary: t)
  case (Cons x ops)
  have rb: "smt_leaves (rebuild_tree E u) = smt_leaves u" for u
    by (simp add: rebuild_tree_def Let_def split: prod.split)
  show ?case
    using Cons.prems by (cases x)
      (auto simp: smt_insert_def smt_remove_def rb rebuild_tree_root intro!: Cons.IH split: option.split)
qed simp

text \<open>
  C7: the incremental tree and the tree that is rebuilt from all its leaves agree. Whatever
  insertions and removals are applied, the incremental tree does not panic, holds the same leaves
  and has the same root hash, as long as the hash function has no collision on the nodes of the
  trees that the operations pass through.
\<close>

theorem incremental_matches_rebuild:
  assumes "collision_free E (hashed_nodes E ops)"
  shows "\<exists>t. inc_run E ops (inc_new E) = Some t \<and>
             leaves t = smt_leaves (smt_run E ops (smt_new E)) \<and>
             root_hash t = smt_root_hash (smt_run E ops (smt_new E))"
proof -
  note U = universe_ok [OF assms]
  have "set (visited E fmempty ops) \<subseteq> set (universe E ops)"
    by (auto simp: universe_def)
  then obtain t where t: "inc_run E ops (inc_new E) = Some t" "inc_ok E (set (universe E ops)) t"
      "leaves t = foldl leaf_step fmempty ops"
    using inc_run_ok [OF U inc_new_ok [OF U], of ops] by (auto simp: inc_new_def)
  moreover have "smt_leaves (smt_run E ops (smt_new E)) = leaves t"
    using t(3) by (simp add: smt_run_leaves smt_new_def)
  moreover have "smt_root_hash (smt_run E ops (smt_new E)) = thash E (tree_of E (leaves t))"
    using smt_run_root [of "smt_new E" E ops] t(3) by (simp add: smt_run_leaves smt_new_def)
  ultimately show ?thesis
    by (auto simp: inc_ok_def)
qed

definition toy_ext :: ext where
  "toy_ext = sample_ext\<lparr>blake3 := \<lambda>bs. from_le_bytes (take 2 bs)\<rparr>"

definition sample_smt_ops :: "smt_op list" where
  "sample_smt_ops = [InsertLeaf 0 [1], InsertLeaf 0x8000000000000000000000000000000000000000000000000000000000000000 [2], RemoveLeaf 0]"

lemma sample_collision_free: "collision_free toy_ext (hashed_nodes toy_ext sample_smt_ops)"
  by code_simp

theorem incremental_matches_rebuild_witness:
  "\<exists>t. inc_run toy_ext sample_smt_ops (inc_new toy_ext) = Some t \<and>
       leaves t = smt_leaves (smt_run toy_ext sample_smt_ops (smt_new toy_ext)) \<and>
       root_hash t = smt_root_hash (smt_run toy_ext sample_smt_ops (smt_new toy_ext))"
  by (rule incremental_matches_rebuild [OF sample_collision_free])

end
