(* ===== verification/Sparse_Proofs.thy ===== *)
theory Sparse_Proofs
  imports Sparse_Merkle_Refine
begin

text \<open>
  The proofs of the incremental sparse Merkle tree: the proof of a key verifies against the root
  (with one exception, keys that differ in their last bit only), and a proof that verifies tells
  the truth about the tree as long as the hash function has no collision on the nodes of the tree
  and of the proof.
\<close>

section \<open>Common prefixes\<close>

lemma takeWhile_nth_holds: "j < length (takeWhile P xs) \<Longrightarrow> P (xs ! j)"
  by (metis nth_mem set_takeWhileD takeWhile_nth)

lemma leading_zeros_le: "leading_zeros w \<le> 8"
  using length_takeWhile_le [of "\<lambda>j. \<not> bit w j" "[7, 6, 5, 4, 3, 2, 1, 0]"]
  by (simp add: leading_zeros_def)

lemma leading_zeros_bit: "j < leading_zeros w \<Longrightarrow> \<not> bit w (7 - j)"
proof -
  assume j: "j < leading_zeros w"
  then have "\<not> bit w ([7, 6, 5, 4, 3, 2, 1, 0] ! j)"
    unfolding leading_zeros_def by (rule takeWhile_nth_holds)
  moreover have "j \<in> {0, 1, 2, 3, 4, 5, 6, 7}"
    using j leading_zeros_le [of w] by auto
  then have "[7, 6, 5, 4, 3, 2, 1, 0] ! j = 7 - j"
    by auto
  ultimately show ?thesis
    by (simp only: simp_thms)
qed

lemma common_prefix_loop:
  "length xs = length ys \<Longrightarrow> m < common_prefix_loop i xs ys \<Longrightarrow> i * 8 \<le> m
   \<Longrightarrow> m div 8 - i < length xs
   \<Longrightarrow> bit (xs ! (m div 8 - i)) (7 - m mod 8) = bit (ys ! (m div 8 - i)) (7 - m mod 8)"
proof (induction i xs ys rule: common_prefix_loop.induct)
  case (1 i x xs y ys)
  show ?case
  proof (cases "x = y")
    case True
    show ?thesis
    proof (cases "m div 8 = i")
      case False
      then have "Suc i * 8 \<le> m"
        using 1(4) by auto
      moreover obtain j where "m div 8 - i = Suc j" "m div 8 - Suc i = j"
        using False 1(4) by (cases "m div 8 - i") auto
      ultimately show ?thesis
        using 1 True by simp
    qed (use True in simp)
  next
    case False
    then have m: "m < i * 8 + leading_zeros (xor x y)"
      using 1(3) by simp
    moreover have "m div 8 = i"
      using m 1(4) leading_zeros_le [of "xor x y"] by auto
    ultimately have "m mod 8 < leading_zeros (xor x y)"
      using div_mod_decomp [of m 8] by simp
    with leading_zeros_bit [of "m mod 8" "xor x y"] \<open>m div 8 = i\<close> show ?thesis
      by (simp add: bit_xor_iff)
  qed
qed auto

lemma common_prefix_agree:
  assumes "n \<le> common_prefix_bits a b" and "n \<le> 256"
  shows "agree n a b"
  unfolding agree_def
proof (intro allI impI)
  fix i
  assume "i < n"
  then have "i < common_prefix_loop 0 (as_bytes a) (as_bytes b)" "i div 8 < 32"
    using assms by (auto simp: common_prefix_bits_def)
  then show "hv_bit a i = hv_bit b i"
    using common_prefix_loop [of "as_bytes a" "as_bytes b" i 0] by (simp add: hv_bit_def)
qed

lemma leading_zeros_stop: "w \<noteq> 0 \<Longrightarrow> leading_zeros w < 8 \<and> bit w (7 - leading_zeros w)" for w :: u8
proof -
  assume "w \<noteq> 0"
  then obtain n where n: "bit w n" "n < 8"
    using bit_word_eqI [of w 0] by auto
  let ?xs = "[7, 6, 5, 4, 3, 2, 1, 0] :: nat list"
  have lz: "leading_zeros w < 8"
  proof (rule ccontr)
    assume "\<not> leading_zeros w < 8"
    then have "\<not> bit w (7 - (7 - n))"
      using leading_zeros_bit [of "7 - n" w] by simp
    with n show False
      by simp
  qed
  then have "length (takeWhile (\<lambda>j. \<not> bit w j) ?xs) < length ?xs"
    by (simp only: leading_zeros_def [symmetric] list.size)
  then have "bit w (?xs ! leading_zeros w)"
    unfolding leading_zeros_def using nth_length_takeWhile [of "\<lambda>j. \<not> bit w j" ?xs] by blast
  moreover have "leading_zeros w \<in> {0, 1, 2, 3, 4, 5, 6, 7}"
    using lz by auto
  then have "?xs ! leading_zeros w = 7 - leading_zeros w"
    by auto
  ultimately show ?thesis
    using lz by (simp only: simp_thms)
qed

lemma xor_zero_eq: "xor x y = 0 \<Longrightarrow> x = y" for x y :: "'a::len word"
proof (rule bit_word_eqI)
  fix n
  assume "xor x y = 0"
  then have "bit (xor x y) n = bit (0 :: 'a word) n"
    by simp
  then show "bit x n = bit y n"
    by (simp add: bit_xor_iff)
qed

lemma common_prefix_loop_stop:
  "length xs = length ys \<Longrightarrow> common_prefix_loop i xs ys < 8 * (i + length xs)
   \<Longrightarrow> i \<le> common_prefix_loop i xs ys div 8 \<and>
       bit (xs ! (common_prefix_loop i xs ys div 8 - i)) (7 - common_prefix_loop i xs ys mod 8) \<noteq>
       bit (ys ! (common_prefix_loop i xs ys div 8 - i)) (7 - common_prefix_loop i xs ys mod 8)"
proof (induction i xs ys rule: common_prefix_loop.induct)
  case (1 i x xs y ys)
  show ?case
  proof (cases "x = y")
    case True
    let ?c = "common_prefix_loop (Suc i) xs ys"
    have IH: "Suc i \<le> ?c div 8" "bit (xs ! (?c div 8 - Suc i)) (7 - ?c mod 8) \<noteq>
        bit (ys ! (?c div 8 - Suc i)) (7 - ?c mod 8)"
      using 1 True by simp_all
    then obtain j where "?c div 8 - i = Suc j" "?c div 8 - Suc i = j"
      by (cases "?c div 8 - i") auto
    with IH True show ?thesis
      by simp
  next
    case False
    then have "xor x y \<noteq> 0"
      by (rule contrapos_nn) (rule xor_zero_eq)
    then have *: "leading_zeros (xor x y) < 8" "bit (xor x y) (7 - leading_zeros (xor x y))"
      using leading_zeros_stop by blast+
    then have "(i * 8 + leading_zeros (xor x y)) div 8 = i"
      "(i * 8 + leading_zeros (xor x y)) mod 8 = leading_zeros (xor x y)"
      by auto
    with * False show ?thesis
      by (simp add: bit_xor_iff)
  qed
qed auto

lemma agree_common_prefix:
  assumes "agree n a b" and "n \<le> 256"
  shows "n \<le> common_prefix_bits a b"
proof (rule ccontr)
  assume n: "\<not> n \<le> common_prefix_bits a b"
  then have "hv_bit a (common_prefix_bits a b) \<noteq> hv_bit b (common_prefix_bits a b)"
    using common_prefix_loop_stop [of "as_bytes a" "as_bytes b" 0] assms(2)
    by (simp add: common_prefix_bits_def hv_bit_def)
  with assms(1) n show False
    by (auto simp: agree_def)
qed

section \<open>Paths\<close>

fun path_siblings :: "ext \<Rightarrow> stree \<Rightarrow> hash_value \<Rightarrow> nat \<Rightarrow> hash_value list" where
  "path_siblings E (Nd l r) k d =
     (if hv_bit k d then thash E l # path_siblings E r k (Suc d)
      else thash E r # path_siblings E l k (Suc d))"
| "path_siblings E t k d = []"

fun path_end :: "stree \<Rightarrow> hash_value \<Rightarrow> nat \<Rightarrow> stree" where
  "path_end (Nd l r) k d = (if hv_bit k d then path_end r k (Suc d) else path_end l k (Suc d))"
| "path_end t k d = t"

fun leaf_of :: "stree \<Rightarrow> leaf_node option" where
  "leaf_of (Lf k v) = Some \<lparr>ln_key = k, ln_value_hash = v\<rparr>"
| "leaf_of _ = None"

lemma path_root: "root_from E k d (path_siblings E t k d) (thash E (path_end t k d)) = thash E t"
  by (induction t arbitrary: d) (simp_all add: Let_def)

lemma path_end_shape: "path_end t k d = Tip \<or> (\<exists>lk lv. path_end t k d = Lf lk lv)"
  by (induction t arbitrary: d) auto

lemma path_end_lvs:
  "canonical d t \<Longrightarrow> \<forall>a \<in> keys t. agree d a k
   \<Longrightarrow> lvs (path_end t k d) = {p \<in> lvs t. agree (d + length (path_siblings E t k d)) (fst p) k}"
proof (induction t arbitrary: d)
  case (Nd l r)
  note sub = canonical_NdD [OF Nd.prems(1)] and side = side_agree [OF Nd.prems]
  have ag: "hv_bit a d \<noteq> hv_bit k d \<Longrightarrow> \<not> agree (Suc (d + n)) a k" for a n
    unfolding agree_def by (metis le_add1 less_Suc_eq_le)
  show ?case
  proof (cases "hv_bit k d")
    case True
    then have "lvs (path_end r k (Suc d)) =
        {p \<in> lvs r. agree (Suc d + length (path_siblings E r k (Suc d))) (fst p) k}"
      using Nd.IH(2) [OF sub(2) side(1)] by blast
    moreover have "\<forall>p \<in> lvs l. \<not> agree (Suc (d + n)) (fst p) k" for n
      using True sub(3) ag by blast
    ultimately show ?thesis
      using True by auto
  next
    case False
    then have "lvs (path_end l k (Suc d)) =
        {p \<in> lvs l. agree (Suc d + length (path_siblings E l k (Suc d))) (fst p) k}"
      using Nd.IH(1) [OF sub(1) side(3)] by blast
    moreover have "\<forall>p \<in> lvs r. \<not> agree (Suc (d + n)) (fst p) k" for n
      using False sub(4) ag by blast
    ultimately show ?thesis
      using False by auto
  qed
qed auto

text \<open>Above the end of a path is a node with two keys that agree with the path.\<close>

lemma path_parent:
  "canonical d t \<Longrightarrow> \<forall>a \<in> keys t. agree d a k \<Longrightarrow> length (path_siblings E t k d) = Suc n
   \<Longrightarrow> \<exists>a \<in> keys t. \<exists>b \<in> keys t. a \<noteq> b \<and> agree (d + n) a k \<and> agree (d + n) b k"
proof (induction t arbitrary: d n)
  case (Nd l r)
  note sub = canonical_NdD [OF Nd.prems(1)] and side = side_agree [OF Nd.prems(1,2)]
  obtain a b where ab: "a \<in> keys (Nd l r)" "b \<in> keys (Nd l r)" "a \<noteq> b"
    by (rule canonical_two [OF Nd.prems(1)])
  show ?case
  proof (cases n)
    case 0
    with ab Nd.prems(2) show ?thesis
      by auto
  next
    case (Suc m)
    show ?thesis
    proof (cases "hv_bit k d")
      case True
      then have "length (path_siblings E r k (Suc d)) = Suc m"
        using Nd.prems(3) Suc by simp
      then obtain a b where "a \<in> keys r" "b \<in> keys r" "a \<noteq> b" "agree (Suc d + m) a k" "agree (Suc d + m) b k"
        using Nd.IH(2) [OF sub(2) side(1) [OF True]] by blast
      with Suc show ?thesis
        by (auto simp: image_Un)
    next
      case False
      then have "length (path_siblings E l k (Suc d)) = Suc m"
        using Nd.prems(3) Suc by simp
      then obtain a b where "a \<in> keys l" "b \<in> keys l" "a \<noteq> b" "agree (Suc d + m) a k" "agree (Suc d + m) b k"
        using Nd.IH(1) [OF sub(1) side(3) [OF False]] by blast
      with Suc show ?thesis
        by (auto simp: image_Un)
    qed
  qed
qed auto

lemma proof_loop_ok:
  assumes U: "hash_universe E T"
  shows "canonical d t \<Longrightarrow> t \<in> T \<Longrightarrow> stored E ns t \<Longrightarrow> d \<le> 256
    \<Longrightarrow> proof_loop E ns k (thash E t) d acc =
         \<lparr>siblings = acc @ path_siblings E t k d,
          proof_leaf = (if d + length (path_siblings E t k d) < 256 then leaf_of (path_end t k d)
                        else None)\<rparr>"
proof (induction t arbitrary: d acc)
  case Tip
  then show ?case
    by (subst proof_loop.simps) simp
next
  case (Lf lk lv)
  then have "thash E (Lf lk lv) \<noteq> empty_hash E"
    using thash_not_empty [OF U] by blast
  with Lf show ?case
    by (subst proof_loop.simps) (simp add: new_leaf_def)
next
  case (Nd l r)
  note sub = canonical_NdD [OF Nd.prems(1)]
  have "thash E (Nd l r) \<noteq> empty_hash E"
    using thash_not_empty [OF U Nd.prems(2)] by blast
  moreover have d: "d < 256"
    using canonical_depth [OF Nd.prems(1)] .
  moreover have "l \<in> T" "r \<in> T"
    using U Nd.prems(2) unfolding hash_universe_def by fastforce+
  ultimately show ?case
    using Nd.prems(3) Nd.IH(1) [OF sub(1)] Nd.IH(2) [OF sub(2)]
    by (subst proof_loop.simps) (simp add: new_internal_def)
qed

lemma root_from_agree: "agree (d + length ss) a b \<Longrightarrow> root_from E a d ss h = root_from E b d ss h"
proof (induction ss arbitrary: d)
  case (Cons s ss)
  then have "hv_bit a d = hv_bit b d" "agree (Suc d + length ss) a b"
    by (simp_all add: agree_def)
  with Cons.IH [of "Suc d"] show ?case
    by simp
qed simp

section \<open>The proofs verify\<close>

lemma reached_ok:
  assumes "collision_free E (hashed_nodes E ops)" and "inc_run E ops (inc_new E) = Some t"
  shows "inc_ok E (set (universe E ops)) t"
proof -
  note U = universe_ok [OF assms(1)]
  have "set (visited E fmempty ops) \<subseteq> set (universe E ops)"
    by (auto simp: universe_def)
  with inc_run_ok [OF U inc_new_ok [OF U], of ops] assms(2) show ?thesis
    by (auto simp: inc_new_def)
qed

lemma inc_get_proof_ok:
  assumes "hash_universe E T" "inc_ok E T t"
  shows "inc_get_proof E t k =
    \<lparr>siblings = path_siblings E (tree_of E (leaves t)) k 0,
     proof_leaf = (if length (path_siblings E (tree_of E (leaves t)) k 0) < 256
                   then leaf_of (path_end (tree_of E (leaves t)) k 0) else None)\<rparr>"
  using proof_loop_ok [OF assms(1) tree_of_canonical, of E "leaves t" "nodes t" k "[]"] assms(2)
  by (simp add: inc_get_proof_def inc_ok_def)

lemma present_path_end:
  assumes "fmlookup m k = Some v"
  shows "path_end (tree_of E m) k 0 = Lf k (hash_value_of E v)"
proof -
  have "lvs (path_end (tree_of E m) k 0) = {p \<in> lvs (tree_of E m).
      agree (length (path_siblings E (tree_of E m) k 0)) (fst p) k}"
    using path_end_lvs [OF tree_of_canonical, of E m k E] by simp
  moreover have "(k, hash_value_of E v) \<in> lvs (tree_of E m)"
    using assms by (auto simp: tree_of_lvs)
  ultimately have "(k, hash_value_of E v) \<in> lvs (path_end (tree_of E m) k 0)"
    by simp
  with path_end_shape [of "tree_of E m" k 0] show ?thesis
    by auto
qed

text \<open>A path of length 256 ends at one of two keys that differ in the last bit only.\<close>

lemma long_path:
  assumes "256 \<le> length (path_siblings E (tree_of E m) k 0)"
  obtains a where "a \<in> fset (fmdom m)" "a \<noteq> k" "agree 255 a k" "k \<in> fset (fmdom m)"
proof -
  obtain n where n: "length (path_siblings E (tree_of E m) k 0) = Suc n" "255 \<le> n"
    using assms by (cases "length (path_siblings E (tree_of E m) k 0)") auto
  obtain a b where ab: "a \<in> keys (tree_of E m)" "b \<in> keys (tree_of E m)" "a \<noteq> b"
      "agree n a k" "agree n b k"
    using path_parent [OF tree_of_canonical _ n(1)] by auto
  have ag: "agree 255 a k" "agree 255 b k"
    using ab(4,5) n(2) by (auto simp: agree_def)
  have "hv_bit a 255 \<noteq> hv_bit b 255"
  proof
    assume "hv_bit a 255 = hv_bit b 255"
    then have "agree (Suc 255) a b"
      using agree_trans [OF ag(1) agree_sym [OF ag(2)]] by (simp only: agree_Suc)
    with ab(3) show False
      using agree_all [of 256 a b] by simp
  qed
  then consider "hv_bit a 255 = hv_bit k 255" | "hv_bit b 255 = hv_bit k 255"
    by blast
  then have "a = k \<or> b = k"
  proof cases
    case 1
    then have "agree (Suc 255) a k"
      using ag(1) by (simp only: agree_Suc)
    then show ?thesis
      using agree_all [of 256 a k] by simp
  next
    case 2
    then have "agree (Suc 255) b k"
      using ag(2) by (simp only: agree_Suc)
    then show ?thesis
      using agree_all [of 256 b k] by simp
  qed
  with ab ag that show thesis
    unfolding tree_of_keys by metis
qed

text \<open>
  C24: the proofs that the incremental tree hands out verify against its root: a proof of inclusion
  for every stored key that differs from every other stored key in its first 255 bits, and a proof
  of non-inclusion for every absent key.
\<close>

theorem proofs_complete:
  assumes cf: "collision_free E (hashed_nodes E ops)" and run: "inc_run E ops (inc_new E) = Some t"
  shows "(\<forall>v. inc_get t k = Some v \<and> (\<forall>k'. inc_get t k' \<noteq> None \<and> k' \<noteq> k \<longrightarrow> \<not> agree 255 k' k) \<longrightarrow>
            verify_inclusion E (inc_get_proof E t k) (root_hash t) k v = Inr ()) \<and>
         (inc_get t k = None \<longrightarrow>
            verify_non_inclusion E (inc_get_proof E t k) (root_hash t) k = Inr ())"
proof -
  note U = universe_ok [OF cf] and ok = reached_ok [OF cf run]
  define tr where "tr = tree_of E (leaves t)"
  define ss where "ss = path_siblings E tr k 0"
  have root: "root_hash t = thash E tr"
    using ok by (simp add: inc_ok_def tr_def)
  have pf: "inc_get_proof E t k =
      \<lparr>siblings = ss, proof_leaf = (if length ss < 256 then leaf_of (path_end tr k 0) else None)\<rparr>"
    using inc_get_proof_ok [OF U ok] by (simp add: ss_def tr_def)
  have walk: "root_from E k 0 ss (thash E (path_end tr k 0)) = thash E tr"
    unfolding ss_def by (rule path_root)
  have long: "\<exists>a. inc_get t a \<noteq> None \<and> a \<noteq> k \<and> agree 255 a k \<and> inc_get t k \<noteq> None"
    if "256 \<le> length ss"
    using that long_path [of E "leaves t" k] unfolding ss_def tr_def inc_get_def
    by (metis fmdom_notD fmdom_notI)
  have incl: "verify_inclusion E (inc_get_proof E t k) (root_hash t) k v = Inr ()"
    if v: "inc_get t k = Some v" and far: "\<forall>k'. inc_get t k' \<noteq> None \<and> k' \<noteq> k \<longrightarrow> \<not> agree 255 k' k" for v
  proof -
    have "length ss < 256"
      using long far not_less by blast
    moreover have "path_end tr k 0 = Lf k (hash_value_of E v)"
      using present_path_end v by (simp add: inc_get_def tr_def)
    ultimately show ?thesis
      using walk by (simp add: verify_inclusion_def pf root compute_root_from_leaf_def ln_hash_def)
  qed
  have excl: "verify_non_inclusion E (inc_get_proof E t k) (root_hash t) k = Inr ()"
    if None: "inc_get t k = None"
  proof -
    have len: "length ss < 256"
      using long None not_less by blast
    consider "path_end tr k 0 = Tip" | lk lv where "path_end tr k 0 = Lf lk lv"
      using path_end_shape by blast
    then show ?thesis
    proof cases
      case 1
      with walk len show ?thesis
        by (simp add: verify_non_inclusion_def pf root compute_root_from_leaf_def)
    next
      case (2 lk lv)
      have "lvs (path_end tr k 0) = {p \<in> lvs tr. agree (length ss) (fst p) k}"
        using path_end_lvs [OF tree_of_canonical, of E "leaves t" k E] by (simp add: tr_def ss_def)
      moreover have "(lk, lv) \<in> lvs (path_end tr k 0)"
        using 2 by simp
      ultimately have lk: "(lk, lv) \<in> lvs tr" "agree (length ss) lk k"
        by auto
      have "lk \<noteq> k"
        using lk(1) None by (auto simp: tr_def tree_of_lvs inc_get_def)
      moreover have "length ss \<le> common_prefix_bits k lk"
        using agree_common_prefix [OF agree_sym [OF lk(2)]] len by simp
      moreover have "root_from E lk 0 ss (hash_sparse_leaf E lk lv) = thash E tr"
        using walk root_from_agree [of 0 ss lk k] lk(2) 2 by simp
      ultimately show ?thesis
        using len 2
        by (simp add: verify_non_inclusion_def pf root compute_root_from_leaf_def ln_hash_def)
    qed
  qed
  from incl excl show ?thesis
    by blast
qed

theorem proofs_complete_witness:
  "\<exists>t. inc_run toy_ext sample_smt_ops (inc_new toy_ext) = Some t \<and> inc_get t 0 = None \<and>
       verify_non_inclusion toy_ext (inc_get_proof toy_ext t 0) (root_hash t) 0 = Inr ()"
proof -
  note cf = sample_collision_free and U = universe_ok [OF sample_collision_free]
  have "set (visited toy_ext fmempty sample_smt_ops) \<subseteq> set (universe toy_ext sample_smt_ops)"
    by (auto simp: universe_def)
  then obtain t where t: "inc_run toy_ext sample_smt_ops (inc_new toy_ext) = Some t"
      "leaves t = foldl leaf_step fmempty sample_smt_ops"
    using inc_run_ok [OF U inc_new_ok [OF U], of sample_smt_ops] by (auto simp: inc_new_def)
  then have "inc_get t 0 = None"
    by (simp add: inc_get_def sample_smt_ops_def)
  with t(1) proofs_complete [OF cf t(1), of 0] show ?thesis
    by blast
qed

text \<open>
  C40: two stored keys that differ in their last bit only have no proof. Their leaves are at depth
  256, where the loop of \<open>get_proof\<close> has ended, so the proof comes without a leaf and does not verify.
\<close>

theorem last_bit_siblings_have_no_proof:
  assumes cf: "collision_free E (hashed_nodes E ops)" and run: "inc_run E ops (inc_new E) = Some t"
    and keys: "inc_get t a = Some v" "inc_get t b \<noteq> None" "a \<noteq> b" "agree 255 a b"
  shows "verify_inclusion E (inc_get_proof E t a) (root_hash t) a v = Inl NoLeaf"
proof -
  note U = universe_ok [OF cf] and ok = reached_ok [OF cf run]
  define tr where "tr = tree_of E (leaves t)"
  have "256 \<le> length (path_siblings E tr a 0)"
  proof (rule ccontr)
    assume "\<not> 256 \<le> length (path_siblings E tr a 0)"
    then have "agree (length (path_siblings E tr a 0)) b a"
      using keys(4) by (auto simp: agree_def)
    moreover have "b \<in> keys tr"
      using keys(2) unfolding tr_def tree_of_keys inc_get_def by (metis fmdomI not_None_eq)
    ultimately have "b \<in> keys (path_end tr a 0)"
      using path_end_lvs [OF tree_of_canonical, of E "leaves t" a E] by (force simp: tr_def)
    moreover have "path_end tr a 0 = Lf a (hash_value_of E v)"
      using present_path_end keys(1) by (simp add: inc_get_def tr_def)
    ultimately show False
      using keys(3) by simp
  qed
  then show ?thesis
    using inc_get_proof_ok [OF U ok, of a] by (simp add: verify_inclusion_def tr_def)
qed

text \<open>An instance: the keys 0 and 1, with a hash function that counts the levels of the path.\<close>

definition chain_ext :: ext where
  "chain_ext = sample_ext\<lparr>blake3 := \<lambda>bs.
     if hd bs = 3 then from_le_bytes (rev (take 32 (tl bs))) + 1
     else if hd bs = 2 then from_le_bytes (rev (drop 33 bs))
     else if hd bs = 83 then 0 else from_le_bytes bs\<rparr>"

definition chain_ops :: "smt_op list" where
  "chain_ops = [InsertLeaf 0 [10], InsertLeaf 1 [208, 7]]"

fun chain :: "nat \<Rightarrow> stree" where
  "chain 0 = Nd (Lf 0 10) (Lf 1 2000)"
| "chain (Suc n) = Nd (chain n) Tip"

lemma chain_hash:
  "thash chain_ext Tip = 0" "thash chain_ext (Lf k v) = v"
  "thash chain_ext (Nd l r) = thash chain_ext l + 1"
  by (simp_all add: chain_ext_def empty_hash_def hash_sparse_leaf_def hash_sparse_internal_def
      str_bytes_SPARSE_EMPTY)

lemma thash_chain: "thash chain_ext (chain n) = of_nat (11 + n)"
  by (induction n) (simp_all only: chain.simps chain_hash, simp_all)

lemma hv_bit_0_1: "i < 256 \<Longrightarrow> hv_bit 0 i = False" "i < 256 \<Longrightarrow> hv_bit 1 i \<longleftrightarrow> i = 255"
  by (simp_all add: hv_bit bit_1_iff) arith

lemma chain_lvs: "lvs (chain n) = {(0, 10), (1, 2000)}"
  by (induction n) auto

lemma agree_0_1: "n \<le> 255 \<Longrightarrow> agree n 0 1" "n \<le> 255 \<Longrightarrow> agree n 1 0"
  by (simp_all add: agree_def hv_bit_0_1)

lemma chain_canonical: "n \<le> 255 \<Longrightarrow> canonical (255 - n) (chain n)"
proof (induction n)
  case 0
  show ?case
    by (auto simp: canonical.simps(3) hv_bit_0_1 agree_0_1)
next
  case (Suc n)
  then have *: "Suc (255 - Suc n) = 255 - n"
    by simp
  show ?case
    unfolding chain.simps canonical.simps(3) * using Suc
    by (auto simp: chain_lvs hv_bit_0_1 agree_0_1)
qed

lemma chain_subtrees: "subtrees (chain n) = chain ` {..n} \<union> {Lf 0 10, Lf 1 2000} \<union> (if n = 0 then {} else {Tip})"
  by (induction n) (auto simp: atMost_Suc)

lemma chain_universe:
  "set (universe chain_ext chain_ops) = chain ` {..255} \<union> {Lf 0 10, Lf 1 2000, Tip}"
proof -
  have v: "hash_value_of chain_ext [10] = 10" "hash_value_of chain_ext [208, 7] = 2000"
    by (simp_all add: hash_value_of_def chain_ext_def)
  have "tree_of chain_ext (fmupd 1 [208, 7] (fmupd 0 [10] fmempty)) = chain 255"
  proof (rule canonical_unique [OF tree_of_canonical])
    show "canonical 0 (chain 255)"
      using chain_canonical [of 255] by simp
    show "lvs (tree_of chain_ext (fmupd 1 [208, 7] (fmupd 0 [10] fmempty))) = lvs (chain 255)"
      by (auto simp: tree_of_lvs chain_lvs v split: if_splits)
  qed
  moreover have "tree_of chain_ext (fmupd 0 [10] fmempty) = Lf 0 10"
    by (rule canonical_unique [OF tree_of_canonical]) (auto simp: tree_of_lvs v split: if_splits)
  ultimately show ?thesis
    by (auto simp: universe_def chain_ops_def chain_subtrees)
qed

lemma chain_collision_free: "collision_free chain_ext (hashed_nodes chain_ext chain_ops)"
proof -
  have nat: "a = b" if "of_nat a = (of_nat b :: 256 word)" "a \<le> 2000" "b \<le> 2000" for a b :: nat
    using that by (simp add: word_of_nat_eq_iff take_bit_nat_eq_self)
  define dec where "dec n = (if n = 0 then Tip else if n = 10 then Lf 0 10
      else if n = 2000 then Lf 1 2000 else chain (n - 11))" for n :: nat
  have code: "\<exists>n \<le> 2000. thash chain_ext s = of_nat n \<and> s = dec n"
    if "s \<in> set (universe chain_ext chain_ops)" for s
  proof -
    have "s \<in> chain ` {..255} \<or> s = Lf 0 10 \<or> s = Lf 1 2000 \<or> s = Tip"
      using that unfolding chain_universe by (simp only: Un_iff insert_iff empty_iff simp_thms)
    then consider n where "n \<le> 255" "s = chain n" | "s = Lf 0 10" | "s = Lf 1 2000" | "s = Tip"
      by (metis atMost_iff imageE)
    then show ?thesis
    proof cases
      case (1 n)
      then show ?thesis
        by (intro exI [of _ "11 + n"]) (simp add: thash_chain dec_def)
    next
      case 2
      then show ?thesis
        by (intro exI [of _ 10]) (simp del: thash.simps add: chain_hash dec_def)
    next
      case 3
      then show ?thesis
        by (intro exI [of _ 2000]) (simp del: thash.simps add: chain_hash dec_def)
    next
      case 4
      then show ?thesis
        by (intro exI [of _ 0]) (simp del: thash.simps add: chain_hash dec_def)
    qed
  qed
  have "s = t" if "s \<in> set (universe chain_ext chain_ops)" "t \<in> set (universe chain_ext chain_ops)"
    "thash chain_ext s = thash chain_ext t" for s t
    using code [OF that(1)] code [OF that(2)] that(3) nat by metis
  then have "inj_on (blake3 chain_ext) (node_bytes chain_ext ` set (universe chain_ext chain_ops))"
    unfolding inj_on_def thash_bytes by blast
  then show ?thesis
    by (simp add: collision_free_inj hashed_nodes_def)
qed

theorem last_bit_siblings_have_no_proof_witness:
  "\<exists>t. inc_run chain_ext chain_ops (inc_new chain_ext) = Some t \<and> inc_get t 0 = Some [10] \<and>
       verify_inclusion chain_ext (inc_get_proof chain_ext t 0) (root_hash t) 0 [10] = Inl NoLeaf"
proof -
  note cf = chain_collision_free and U = universe_ok [OF chain_collision_free]
  have "set (visited chain_ext fmempty chain_ops) \<subseteq> set (universe chain_ext chain_ops)"
    by (auto simp: universe_def)
  then obtain t where t: "inc_run chain_ext chain_ops (inc_new chain_ext) = Some t"
      "leaves t = foldl leaf_step fmempty chain_ops"
    using inc_run_ok [OF U inc_new_ok [OF U], of chain_ops] by (auto simp: inc_new_def)
  then have "inc_get t 0 = Some [10]" "inc_get t 1 \<noteq> None"
    by (simp_all add: inc_get_def chain_ops_def)
  with t(1) last_bit_siblings_have_no_proof [OF cf t(1), of 0 "[10]" 1] agree_0_1(1) [of 255]
  show ?thesis
    by auto
qed

section \<open>A proof that verifies tells the truth\<close>

text \<open>The bytes that a verification hashes.\<close>

fun path_bytes :: "ext \<Rightarrow> hash_value \<Rightarrow> nat \<Rightarrow> hash_value list \<Rightarrow> hash_value \<Rightarrow> bytes list" where
  "path_bytes E k d [] h = []"
| "path_bytes E k d (s # ss) h =
     (let c = root_from E k (Suc d) ss h
      in if hv_bit k d then 3 # as_bytes s @ as_bytes c else 3 # as_bytes c @ as_bytes s)
     # path_bytes E k (Suc d) ss h"

definition leaf_bytes :: "leaf_node \<Rightarrow> bytes" where
  "leaf_bytes l = 2 # as_bytes (ln_key l) @ as_bytes (ln_value_hash l)"

definition proof_bytes :: "ext \<Rightarrow> sparse_merkle_proof \<Rightarrow> hash_value \<Rightarrow> bytes list" where
  "proof_bytes E p k =
     (case proof_leaf p of
        None \<Rightarrow> path_bytes E k 0 (siblings p) (empty_hash E)
      | Some l \<Rightarrow> leaf_bytes l # path_bytes E (ln_key l) 0 (siblings p) (ln_hash E l))"

lemma root_from_hash:
  "root_from E k d (s # ss) h = blake3 E (hd (path_bytes E k d (s # ss) h))"
  by (simp add: Let_def hash_sparse_internal_def)

lemma root_from_step:
  assumes inj: "inj_on (blake3 E) B" and B: "node_bytes E t \<in> B" "set (path_bytes E k d (s # ss) h) \<subseteq> B"
    and root: "root_from E k d (s # ss) h = thash E t"
  obtains l r where "t = Nd l r" "root_from E k (Suc d) ss h = thash E (if hv_bit k d then r else l)"
proof -
  let ?b = "hd (path_bytes E k d (s # ss) h)"
  have "blake3 E ?b = blake3 E (node_bytes E t)"
    using root unfolding root_from_hash thash_bytes .
  moreover have "?b \<in> B"
    using B(2) by (simp add: Let_def)
  ultimately have b: "?b = node_bytes E t"
    using inj_onD [OF inj] B(1) by blast
  have "hd ?b = 3"
    by (simp add: Let_def)
  then have "hd (node_bytes E t) = 3"
    by (simp only: b)
  then obtain l r where t: "t = Nd l r"
    unfolding node_bytes_tag by (cases t) simp_all
  moreover have "root_from E k (Suc d) ss h = thash E (if hv_bit k d then r else l)"
    using b t by (cases "hv_bit k d") (simp_all add: Let_def)
  ultimately show thesis
    by (rule that)
qed

text \<open>
  When the root of the path is the hash of a canonical tree, the path leads to a subtree with the
  hash it starts from, whose leaves are those that agree with the key of the path.
\<close>

lemma root_from_sound:
  assumes inj: "inj_on (blake3 E) B"
  shows "canonical d t \<Longrightarrow> node_bytes E ` subtrees t \<subseteq> B \<Longrightarrow> set (path_bytes E k d ss h) \<subseteq> B
    \<Longrightarrow> root_from E k d ss h = thash E t \<Longrightarrow> d \<le> 256
    \<Longrightarrow> d + length ss \<le> 256 \<and> (\<exists>e. node_bytes E e \<in> B \<and> thash E e = h \<and> lvs e \<subseteq> lvs t \<and>
          (\<forall>p \<in> lvs t. agree (d + length ss) (fst p) k \<longrightarrow> p \<in> lvs e))"
proof (induction ss arbitrary: d t)
  case Nil
  then have "node_bytes E t \<in> B \<and> thash E t = h"
    using self_subtree by fastforce
  with Nil show ?case
    by auto
next
  case (Cons s ss)
  have "node_bytes E t \<in> B"
    using Cons.prems(2) self_subtree by blast
  then obtain l r where t: "t = Nd l r"
      and c: "root_from E k (Suc d) ss h = thash E (if hv_bit k d then r else l)"
    using root_from_step [OF inj _ Cons.prems(3,4)] by blast
  define u where "u = (if hv_bit k d then r else l)"
  have u: "canonical (Suc d) u" "subtrees u \<subseteq> subtrees t" "lvs u \<subseteq> lvs t"
    using canonical_NdD(1,2) [OF Cons.prems(1) [unfolded t]] by (auto simp: u_def t)
  have side: "p \<in> lvs u" if "p \<in> lvs t" "agree (d + length (s # ss)) (fst p) k" for p
  proof -
    have "hv_bit (fst p) d = hv_bit k d"
      using that(2) by (simp add: agree_def)
    with canonical_NdD(3,4) [OF Cons.prems(1) [unfolded t]] that(1) show ?thesis
      by (auto simp: u_def t)
  qed
  have "d < 256"
    using canonical_depth Cons.prems(1) t by blast
  moreover have "node_bytes E ` subtrees u \<subseteq> B" "set (path_bytes E k (Suc d) ss h) \<subseteq> B"
    using Cons.prems(2,3) u(2) by auto
  ultimately have IH: "Suc d + length ss \<le> 256 \<and> (\<exists>e. node_bytes E e \<in> B \<and> thash E e = h \<and>
      lvs e \<subseteq> lvs u \<and> (\<forall>p \<in> lvs u. agree (Suc d + length ss) (fst p) k \<longrightarrow> p \<in> lvs e))"
    using Cons.IH [OF u(1)] c unfolding u_def by simp
  then obtain e where "node_bytes E e \<in> B" "thash E e = h" "lvs e \<subseteq> lvs u"
      "\<forall>p \<in> lvs u. agree (Suc d + length ss) (fst p) k \<longrightarrow> p \<in> lvs e"
    by blast
  with IH side u(3) show ?case
    by (intro conjI exI [of _ e]) auto
qed

text \<open>
  C16: proofs are sound. If a proof of inclusion verifies against the root, the tree maps the key to
  that value; if a proof of non-inclusion verifies, the key is absent. The hash function must have
  no collision among the nodes of the tree, the nodes of the proof, and the values.
\<close>

theorem proofs_sound:
  assumes run: "inc_run E ops (inc_new E) = Some t"
    and cf: "collision_free E (hashed_nodes E ops @ proof_bytes E p k @ v # map snd (entries (leaves t)))"
  shows "(verify_inclusion E p (root_hash t) k v = Inr () \<longrightarrow> inc_get t k = Some v) \<and>
         (verify_non_inclusion E p (root_hash t) k = Inr () \<longrightarrow> inc_get t k = None)"
proof -
  define B where "B = set (hashed_nodes E ops @ proof_bytes E p k @ v # map snd (entries (leaves t)))"
  have inj: "inj_on (blake3 E) B"
    using cf by (simp only: collision_free_inj B_def)
  have "inj_on (blake3 E) (set (hashed_nodes E ops))"
    by (rule inj_on_subset [OF inj]) (auto simp: B_def)
  then have cf1: "collision_free E (hashed_nodes E ops)"
    by (simp only: collision_free_inj)
  note U = universe_ok [OF cf1] and ok = reached_ok [OF cf1 run]
  define tr where "tr = tree_of E (leaves t)"
  have root: "root_hash t = thash E tr" and "tr \<in> set (universe E ops)"
    using ok by (simp_all add: inc_ok_def tr_def)
  then have "subtrees tr \<subseteq> set (universe E ops)"
    using U unfolding hash_universe_def by blast
  then have nodes: "node_bytes E ` subtrees tr \<subseteq> B"
    by (auto simp: B_def hashed_nodes_def)
  have can: "canonical 0 tr"
    by (simp add: tr_def)
  have same: "a = b" if "a \<in> B" "b \<in> B" "blake3 E a = blake3 E b" for a b
    using inj that inj_onD by metis
  have incl: "inc_get t k = Some v" if ver: "verify_inclusion E p (root_hash t) k v = Inr ()"
  proof -
    obtain l where l: "proof_leaf p = Some l" "ln_key l = k" "ln_value_hash l = hash_value_of E v"
        "root_from E k 0 (siblings p) (ln_hash E l) = thash E tr"
      using ver root
      by (auto simp: verify_inclusion_def compute_root_from_leaf_def split: option.splits if_splits)
    have pb: "leaf_bytes l \<in> B" "set (path_bytes E k 0 (siblings p) (ln_hash E l)) \<subseteq> B"
      using l(1,2) by (auto simp: B_def proof_bytes_def)
    obtain e where e: "node_bytes E e \<in> B" "thash E e = ln_hash E l" "lvs e \<subseteq> lvs tr"
      using root_from_sound [OF inj can nodes pb(2) l(4)] by auto
    have "node_bytes E e = leaf_bytes l"
      using same [OF e(1) pb(1)] e(2)
      by (simp add: thash_bytes ln_hash_def leaf_bytes_def hash_sparse_leaf_def)
    then have "e = Lf k (hash_value_of E v)"
      using l(2,3) node_bytes_tag [of E e] by (cases e) (auto simp: leaf_bytes_def)
    then obtain u where u: "fmlookup (leaves t) k = Some u" "hash_value_of E u = hash_value_of E v"
      using e(3) by (auto simp: tr_def tree_of_lvs)
    then have "u \<in> snd ` set (entries (leaves t))"
      by (metis image_eqI mem_entries snd_conv)
    then have "u \<in> B" "v \<in> B"
      by (simp_all add: B_def)
    with u same show ?thesis
      by (simp add: inc_get_def hash_value_of_def)
  qed
  have excl: "inc_get t k = None" if ver: "verify_non_inclusion E p (root_hash t) k = Inr ()"
  proof (rule ccontr)
    assume "inc_get t k \<noteq> None"
    then obtain u where "(k, u) \<in> lvs tr"
      by (auto simp: tr_def tree_of_lvs inc_get_def)
    note ku = this
    show False
    proof (cases "proof_leaf p")
      case None
      then have r: "root_from E k 0 (siblings p) (empty_hash E) = thash E tr"
        using ver root by (simp add: verify_non_inclusion_def compute_root_from_leaf_def split: if_splits)
      have "set (path_bytes E k 0 (siblings p) (empty_hash E)) \<subseteq> B"
        using None by (auto simp: B_def proof_bytes_def)
      then obtain e where e: "node_bytes E e \<in> B" "thash E e = empty_hash E" "(k, u) \<in> lvs e"
        using root_from_sound [OF inj can nodes _ r] ku by fastforce
      have "node_bytes E Tip \<in> B"
        by (simp add: B_def hashed_nodes_def universe_def)
      then have "node_bytes E e = node_bytes E Tip"
        using same [OF e(1)] e(2) thash_bytes [of E e] thash_bytes [of E Tip] by simp
      then have "hd (node_bytes E e) = 83"
        using node_bytes_tag [of E Tip] by simp
      then show False
        using e(3) unfolding node_bytes_tag by (cases e) simp_all
    next
      case (Some l)
      then have l: "ln_key l \<noteq> k" "length (siblings p) \<le> common_prefix_bits k (ln_key l)"
          "root_from E (ln_key l) 0 (siblings p) (ln_hash E l) = thash E tr"
        using ver root
        by (auto simp: verify_non_inclusion_def compute_root_from_leaf_def split: if_splits)
      have pb: "leaf_bytes l \<in> B" "set (path_bytes E (ln_key l) 0 (siblings p) (ln_hash E l)) \<subseteq> B"
        using Some by (auto simp: B_def proof_bytes_def)
      have "length (siblings p) \<le> 256"
        using root_from_sound [OF inj can nodes pb(2) l(3)] by simp
      then have "agree (length (siblings p)) k (ln_key l)"
        using common_prefix_agree l(2) by blast
      then obtain e where e: "node_bytes E e \<in> B" "thash E e = ln_hash E l" "(k, u) \<in> lvs e"
        using root_from_sound [OF inj can nodes pb(2) l(3)] ku by fastforce
      have "node_bytes E e = leaf_bytes l"
        using same [OF e(1) pb(1)] e(2)
        by (simp add: thash_bytes ln_hash_def leaf_bytes_def hash_sparse_leaf_def)
      then have "e = Lf (ln_key l) (ln_value_hash l)"
        using node_bytes_tag [of E e] by (cases e) (auto simp: leaf_bytes_def)
      with e(3) l(1) show False
        by simp
    qed
  qed
  from incl excl show ?thesis
    by blast
qed

definition sample_tree :: inc_tree where
  "sample_tree = fst (inc_insert toy_ext (inc_new toy_ext) 0 [1])"

theorem proofs_sound_witness:
  "verify_inclusion toy_ext (inc_get_proof toy_ext sample_tree 0) (root_hash sample_tree) 0 [1] = Inr ()
   \<and> inc_get sample_tree 0 = Some [1]"
proof -
  have "collision_free toy_ext (hashed_nodes toy_ext [InsertLeaf 0 [1]]
      @ proof_bytes toy_ext (inc_get_proof toy_ext sample_tree 0) 0
      @ [1] # map snd (entries (leaves sample_tree)))"
    by code_simp
  moreover have "inc_run toy_ext [InsertLeaf 0 [1]] (inc_new toy_ext) = Some sample_tree"
    by (simp add: sample_tree_def)
  moreover have "verify_inclusion toy_ext (inc_get_proof toy_ext sample_tree 0)
      (root_hash sample_tree) 0 [1] = Inr ()"
    by code_simp
  ultimately show ?thesis
    using proofs_sound by blast
qed

end
