(* ===== verification/Binary_Merkle.thy ===== *)
theory Binary_Merkle
  imports Sparse_Merkle
begin

text \<open>
  The binary Merkle tree of \<^verbatim>\<open>crates/setu-merkle/src/binary.rs\<close>, which commits to the list of events
  of an anchor, and the subnet aggregation tree of \<^verbatim>\<open>crates/setu-merkle/src/aggregation.rs\<close>, which
  joins the roots of all subnets into the global state root.

  The tree is one vector of nodes, level by level from the leaves, each level padded to an even
  length. The lemmas relate the index arithmetic of the construction and of the proofs to a
  recursion over levels (\<open>parents\<close>, \<open>level_nodes\<close>): the proof of every leaf leads to the root, and
  equal roots over equally many leaves have equal leaves, unless the hash function collides.
\<close>

section \<open>Nodes and proofs\<close>

datatype node = EmptyNode | HashNode hash_value

fun node_hash :: "node \<Rightarrow> hash_value" where
  "node_hash EmptyNode = 0"
| "node_hash (HashNode h) = h"

definition node_from :: "hash_value \<Rightarrow> node" where
  "node_from h = (if h = 0 then EmptyNode else HashNode h)"

definition hash_internal :: "ext \<Rightarrow> hash_value \<Rightarrow> hash_value \<Rightarrow> hash_value" where
  "hash_internal E l r = blake3 E (1 # as_bytes l @ as_bytes r)"

definition hash_leaf :: "ext \<Rightarrow> bytes \<Rightarrow> hash_value" where
  "hash_leaf E d = blake3 E (0 # d)"

datatype merkle_error =
    LeafIndexTooLarge nat nat
  | BinaryRootMismatch hash_value hash_value
  | IndexOutOfBounds nat nat
  | EmptyTree
  | KeyNotFound
  | StorageError string
  | InvalidInput string

text \<open>The loop of \<open>compute_root\<close>.\<close>

fun climb :: "ext \<Rightarrow> node list \<Rightarrow> nat \<Rightarrow> hash_value \<Rightarrow> hash_value" where
  "climb E [] i h = h"
| "climb E (s # ss) i h =
     climb E ss (i div 2)
       (if i mod 2 = 0 then hash_internal E h (node_hash s) else hash_internal E (node_hash s) h)"

text \<open>
  \<open>leaf_index >> siblings.len()\<close> is a division for fewer than 64 siblings; longer lists overflow the shift
  and belong to no tree that fits in memory.
\<close>

definition bm_compute_root :: "ext \<Rightarrow> node list \<Rightarrow> bytes \<Rightarrow> nat \<Rightarrow> merkle_error + hash_value" where
  "bm_compute_root E ss leaf i =
     (if i div 2 ^ length ss \<noteq> 0 then Inl (LeafIndexTooLarge i (length ss))
      else Inr (climb E ss i (hash_leaf E leaf)))"

definition bm_verify :: "ext \<Rightarrow> node list \<Rightarrow> hash_value \<Rightarrow> bytes \<Rightarrow> nat \<Rightarrow> merkle_error + unit" where
  "bm_verify E ss root leaf i =
     (case bm_compute_root E ss leaf i of
        Inl e \<Rightarrow> Inl e
      | Inr r \<Rightarrow> if r = root then Inr () else Inl (BinaryRootMismatch root r))"

fun is_rightmost :: "node list \<Rightarrow> nat \<Rightarrow> bool" where
  "is_rightmost [] i = True"
| "is_rightmost (s # ss) i =
     (if i mod 2 = 0 \<and> s \<noteq> EmptyNode then False else is_rightmost ss (i div 2))"

section \<open>The tree\<close>

record binary_merkle_tree =
  bm_nodes :: "node list"
  n_leaves :: nat

fun compute_parent :: "ext \<Rightarrow> node \<Rightarrow> node \<Rightarrow> node" where
  "compute_parent E EmptyNode EmptyNode = EmptyNode"
| "compute_parent E l r = HashNode (hash_internal E (node_hash l) (node_hash r))"

text \<open>One pass over a level: the indices from \<open>i\<close> up to \<open>stop\<close> in steps of two.\<close>

function parent_loop :: "ext \<Rightarrow> nat \<Rightarrow> nat \<Rightarrow> node list \<Rightarrow> node list" where
  "parent_loop E i stop ns =
     (if i < stop
      then parent_loop E (i + 2) stop (ns @ [compute_parent E (ns ! i) (ns ! (i + 1))])
      else ns)"
  by pat_completeness auto

termination by (relation "measure (\<lambda>(E, i, stop, ns). stop - i)") auto

declare parent_loop.simps [simp del]

function build_loop :: "ext \<Rightarrow> node list \<Rightarrow> nat \<Rightarrow> nat \<Rightarrow> node list" where
  "build_loop E ns n start =
     (if 1 < n
      then let ns' = (if n mod 2 = 1 then ns @ [EmptyNode] else ns);
               n' = (if n mod 2 = 1 then n + 1 else n);
               stop = start + n'
           in build_loop E (parent_loop E start stop ns') (n' div 2) stop
      else ns)"
  by pat_completeness auto

termination by (relation "measure (\<lambda>(E, ns, n, start). n)") auto

declare build_loop.simps [simp del]

definition build_from_leaf_nodes :: "ext \<Rightarrow> node list \<Rightarrow> binary_merkle_tree" where
  "build_from_leaf_nodes E ls =
     (if length ls = 0 then \<lparr>bm_nodes = [], n_leaves = 0\<rparr>
      else \<lparr>bm_nodes = build_loop E ls (length ls) 0, n_leaves = length ls\<rparr>)"

definition bm_build :: "ext \<Rightarrow> bytes list \<Rightarrow> binary_merkle_tree" where
  "bm_build E ls =
     (if ls = [] then \<lparr>bm_nodes = [], n_leaves = 0\<rparr>
      else build_from_leaf_nodes E (map (\<lambda>l. HashNode (hash_leaf E l)) ls))"

definition build_from_hashes :: "ext \<Rightarrow> hash_value list \<Rightarrow> binary_merkle_tree" where
  "build_from_hashes E hs = build_from_leaf_nodes E (map node_from hs)"

definition bm_root :: "binary_merkle_tree \<Rightarrow> hash_value" where
  "bm_root t = (if bm_nodes t = [] then 0 else node_hash (last (bm_nodes t)))"

function bm_proof_loop :: "node list \<Rightarrow> nat \<Rightarrow> nat \<Rightarrow> nat \<Rightarrow> node list \<Rightarrow> node list" where
  "bm_proof_loop ns index start sz acc =
     (if 1 < sz
      then let padded = (sz + 1) div 2 * 2;
               sib = (if index mod 2 = 0 then start + index + 1 else start + index - 1);
               s = (if sib < start + padded
                    then (if sib < length ns then ns ! sib else EmptyNode) else EmptyNode)
           in bm_proof_loop ns (index div 2) (start + padded) (padded div 2) (acc @ [s])
      else acc)"
  by pat_completeness auto

termination by (relation "measure (\<lambda>(ns, index, start, sz, acc). sz)") auto

declare bm_proof_loop.simps [simp del]

definition bm_get_proof :: "binary_merkle_tree \<Rightarrow> nat \<Rightarrow> merkle_error + node list" where
  "bm_get_proof t i =
     (if n_leaves t \<le> i then Inl (IndexOutOfBounds i (n_leaves t))
      else if n_leaves t = 0 then Inl EmptyTree
      else Inr (bm_proof_loop (bm_nodes t) i 0 (n_leaves t) []))"

section \<open>The subnet aggregation tree\<close>

record subnet_state_entry =
  se_subnet_id :: "256 word"
  se_state_root :: hash_value
  se_object_count :: "u64 option"
  se_last_anchor_id :: "u64 option"

definition SubnetStateEntry_new :: "256 word \<Rightarrow> hash_value \<Rightarrow> subnet_state_entry" where
  "SubnetStateEntry_new i r =
     \<lparr>se_subnet_id = i, se_state_root = r, se_object_count = None, se_last_anchor_id = None\<rparr>"

definition se_leaf_hash :: "ext \<Rightarrow> subnet_state_entry \<Rightarrow> hash_value" where
  "se_leaf_hash E e = blake3 E (16 # as_bytes (se_subnet_id e) @ as_bytes (se_state_root e))"

record aggregation_tree =
  ag_entries :: "subnet_state_entry list"
  ag_tree :: binary_merkle_tree
  ag_global_root :: hash_value

text \<open>
  The root subnet is the id 0, the least of the byte order, so sorting it first and then by id is
  sorting by id.
\<close>

definition ag_build :: "ext \<Rightarrow> subnet_state_entry list \<Rightarrow> aggregation_tree" where
  "ag_build E es =
     (if es = []
      then \<lparr>ag_entries = [], ag_tree = bm_build E [], ag_global_root = 0\<rparr>
      else let sorted = sort_key se_subnet_id es;
               t = build_from_hashes E (map (se_leaf_hash E) sorted)
           in \<lparr>ag_entries = sorted, ag_tree = t, ag_global_root = bm_root t\<rparr>)"

record aggregation_proof =
  ap_entry :: subnet_state_entry
  ap_index :: nat
  ap_siblings :: "hash_value list"

fun ag_climb :: "ext \<Rightarrow> hash_value list \<Rightarrow> nat \<Rightarrow> hash_value \<Rightarrow> hash_value" where
  "ag_climb E [] i h = h"
| "ag_climb E (s # ss) i h =
     ag_climb E ss (i div 2) (if i mod 2 = 0 then hash_internal E h s else hash_internal E s h)"

definition ap_verify :: "ext \<Rightarrow> aggregation_proof \<Rightarrow> hash_value \<Rightarrow> merkle_error + unit" where
  "ap_verify E p root =
     (let r = ag_climb E (ap_siblings p) (ap_index p) (se_leaf_hash E (ap_entry p))
      in if r = root then Inr () else Inl (BinaryRootMismatch root r))"

fun position :: "('a \<Rightarrow> bool) \<Rightarrow> 'a list \<Rightarrow> nat option" where
  "position P [] = None"
| "position P (x # xs) = (if P x then Some 0 else map_option Suc (position P xs))"

definition ag_get_proof :: "aggregation_tree \<Rightarrow> 256 word \<Rightarrow> merkle_error + aggregation_proof" where
  "ag_get_proof t sid =
     (case position (\<lambda>e. se_subnet_id e = sid) (ag_entries t) of
        None \<Rightarrow> Inl KeyNotFound
      | Some i \<Rightarrow>
          (case bm_get_proof (ag_tree t) i of
             Inl e \<Rightarrow> Inl e
           | Inr ss \<Rightarrow> Inr \<lparr>ap_entry = ag_entries t ! i, ap_index = i, ap_siblings = map node_hash ss\<rparr>))"

definition ag_update_subnet :: "ext \<Rightarrow> aggregation_tree \<Rightarrow> subnet_state_entry \<Rightarrow> aggregation_tree" where
  "ag_update_subnet E t e =
     ag_build E (filter (\<lambda>x. se_subnet_id x \<noteq> se_subnet_id e) (ag_entries t) @ [e])"

definition ag_remove_subnet :: "ext \<Rightarrow> aggregation_tree \<Rightarrow> 256 word \<Rightarrow> aggregation_tree" where
  "ag_remove_subnet E t sid = ag_build E (filter (\<lambda>x. se_subnet_id x \<noteq> sid) (ag_entries t))"

section \<open>Levels\<close>

definition pad :: "node list \<Rightarrow> node list" where
  "pad ns = (if odd (length ns) then ns @ [EmptyNode] else ns)"

fun parents :: "ext \<Rightarrow> node list \<Rightarrow> node list" where
  "parents E (a # b # ns) = compute_parent E a b # parents E ns"
| "parents E ns = []"

lemma even_length_pad [simp]: "even (length (pad ns))"
  by (simp add: pad_def)

lemma length_pad: "length (pad ns) = (length ns + 1) div 2 * 2"
  by (auto simp: pad_def elim: oddE evenE)

lemma length_parents [simp]: "length (parents E ns) = length ns div 2"
  by (induction E ns rule: parents.induct) auto

function level_nodes :: "ext \<Rightarrow> node list \<Rightarrow> node list" where
  "level_nodes E ns = (if 1 < length ns then pad ns @ level_nodes E (parents E (pad ns)) else ns)"
  by pat_completeness auto

termination by (relation "measure (\<lambda>(E, ns). length ns)") (auto simp: length_pad)

declare level_nodes.simps [simp del]

lemma parent_loop_parents:
  "even (length ns) \<Longrightarrow> parent_loop E (length pre) (length pre + length ns) (pre @ ns @ post) =
     pre @ ns @ post @ parents E ns"
proof (induction E ns arbitrary: pre post rule: parents.induct)
  case (1 E a b ns)
  have "parent_loop E (length pre) (length pre + length (a # b # ns)) (pre @ (a # b # ns) @ post)
      = parent_loop E (length pre + 2) (length pre + length (a # b # ns))
          ((pre @ (a # b # ns) @ post) @ [compute_parent E a b])"
    by (subst parent_loop.simps) (simp add: nth_append)
  also have "\<dots> = parent_loop E (length (pre @ [a, b])) (length (pre @ [a, b]) + length ns)
          ((pre @ [a, b]) @ ns @ (post @ [compute_parent E a b]))"
    by simp
  also have "\<dots> = (pre @ [a, b]) @ ns @ (post @ [compute_parent E a b]) @ parents E ns"
    by (rule 1) (use 1(2) in simp)
  finally show ?case
    by simp
qed (auto simp: parent_loop.simps)

lemma build_loop_levels: "build_loop E (pre @ ns) (length ns) (length pre) = pre @ level_nodes E ns"
proof (induction E ns arbitrary: pre rule: level_nodes.induct)
  case (1 E ns)
  show ?case
  proof (cases "1 < length ns")
    case True
    have p: "(if length ns mod 2 = 1 then (pre @ ns) @ [EmptyNode] else pre @ ns) = pre @ pad ns"
      "(if length ns mod 2 = 1 then length ns + 1 else length ns) = length (pad ns)"
      by (auto simp: pad_def odd_iff_mod_2_eq_one)
    have "parent_loop E (length pre) (length pre + length (pad ns)) (pre @ pad ns)
        = (pre @ pad ns) @ parents E (pad ns)"
      using parent_loop_parents [of "pad ns" E pre "[]"] by simp
    then have "build_loop E (pre @ ns) (length ns) (length pre)
        = build_loop E ((pre @ pad ns) @ parents E (pad ns)) (length (parents E (pad ns)))
            (length (pre @ pad ns))"
      using True by (subst build_loop.simps) (simp only: p Let_def if_True length_parents length_append)
    also have "\<dots> = (pre @ pad ns) @ level_nodes E (parents E (pad ns))"
      by (rule 1) (rule True)
    finally show ?thesis
      using True by (subst level_nodes.simps) simp
  next
    case False
    then show ?thesis
      by (subst build_loop.simps, subst level_nodes.simps) simp
  qed
qed

section \<open>Proofs lead to the root\<close>

function level_proof :: "ext \<Rightarrow> node list \<Rightarrow> nat \<Rightarrow> node list" where
  "level_proof E ns i =
     (if 1 < length ns
      then pad ns ! (if even i then i + 1 else i - 1) # level_proof E (parents E (pad ns)) (i div 2)
      else [])"
  by pat_completeness auto

termination by (relation "measure (\<lambda>(E, ns, i). length ns)") (auto simp: length_pad)

declare level_proof.simps [simp del]

function level_top :: "ext \<Rightarrow> node list \<Rightarrow> node" where
  "level_top E ns = (if 1 < length ns then level_top E (parents E (pad ns)) else hd ns)"
  by pat_completeness auto

termination by (relation "measure (\<lambda>(E, ns). length ns)") (auto simp: length_pad)

declare level_top.simps [simp del]

lemma level_nodes_ne [simp]: "level_nodes E ns = [] \<longleftrightarrow> ns = []"
  by (subst level_nodes.simps) (auto simp: pad_def)

lemma last_level_nodes: "ns \<noteq> [] \<Longrightarrow> last (level_nodes E ns) = level_top E ns"
proof (induction E ns rule: level_nodes.induct)
  case (1 E ns)
  show ?case
  proof (cases "1 < length ns")
    case True
    then have "0 < length (parents E (pad ns))"
      by (simp add: length_pad)
    then have "parents E (pad ns) \<noteq> []"
      by (simp del: length_parents)
    with 1(1) True show ?thesis
      by (subst level_nodes.simps, subst level_top.simps) simp
  next
    case False
    with 1(2) show ?thesis
      by (subst level_nodes.simps, subst level_top.simps) (cases ns; simp)
  qed
qed

lemma proof_index: "i < length ns \<Longrightarrow> (if even i then i + 1 else i - 1) < length (pad ns)"
  unfolding length_pad by presburger

lemma bm_proof_loop_levels:
  "i < length ns \<Longrightarrow> bm_proof_loop (pre @ level_nodes E ns) i (length pre) (length ns) acc
     = acc @ level_proof E ns i"
proof (induction E ns i arbitrary: pre acc rule: level_proof.induct)
  case (1 E ns i)
  show ?case
  proof (cases "1 < length ns")
    case True
    let ?s = "if even i then i + 1 else i - 1"
    have nodes: "pre @ level_nodes E ns = (pre @ pad ns) @ level_nodes E (parents E (pad ns))"
      using True by (subst level_nodes.simps) simp
    have sib: "(if i mod 2 = 0 then length pre + i + 1 else length pre + i - 1) = length pre + ?s"
      by (auto simp: even_iff_mod_2_eq_zero elim: oddE)
    have s: "?s < length (pad ns)"
      using proof_index 1(2) .
    have "(pre @ level_nodes E ns) ! (length pre + ?s) = pad ns ! ?s"
      unfolding nodes using s by (simp add: nth_append)
    moreover have "length pre + ?s < length (pre @ level_nodes E ns)"
      unfolding nodes using s by simp
    ultimately have "bm_proof_loop (pre @ level_nodes E ns) i (length pre) (length ns) acc
        = bm_proof_loop ((pre @ pad ns) @ level_nodes E (parents E (pad ns))) (i div 2)
            (length (pre @ pad ns)) (length (parents E (pad ns))) (acc @ [pad ns ! ?s])"
      using True s
      by (subst bm_proof_loop.simps)
        (simp only: Let_def sib length_pad [symmetric] if_True add_less_cancel_left length_parents
          length_append nodes)
    also have "\<dots> = (acc @ [pad ns ! ?s]) @ level_proof E (parents E (pad ns)) (i div 2)"
      by (rule 1(1)) (use True 1(2) in \<open>auto simp: length_pad\<close>)
    finally show ?thesis
      using True by (subst level_proof.simps) simp
  next
    case False
    then show ?thesis
      by (subst bm_proof_loop.simps, subst level_proof.simps) simp
  qed
qed

text \<open>Levels without an empty node, but for the padding.\<close>

definition solid :: "node list \<Rightarrow> bool" where
  "solid ns \<longleftrightarrow> EmptyNode \<notin> set ns"

lemma parents_nth:
  "2 * j + 1 < length ns \<Longrightarrow> parents E ns ! j = compute_parent E (ns ! (2 * j)) (ns ! (2 * j + 1))"
proof (induction E ns arbitrary: j rule: parents.induct)
  case (1 E a b ns)
  then show ?case
    by (cases j) auto
qed auto

lemma pad_nth: "i < length ns \<Longrightarrow> pad ns ! i = ns ! i"
  by (simp add: pad_def nth_append)

lemma compute_parent_hash:
  "a \<noteq> EmptyNode \<Longrightarrow> compute_parent E a b = HashNode (hash_internal E (node_hash a) (node_hash b))"
  by (cases a; cases b) simp_all

lemma parents_pad_nth:
  assumes "solid ns" "i < length ns" "1 < length ns"
  shows "parents E (pad ns) ! (i div 2) =
    HashNode (hash_internal E (node_hash (pad ns ! (2 * (i div 2)))) (node_hash (pad ns ! (2 * (i div 2) + 1))))"
proof -
  have "2 * (i div 2) < length ns" "2 * (i div 2) + 1 < length (pad ns)"
    using assms(2) unfolding length_pad by presburger+
  moreover from this have "pad ns ! (2 * (i div 2)) \<noteq> EmptyNode"
    using assms(1) nth_mem by (fastforce simp: pad_nth solid_def)
  ultimately show ?thesis
    by (simp only: parents_nth) (rule compute_parent_hash)
qed

lemma solid_parents: "solid ns \<Longrightarrow> 1 < length ns \<Longrightarrow> solid (parents E (pad ns))"
proof -
  assume s: "solid ns" and l: "1 < length ns"
  have "parents E (pad ns) ! j \<noteq> EmptyNode" if "j < length (parents E (pad ns))" for j
    using parents_pad_nth [OF s _ l, of "2 * j" E] that by (simp add: length_pad)
  then show ?thesis
    unfolding solid_def by (metis in_set_conv_nth)
qed

lemma climb_level_proof:
  "solid ns \<Longrightarrow> i < length ns
   \<Longrightarrow> climb E (level_proof E ns i) i (node_hash (ns ! i)) = node_hash (level_top E ns)"
proof (induction E ns i rule: level_proof.induct)
  case (1 E ns i)
  show ?case
  proof (cases "1 < length ns")
    case True
    let ?p = "parents E (pad ns)"
    have up: "(if i mod 2 = 0 then hash_internal E (node_hash (ns ! i)) (node_hash (pad ns ! (i + 1)))
        else hash_internal E (node_hash (pad ns ! (i - 1))) (node_hash (ns ! i))) = node_hash (?p ! (i div 2))"
    proof (cases "even i")
      case e: True
      then obtain j where "i = 2 * j"
        by (rule evenE)
      then show ?thesis
        unfolding parents_pad_nth [OF 1(2,3) True] using 1(3) by (simp add: pad_nth)
    next
      case o: False
      then obtain j where "i = 2 * j + 1"
        by (rule oddE)
      then show ?thesis
        unfolding parents_pad_nth [OF 1(2,3) True] using 1(3) by (simp add: pad_nth)
    qed
    have "climb E (level_proof E ns i) i (node_hash (ns ! i))
        = climb E (level_proof E ?p (i div 2)) (i div 2) (node_hash (?p ! (i div 2)))"
      using True up by (subst level_proof.simps) (auto simp: even_iff_mod_2_eq_zero)
    also have "\<dots> = node_hash (level_top E ?p)"
      by (rule 1(1)) (use True solid_parents 1(2,3) in \<open>auto simp: length_pad\<close>)
    finally show ?thesis
      using True by (subst level_top.simps) simp
  next
    case False
    with 1(3) show ?thesis
      by (subst level_proof.simps, subst level_top.simps) (cases ns; simp)
  qed
qed

lemma length_level_proof: "length ns \<le> 2 ^ length (level_proof E ns i)"
proof (induction E ns i rule: level_proof.induct)
  case (1 E ns i)
  show ?case
  proof (cases "1 < length ns")
    case True
    with 1 have "length (parents E (pad ns)) \<le> 2 ^ length (level_proof E (parents E (pad ns)) (i div 2))"
      by simp
    then have "length ns \<le> 2 * 2 ^ length (level_proof E (parents E (pad ns)) (i div 2))"
      by (simp add: length_pad)
    with True show ?thesis
      by (subst level_proof.simps) simp
  next
    case False
    then show ?thesis
      by (subst level_proof.simps) simp
  qed
qed

lemma bm_build_nodes:
  "ls \<noteq> [] \<Longrightarrow> bm_build E ls =
     \<lparr>bm_nodes = level_nodes E (map (\<lambda>l. HashNode (hash_leaf E l)) ls), n_leaves = length ls\<rparr>"
  using build_loop_levels [of E "[]" "map (\<lambda>l. HashNode (hash_leaf E l)) ls"]
  by (simp add: bm_build_def build_from_leaf_nodes_def)

lemma solid_leaves [simp]: "solid (map (\<lambda>l. HashNode (hash_leaf E l)) ls)"
  by (auto simp: solid_def)

text \<open>
  C25: the binary tree proves each of its leaves. For an index in range \<open>get_proof\<close> returns a proof
  that verifies against the root for that leaf and index; for an index out of range it returns the
  error.
\<close>

theorem binary_proof_roundtrip:
  "if i < length ls
   then \<exists>ss. bm_get_proof (bm_build E ls) i = Inr ss \<and>
             bm_verify E ss (bm_root (bm_build E ls)) (ls ! i) i = Inr ()
   else bm_get_proof (bm_build E ls) i = Inl (IndexOutOfBounds i (length ls))"
proof (cases "i < length ls")
  case True
  define ns where "ns = map (\<lambda>l. HashNode (hash_leaf E l)) ls"
  have ne: "ls \<noteq> []" "ns \<noteq> []"
    using True by (auto simp: ns_def)
  have t: "bm_build E ls = \<lparr>bm_nodes = level_nodes E ns, n_leaves = length ns\<rparr>"
    using bm_build_nodes [OF ne(1)] by (simp add: ns_def)
  have "bm_get_proof (bm_build E ls) i = Inr (level_proof E ns i)"
    using bm_proof_loop_levels [of i ns "[]" E "[]"] True ne(1) unfolding t
    by (simp add: bm_get_proof_def ns_def)
  moreover have "bm_root (bm_build E ls) = node_hash (level_top E ns)"
    unfolding t using last_level_nodes [OF ne(2)] ne(2) by (simp add: bm_root_def)
  moreover have "climb E (level_proof E ns i) i (hash_leaf E (ls ! i)) = node_hash (level_top E ns)"
    using climb_level_proof [of ns i E] True by (simp add: ns_def)
  moreover have "i div 2 ^ length (level_proof E ns i) = 0"
    using length_level_proof [of ns E i] True by (simp add: ns_def)
  ultimately show ?thesis
    using True by (simp add: bm_verify_def bm_compute_root_def)
next
  case False
  then show ?thesis
    by (cases "ls = []") (simp_all add: bm_get_proof_def bm_build_nodes, simp add: bm_build_def)
qed

section \<open>The root determines the leaves\<close>

fun pair_bytes :: "node list \<Rightarrow> bytes list" where
  "pair_bytes (a # b # ns) = (1 # as_bytes (node_hash a) @ as_bytes (node_hash b)) # pair_bytes ns"
| "pair_bytes ns = []"

function level_bytes :: "ext \<Rightarrow> node list \<Rightarrow> bytes list" where
  "level_bytes E ns =
     (if 1 < length ns then pair_bytes (pad ns) @ level_bytes E (parents E (pad ns)) else [])"
  by pat_completeness auto

termination by (relation "measure (\<lambda>(E, ns). length ns)") (auto simp: length_pad)

declare level_bytes.simps [simp del]

text \<open>All that is hashed to build the tree of a list of leaves.\<close>

definition tree_bytes :: "ext \<Rightarrow> bytes list \<Rightarrow> bytes list" where
  "tree_bytes E ls = map ((#) 0) ls @ level_bytes E (map (\<lambda>l. HashNode (hash_leaf E l)) ls)"

definition same_shape :: "node list \<Rightarrow> node list \<Rightarrow> bool" where
  "same_shape = list_all2 (\<lambda>a b. a = EmptyNode \<longleftrightarrow> b = EmptyNode)"

fun left_solid :: "node list \<Rightarrow> bool" where
  "left_solid (a # b # ns) = (a \<noteq> EmptyNode \<and> left_solid ns)"
| "left_solid ns = (ns = [])"

lemma node_eq: "(a = EmptyNode \<longleftrightarrow> b = EmptyNode) \<Longrightarrow> node_hash a = node_hash b \<Longrightarrow> a = b"
  by (cases a; cases b) simp_all

lemma parents_inj:
  assumes inj: "inj_on (blake3 E) B"
  shows "same_shape xs ys \<Longrightarrow> left_solid xs \<Longrightarrow> set (pair_bytes xs) \<subseteq> B \<Longrightarrow> set (pair_bytes ys) \<subseteq> B
    \<Longrightarrow> parents E xs = parents E ys \<Longrightarrow> xs = ys"
proof (induction xs arbitrary: ys rule: left_solid.induct)
  case (1 a b xs)
  then obtain c d zs where ys: "ys = c # d # zs"
    by (auto simp: same_shape_def list_all2_Cons1)
  have sh: "a = EmptyNode \<longleftrightarrow> c = EmptyNode" "b = EmptyNode \<longleftrightarrow> d = EmptyNode" "same_shape xs zs"
    using 1(2) ys by (simp_all add: same_shape_def)
  have "compute_parent E a b = compute_parent E c d"
    using 1(6) ys by simp
  moreover have "a \<noteq> EmptyNode" "c \<noteq> EmptyNode"
    using 1(3) sh(1) by simp_all
  ultimately have "hash_internal E (node_hash a) (node_hash b) = hash_internal E (node_hash c) (node_hash d)"
    by (simp add: compute_parent_hash)
  then have "1 # as_bytes (node_hash a) @ as_bytes (node_hash b)
      = 1 # as_bytes (node_hash c) @ as_bytes (node_hash d)"
    unfolding hash_internal_def by (rule inj_onD [OF inj]) (use 1(4,5) ys in simp_all)
  then have "a = c" "b = d"
    using node_eq sh(1,2) by simp_all
  moreover have "xs = zs"
    by (rule 1(1)) (use 1 ys sh(3) in simp_all)
  ultimately show ?case
    using ys by simp
next
  case "2_1"
  then show ?case
    by (simp add: same_shape_def)
qed simp

lemma left_solid_pad: "solid ns \<Longrightarrow> left_solid (pad ns)"
proof -
  have app: "EmptyNode \<notin> set ns \<Longrightarrow> even (length ns) \<Longrightarrow> left_solid ns"
    "EmptyNode \<notin> set ns \<Longrightarrow> odd (length ns) \<Longrightarrow> left_solid (ns @ [EmptyNode])"
    by (induction ns rule: left_solid.induct) auto
  assume "solid ns"
  then show ?thesis
    using app by (auto simp: solid_def pad_def)
qed

lemma same_shape_pad:
  assumes "solid xs" "solid ys" "length xs = length ys"
  shows "same_shape (pad xs) (pad ys)"
proof -
  have "same_shape xs ys"
    using assms nth_mem unfolding same_shape_def solid_def list_all2_conv_all_nth by metis
  with assms(3) show ?thesis
    by (auto simp: pad_def same_shape_def list_all2_appendI)
qed

lemma pad_inj: "length xs = length ys \<Longrightarrow> pad xs = pad ys \<Longrightarrow> xs = ys"
  by (auto simp: pad_def split: if_splits)

lemma level_top_inj:
  assumes inj: "inj_on (blake3 E) B"
  shows "length xs = length ys \<Longrightarrow> solid xs \<Longrightarrow> solid ys \<Longrightarrow> xs \<noteq> []
    \<Longrightarrow> set (level_bytes E xs) \<subseteq> B \<Longrightarrow> set (level_bytes E ys) \<subseteq> B
    \<Longrightarrow> node_hash (level_top E xs) = node_hash (level_top E ys) \<Longrightarrow> xs = ys"
proof (induction "length xs" arbitrary: xs ys rule: less_induct)
  case less
  show ?case
  proof (cases "1 < length xs")
    case True
    then have True': "1 < length ys"
      using less.prems(1) by simp
    have len: "length (parents E (pad xs)) < length xs" "length (parents E (pad xs)) = length (parents E (pad ys))"
      using True less.prems(1) by (auto simp: length_pad)
    have "0 < length (parents E (pad xs))"
      using True by (simp add: length_pad)
    then have ne: "parents E (pad xs) \<noteq> []"
      by (simp del: length_parents)
    have bx: "set (pair_bytes (pad xs)) \<subseteq> B" "set (level_bytes E (parents E (pad xs))) \<subseteq> B"
      using less.prems(5) True by (subst (asm) level_bytes.simps, simp)+
    have by': "set (pair_bytes (pad ys)) \<subseteq> B" "set (level_bytes E (parents E (pad ys))) \<subseteq> B"
      using less.prems(6) True' by (subst (asm) level_bytes.simps, simp)+
    have "node_hash (level_top E (parents E (pad xs))) = node_hash (level_top E (parents E (pad ys)))"
      using less.prems(7) True True' level_top.simps [of E xs] level_top.simps [of E ys] by simp
    then have "parents E (pad xs) = parents E (pad ys)"
      by (rule less.hyps [OF len solid_parents [OF less.prems(2) True]
            solid_parents [OF less.prems(3) True'] ne bx(2) by'(2)])
    then have "pad xs = pad ys"
      by (rule parents_inj [OF inj same_shape_pad [OF less.prems(2,3,1)] left_solid_pad [OF less.prems(2)]
            bx(1) by'(1)])
    then show ?thesis
      by (rule pad_inj [OF less.prems(1)])
  next
    case False
    then obtain x y where "xs = [x]" "ys = [y]"
      using less.prems(1,4) by (cases xs; cases ys) auto
    with less.prems(2,3,7) level_top.simps [of E xs] level_top.simps [of E ys] show ?thesis
      by (auto simp: solid_def intro: node_eq)
  qed
qed

text \<open>
  C26: the root of the binary tree commits to its leaves: two lists of the same length with the same
  root are equal, unless the hash function has a collision on what the two constructions hash.
\<close>

theorem binary_root_binding:
  assumes "length ls = length ms" and "bm_root (bm_build E ls) = bm_root (bm_build E ms)"
    and cf: "collision_free E (tree_bytes E ls @ tree_bytes E ms)"
  shows "ls = ms"
proof (cases "ls = []")
  case False
  define xs ys where "xs = map (\<lambda>l. HashNode (hash_leaf E l)) ls"
    and "ys = map (\<lambda>l. HashNode (hash_leaf E l)) ms"
  have ne: "ms \<noteq> []" "xs \<noteq> []" "ys \<noteq> []"
    using False assms(1) by (auto simp: xs_def ys_def)
  have inj: "inj_on (blake3 E) (set (tree_bytes E ls @ tree_bytes E ms))"
    using cf by (simp only: collision_free_inj)
  have root: "bm_root (bm_build E ls) = node_hash (level_top E xs)"
    "bm_root (bm_build E ms) = node_hash (level_top E ys)"
    using False ne last_level_nodes
    by (simp_all add: bm_build_nodes bm_root_def xs_def ys_def)
  have "xs = ys"
    by (rule level_top_inj [OF inj])
      (use assms(1,2) root ne in \<open>auto simp: xs_def ys_def tree_bytes_def\<close>)
  have h: "hash_leaf E (ls ! i) = hash_leaf E (ms ! i)" if "i < length ls" for i
  proof -
    have "xs ! i = HashNode (hash_leaf E (ls ! i))" "ys ! i = HashNode (hash_leaf E (ms ! i))"
      using that assms(1) by (simp_all add: xs_def ys_def)
    with \<open>xs = ys\<close> show ?thesis
      by simp
  qed
  have "ls ! i = ms ! i" if "i < length ls" for i
  proof -
    have "0 # ls ! i = 0 # ms ! i"
      using h [OF that] unfolding hash_leaf_def
      by (rule inj_onD [OF inj]) (use that assms(1) in \<open>simp_all add: tree_bytes_def\<close>)
    then show ?thesis
      by simp
  qed
  with assms(1) show ?thesis
    by (simp add: nth_equalityI)
qed (use assms(1) in simp)

definition pick_ext :: ext where
  "pick_ext = sample_ext\<lparr>blake3 :=
     \<lambda>bs. from_le_bytes (map (\<lambda>i. if i < length bs then bs ! i else 0) [0, 1, 31, 62, 63])\<rparr>"

theorem binary_root_binding_witness:
  "bm_root (bm_build pick_ext [[1], [2]]) \<noteq> bm_root (bm_build pick_ext [[1], [3]])"
proof
  have "collision_free pick_ext (tree_bytes pick_ext [[1], [2]] @ tree_bytes pick_ext [[1], [3]])"
    by code_simp
  moreover assume "bm_root (bm_build pick_ext [[1], [2]]) = bm_root (bm_build pick_ext [[1], [3]])"
  ultimately show False
    using binary_root_binding [of "[[1], [2]]" "[[1], [3]]" pick_ext] by simp
qed

section \<open>Aggregation of the subnet roots\<close>

lemma filter_key_eq: "distinct (map f xs) \<Longrightarrow> x \<in> set xs \<Longrightarrow> filter (\<lambda>y. f y = f x) xs = [x]"
  by (induction xs) (auto simp: filter_empty_conv image_iff)

lemma ag_climb_hashes: "ag_climb E (map node_hash ss) i h = climb E ss i h"
  by (induction ss arbitrary: i h) simp_all

lemma leaf_nodes_root:
  assumes "ns \<noteq> []"
  shows "bm_root (build_from_leaf_nodes E ns) = node_hash (level_top E ns)"
    and "i < length ns \<Longrightarrow> bm_get_proof (build_from_leaf_nodes E ns) i = Inr (level_proof E ns i)"
proof -
  have t: "build_from_leaf_nodes E ns = \<lparr>bm_nodes = level_nodes E ns, n_leaves = length ns\<rparr>"
    using assms build_loop_levels [of E "[]" ns] by (simp add: build_from_leaf_nodes_def)
  show "bm_root (build_from_leaf_nodes E ns) = node_hash (level_top E ns)"
    unfolding t using last_level_nodes [OF assms] assms by (simp add: bm_root_def)
  show "bm_get_proof (build_from_leaf_nodes E ns) i = Inr (level_proof E ns i)" if "i < length ns"
    unfolding t using bm_proof_loop_levels [of i ns "[]" E "[]"] that assms by (simp add: bm_get_proof_def)
qed

lemma position_nth:
  "distinct (map f xs) \<Longrightarrow> i < length xs \<Longrightarrow> position (\<lambda>x. f x = f (xs ! i)) xs = Some i"
proof (induction xs arbitrary: i)
  case (Cons x xs)
  then show ?case
  proof (cases i)
    case (Suc j)
    then have "f (xs ! j) \<in> f ` set xs"
      using Cons.prems(2) by simp
    with Suc Cons show ?thesis
      by auto
  qed simp
qed simp

text \<open>
  C27: the global state root is a function of the set of subnet roots: the order in which the entries
  are given does not matter, replacing an entry by itself changes nothing, and each entry has a proof
  that verifies against the global root. Subnet ids are distinct and no leaf hash is the zero word,
  which the tree takes for an absent leaf.
\<close>

theorem aggregation_correct:
  assumes dist: "distinct (map se_subnet_id es)" and nz: "\<forall>e\<in>set es. se_leaf_hash E e \<noteq> 0"
  shows "(\<forall>fs. mset fs = mset es \<longrightarrow> ag_build E fs = ag_build E es) \<and>
    (\<forall>e\<in>set es. ag_update_subnet E (ag_build E es) e = ag_build E es \<and>
       (\<exists>p. ag_get_proof (ag_build E es) (se_subnet_id e) = Inr p \<and> ap_entry p = e \<and>
            ap_verify E p (ag_global_root (ag_build E es)) = Inr ()))"
proof -
  have order: "ag_build E fs = ag_build E es" if "mset fs = mset es" for fs
  proof -
    have "distinct (map se_subnet_id fs)"
      using that dist mset_eq_imp_distinct_iff [of "map se_subnet_id fs" "map se_subnet_id es"] by simp
    then have "sort_key se_subnet_id fs = sort_key se_subnet_id es"
      by (rule sort_key_unique [OF that])
    moreover have "fs = [] \<longleftrightarrow> es = []"
      using that by auto
    ultimately show ?thesis
      by (simp add: ag_build_def)
  qed
  have upd: "ag_update_subnet E (ag_build E es) e = ag_build E es" if "e \<in> set es" for e
  proof -
    have "mset (filter (\<lambda>x. se_subnet_id x \<noteq> se_subnet_id e) (sort_key se_subnet_id es) @ [e])
        = filter_mset (\<lambda>x. se_subnet_id x \<noteq> se_subnet_id e) (mset es)
          + filter_mset (\<lambda>x. \<not> se_subnet_id x \<noteq> se_subnet_id e) (mset es)"
    proof -
      have "filter (\<lambda>x. se_subnet_id x = se_subnet_id e) es = [e]"
        using dist that by (rule filter_key_eq)
      then have "filter_mset (\<lambda>x. se_subnet_id x = se_subnet_id e) (mset es) = {#e#}"
        by (metis mset_filter mset_single_iff)
      then show ?thesis
        by simp
    qed
    also have "\<dots> = mset es"
      by (rule multiset_partition [symmetric])
    finally have "ag_build E (filter (\<lambda>x. se_subnet_id x \<noteq> se_subnet_id e) (sort_key se_subnet_id es) @ [e])
        = ag_build E es"
      by (rule order)
    moreover have "ag_entries (ag_build E es) = sort_key se_subnet_id es"
      using that by (auto simp: ag_build_def Let_def)
    ultimately show ?thesis
      by (simp only: ag_update_subnet_def)
  qed
  have "\<exists>p. ag_get_proof (ag_build E es) (se_subnet_id e) = Inr p \<and> ap_entry p = e \<and>
      ap_verify E p (ag_global_root (ag_build E es)) = Inr ()" if e: "e \<in> set es" for e
  proof -
    define sd where "sd = sort_key se_subnet_id es"
    define ns where "ns = map node_from (map (se_leaf_hash E) sd)"
    have b: "ag_build E es = \<lparr>ag_entries = sd, ag_tree = build_from_leaf_nodes E ns,
        ag_global_root = bm_root (build_from_leaf_nodes E ns)\<rparr>"
      using e by (auto simp: ag_build_def sd_def ns_def build_from_hashes_def Let_def)
    from e obtain i where i: "i < length sd" "sd ! i = e"
      unfolding sd_def by (metis in_set_conv_nth set_sort)
    have "ns \<noteq> []" and il: "i < length ns"
      using i(1) by (auto simp: ns_def)
    have ni: "ns ! i = HashNode (se_leaf_hash E e)"
      using i nz e by (simp add: ns_def node_from_def)
    have "distinct (map se_subnet_id sd)"
      using dist by (simp add: sd_def distinct_sort_key)
    then have pos: "position (\<lambda>x. se_subnet_id x = se_subnet_id e) sd = Some i"
      using position_nth [of se_subnet_id sd i] i by simp
    have "solid ns"
      using nz by (auto simp: solid_def ns_def sd_def node_from_def)
    then have "climb E (level_proof E ns i) i (se_leaf_hash E e) = node_hash (level_top E ns)"
      using climb_level_proof [of ns i E] il ni by simp
    with pos leaf_nodes_root [OF \<open>ns \<noteq> []\<close>] il i show ?thesis
      by (auto simp: b ag_get_proof_def ap_verify_def ag_climb_hashes Let_def)
  qed
  with order upd show ?thesis
    by blast
qed

theorem aggregation_correct_witness:
  "let es = [SubnetStateEntry_new 0 5, SubnetStateEntry_new 3 6, SubnetStateEntry_new 1 7] in
   ag_build pick_ext (rev es) = ag_build pick_ext es \<and>
   (\<exists>p. ag_get_proof (ag_build pick_ext es) 3 = Inr p \<and>
        ap_verify pick_ext p (ag_global_root (ag_build pick_ext es)) = Inr ())"
proof -
  let ?es = "[SubnetStateEntry_new 0 5, SubnetStateEntry_new 3 6, SubnetStateEntry_new 1 7]"
  have "distinct (map se_subnet_id ?es)"
    by (simp add: SubnetStateEntry_new_def)
  moreover have "list_all (\<lambda>e. se_leaf_hash pick_ext e \<noteq> 0) ?es"
    by code_simp
  then have "\<forall>e\<in>set ?es. se_leaf_hash pick_ext e \<noteq> 0"
    by (simp only: list_all_iff)
  ultimately have "(\<forall>fs. mset fs = mset ?es \<longrightarrow> ag_build pick_ext fs = ag_build pick_ext ?es) \<and>
    (\<forall>e\<in>set ?es. ag_update_subnet pick_ext (ag_build pick_ext ?es) e = ag_build pick_ext ?es \<and>
       (\<exists>p. ag_get_proof (ag_build pick_ext ?es) (se_subnet_id e) = Inr p \<and> ap_entry p = e \<and>
            ap_verify pick_ext p (ag_global_root (ag_build pick_ext ?es)) = Inr ()))"
    by (rule aggregation_correct)
  moreover have "mset (rev ?es) = mset ?es" "SubnetStateEntry_new 3 6 \<in> set ?es"
    "se_subnet_id (SubnetStateEntry_new 3 6) = 3"
    by (simp_all only: mset_rev set_simps insert_iff SubnetStateEntry_new_def subnet_state_entry.simps) simp
  ultimately show ?thesis
    unfolding Let_def by metis
qed

end
