(* ===== verification/Merkle_Store.thy ===== *)
theory Merkle_Store
  imports Binary_Merkle "HOL-Library.Product_Lexorder"
begin

text \<open>
  The persistence of the Merkle trees, \<^verbatim>\<open>crates/setu-merkle/src/storage.rs\<close>.

  The trait \<open>B4Store\<close> with the parts of its supertraits that the state manager calls is the record
  \<open>b4_store\<close> of its methods: a generic function over the backend takes that record as an argument. A
  method that may fail returns a sum. \<open>InMemoryMerkleStore\<close> is one such backend; the locks around
  its maps are left out, since each method takes and releases them in one call.

  The locale \<open>b4_backend\<close> is what the state manager relies on: a batch is a list of writes, and a
  committed batch is what a later load reads back. \<open>InMemoryMerkleStore\<close> meets it.
\<close>

section \<open>The interface\<close>

type_synonym anchor_id = u64

record ('s, 'b) b4_store =
  begin_batch :: "'s \<Rightarrow> merkle_error + 'b"
  commit_batch :: "'s \<Rightarrow> 'b \<Rightarrow> (merkle_error + unit) \<times> 's"
  put_leaves_to_batch :: "'b \<Rightarrow> 256 word \<Rightarrow> (hash_value \<times> bytes) list \<Rightarrow> merkle_error + 'b"
  delete_leaves_to_batch :: "'b \<Rightarrow> 256 word \<Rightarrow> hash_value list \<Rightarrow> merkle_error + 'b"
  batch_register_subnet :: "'b \<Rightarrow> 256 word \<Rightarrow> merkle_error + 'b"
  batch_set_last_anchor :: "'b \<Rightarrow> 256 word \<Rightarrow> anchor_id \<Rightarrow> merkle_error + 'b"
  batch_put_subnet_root :: "'b \<Rightarrow> 256 word \<Rightarrow> anchor_id \<Rightarrow> hash_value \<Rightarrow> merkle_error + 'b"
  batch_put_global_root :: "'b \<Rightarrow> anchor_id \<Rightarrow> hash_value \<Rightarrow> merkle_error + 'b"
  list_registered_subnets :: "'s \<Rightarrow> merkle_error + 256 word list"
  load_all_leaves :: "'s \<Rightarrow> 256 word \<Rightarrow> merkle_error + (hash_value, bytes) fmap"
  get_last_anchor :: "'s \<Rightarrow> 256 word \<Rightarrow> merkle_error + anchor_id option"
  get_subnet_root :: "'s \<Rightarrow> 256 word \<Rightarrow> anchor_id \<Rightarrow> merkle_error + hash_value option"

section \<open>The in-memory backend\<close>

record merkle_store =
  ms_nodes :: "(256 word \<times> hash_value, sparse_merkle_node) fmap"
  ms_subnet_roots :: "(256 word \<times> anchor_id, hash_value) fmap"
  ms_global_roots :: "(anchor_id, hash_value) fmap"
  ms_leaves :: "(256 word \<times> hash_value, bytes) fmap"
  registered_subnets :: "256 word fset"
  ms_last_anchors :: "(256 word, anchor_id) fmap"
  ms_meta :: "(string, bytes) fmap"

definition ms_new :: merkle_store where
  "ms_new = \<lparr>ms_nodes = fmempty, ms_subnet_roots = fmempty, ms_global_roots = fmempty,
     ms_leaves = fmempty, registered_subnets = {||}, ms_last_anchors = fmempty, ms_meta = fmempty\<rparr>"

definition ms_put_node :: "merkle_store \<Rightarrow> 256 word \<Rightarrow> hash_value \<Rightarrow> sparse_merkle_node \<Rightarrow> merkle_store" where
  "ms_put_node s sid h n = s\<lparr>ms_nodes := fmupd (sid, h) n (ms_nodes s)\<rparr>"

definition ms_get_node :: "merkle_store \<Rightarrow> 256 word \<Rightarrow> hash_value \<Rightarrow> sparse_merkle_node option" where
  "ms_get_node s sid h = fmlookup (ms_nodes s) (sid, h)"

definition ms_delete_node :: "merkle_store \<Rightarrow> 256 word \<Rightarrow> hash_value \<Rightarrow> merkle_store" where
  "ms_delete_node s sid h = s\<lparr>ms_nodes := fmdrop (sid, h) (ms_nodes s)\<rparr>"

definition ms_batch_put_nodes ::
  "merkle_store \<Rightarrow> 256 word \<Rightarrow> (hash_value \<times> sparse_merkle_node) list \<Rightarrow> merkle_store" where
  "ms_batch_put_nodes s sid ns = s\<lparr>ms_nodes := fold (\<lambda>(h, n). fmupd (sid, h) n) ns (ms_nodes s)\<rparr>"

definition ms_put_subnet_root :: "merkle_store \<Rightarrow> 256 word \<Rightarrow> anchor_id \<Rightarrow> hash_value \<Rightarrow> merkle_store" where
  "ms_put_subnet_root s sid a r = s\<lparr>ms_subnet_roots := fmupd (sid, a) r (ms_subnet_roots s)\<rparr>"

definition ms_get_subnet_root :: "merkle_store \<Rightarrow> 256 word \<Rightarrow> anchor_id \<Rightarrow> hash_value option" where
  "ms_get_subnet_root s sid a = fmlookup (ms_subnet_roots s) (sid, a)"

text \<open>\<open>max_by_key\<close> over distinct keys is the last entry in key order.\<close>

definition ms_get_latest_subnet_root :: "merkle_store \<Rightarrow> 256 word \<Rightarrow> (anchor_id \<times> hash_value) option" where
  "ms_get_latest_subnet_root s sid =
     (case filter (\<lambda>((i, _), _). i = sid) (entries (ms_subnet_roots s)) of
        [] \<Rightarrow> None
      | xs \<Rightarrow> (case last xs of ((_, a), r) \<Rightarrow> Some (a, r)))"

definition ms_put_global_root :: "merkle_store \<Rightarrow> anchor_id \<Rightarrow> hash_value \<Rightarrow> merkle_store" where
  "ms_put_global_root s a r = s\<lparr>ms_global_roots := fmupd a r (ms_global_roots s)\<rparr>"

definition ms_get_global_root :: "merkle_store \<Rightarrow> anchor_id \<Rightarrow> hash_value option" where
  "ms_get_global_root s a = fmlookup (ms_global_roots s) a"

definition ms_get_latest_global_root :: "merkle_store \<Rightarrow> (anchor_id \<times> hash_value) option" where
  "ms_get_latest_global_root s =
     (case entries (ms_global_roots s) of [] \<Rightarrow> None | xs \<Rightarrow> Some (last xs))"

definition ms_list_anchors :: "merkle_store \<Rightarrow> 256 word \<Rightarrow> anchor_id \<Rightarrow> anchor_id \<Rightarrow> anchor_id list" where
  "ms_list_anchors s sid start stop =
     map (\<lambda>((_, a), _). a)
       (filter (\<lambda>((i, a), _). i = sid \<and> start \<le> a \<and> a \<le> stop) (entries (ms_subnet_roots s)))"

definition ms_prune_before :: "merkle_store \<Rightarrow> anchor_id \<Rightarrow> merkle_store \<times> u64" where
  "ms_prune_before s a =
     (s\<lparr>ms_subnet_roots := fmfilter (\<lambda>(_, b). \<not> b < a) (ms_subnet_roots s),
        ms_global_roots := fmfilter (\<lambda>b. \<not> b < a) (ms_global_roots s)\<rparr>,
      of_nat (fcard (ffilter (\<lambda>(_, b). b < a) (fmdom (ms_subnet_roots s)))
              + fcard (ffilter (\<lambda>b. b < a) (fmdom (ms_global_roots s)))))"

definition put_leaves :: "256 word \<Rightarrow> (hash_value \<times> bytes) list \<Rightarrow> merkle_store \<Rightarrow> merkle_store" where
  "put_leaves sid ls s = s\<lparr>ms_leaves := fold (\<lambda>(k, v). fmupd (sid, k) v) ls (ms_leaves s)\<rparr>"

definition delete_leaves :: "256 word \<Rightarrow> hash_value list \<Rightarrow> merkle_store \<Rightarrow> merkle_store" where
  "delete_leaves sid ks s = s\<lparr>ms_leaves := fold (\<lambda>k. fmdrop (sid, k)) ks (ms_leaves s)\<rparr>"

definition ms_load_all_leaves :: "merkle_store \<Rightarrow> 256 word \<Rightarrow> (hash_value, bytes) fmap" where
  "ms_load_all_leaves s sid =
     fmap_of_list (map (\<lambda>((_, k), v). (k, v)) (filter (\<lambda>((i, _), _). i = sid) (entries (ms_leaves s))))"

definition ms_list_subnets :: "merkle_store \<Rightarrow> 256 word list" where
  "ms_list_subnets s = sorted_list_of_fset (fst |`| fmdom (ms_leaves s))"

definition ms_get_leaf :: "merkle_store \<Rightarrow> 256 word \<Rightarrow> hash_value \<Rightarrow> bytes option" where
  "ms_get_leaf s sid k = fmlookup (ms_leaves s) (sid, k)"

definition ms_leaf_count :: "merkle_store \<Rightarrow> 256 word \<Rightarrow> nat" where
  "ms_leaf_count s sid = fcard (ffilter (\<lambda>(i, _). i = sid) (fmdom (ms_leaves s)))"

definition ms_register_subnet :: "merkle_store \<Rightarrow> 256 word \<Rightarrow> merkle_store" where
  "ms_register_subnet s sid = s\<lparr>registered_subnets := finsert sid (registered_subnets s)\<rparr>"

definition ms_unregister_subnet :: "merkle_store \<Rightarrow> 256 word \<Rightarrow> merkle_store" where
  "ms_unregister_subnet s sid = s\<lparr>registered_subnets := registered_subnets s |-| {|sid|}\<rparr>"

definition ms_list_registered_subnets :: "merkle_store \<Rightarrow> 256 word list" where
  "ms_list_registered_subnets s = sorted_list_of_fset (registered_subnets s)"

definition ms_set_last_anchor :: "merkle_store \<Rightarrow> 256 word \<Rightarrow> anchor_id \<Rightarrow> merkle_store" where
  "ms_set_last_anchor s sid a = s\<lparr>ms_last_anchors := fmupd sid a (ms_last_anchors s)\<rparr>"

definition ms_get_last_anchor :: "merkle_store \<Rightarrow> 256 word \<Rightarrow> anchor_id option" where
  "ms_get_last_anchor s sid = fmlookup (ms_last_anchors s) sid"

definition ms_set_meta :: "merkle_store \<Rightarrow> string \<Rightarrow> bytes \<Rightarrow> merkle_store" where
  "ms_set_meta s k v = s\<lparr>ms_meta := fmupd k v (ms_meta s)\<rparr>"

record in_memory_batch =
  leaf_upserts :: "(256 word \<times> hash_value \<times> bytes) list"
  leaf_deletes :: "(256 word \<times> hash_value) list"
  subnet_registrations :: "256 word list"
  b_last_anchors :: "(256 word \<times> anchor_id) list"
  b_subnet_roots :: "(256 word \<times> anchor_id \<times> hash_value) list"
  b_global_roots :: "(anchor_id \<times> hash_value) list"

definition batch_default :: in_memory_batch where
  "batch_default = \<lparr>leaf_upserts = [], leaf_deletes = [], subnet_registrations = [],
     b_last_anchors = [], b_subnet_roots = [], b_global_roots = []\<rparr>"

text \<open>\<open>commit_batch\<close>: the six kinds of operation one after the other, each in the order of the batch.\<close>

definition ms_commit_batch :: "merkle_store \<Rightarrow> in_memory_batch \<Rightarrow> (merkle_error + unit) \<times> merkle_store" where
  "ms_commit_batch s b =
     (Inr (),
      s\<lparr>ms_leaves := fold (\<lambda>(i, k). fmdrop (i, k)) (leaf_deletes b)
          (fold (\<lambda>(i, k, v). fmupd (i, k) v) (leaf_upserts b) (ms_leaves s)),
        registered_subnets := fold finsert (subnet_registrations b) (registered_subnets s),
        ms_last_anchors := fold (\<lambda>(i, a). fmupd i a) (b_last_anchors b) (ms_last_anchors s),
        ms_subnet_roots := fold (\<lambda>(i, a, r). fmupd (i, a) r) (b_subnet_roots b) (ms_subnet_roots s),
        ms_global_roots := fold (\<lambda>(a, r). fmupd a r) (b_global_roots b) (ms_global_roots s)\<rparr>)"

definition mem_put_leaves_to_batch ::
  "in_memory_batch \<Rightarrow> 256 word \<Rightarrow> (hash_value \<times> bytes) list \<Rightarrow> merkle_error + in_memory_batch" where
  "mem_put_leaves_to_batch b sid ls =
     Inr (b\<lparr>leaf_upserts := leaf_upserts b @ map (\<lambda>(k, v). (sid, k, v)) ls\<rparr>)"

definition mem_delete_leaves_to_batch ::
  "in_memory_batch \<Rightarrow> 256 word \<Rightarrow> hash_value list \<Rightarrow> merkle_error + in_memory_batch" where
  "mem_delete_leaves_to_batch b sid ks = Inr (b\<lparr>leaf_deletes := leaf_deletes b @ map (Pair sid) ks\<rparr>)"

definition mem_batch_register_subnet :: "in_memory_batch \<Rightarrow> 256 word \<Rightarrow> merkle_error + in_memory_batch" where
  "mem_batch_register_subnet b sid = Inr (b\<lparr>subnet_registrations := subnet_registrations b @ [sid]\<rparr>)"

definition mem_batch_set_last_anchor ::
  "in_memory_batch \<Rightarrow> 256 word \<Rightarrow> anchor_id \<Rightarrow> merkle_error + in_memory_batch" where
  "mem_batch_set_last_anchor b sid a = Inr (b\<lparr>b_last_anchors := b_last_anchors b @ [(sid, a)]\<rparr>)"

definition mem_batch_put_subnet_root ::
  "in_memory_batch \<Rightarrow> 256 word \<Rightarrow> anchor_id \<Rightarrow> hash_value \<Rightarrow> merkle_error + in_memory_batch" where
  "mem_batch_put_subnet_root b sid a r = Inr (b\<lparr>b_subnet_roots := b_subnet_roots b @ [(sid, a, r)]\<rparr>)"

definition mem_batch_put_global_root ::
  "in_memory_batch \<Rightarrow> anchor_id \<Rightarrow> hash_value \<Rightarrow> merkle_error + in_memory_batch" where
  "mem_batch_put_global_root b a r = Inr (b\<lparr>b_global_roots := b_global_roots b @ [(a, r)]\<rparr>)"

definition mem_b4 :: "(merkle_store, in_memory_batch) b4_store" where
  "mem_b4 = \<lparr>begin_batch = (\<lambda>_. Inr batch_default), commit_batch = ms_commit_batch,
     put_leaves_to_batch = mem_put_leaves_to_batch, delete_leaves_to_batch = mem_delete_leaves_to_batch,
     batch_register_subnet = mem_batch_register_subnet,
     batch_set_last_anchor = mem_batch_set_last_anchor,
     batch_put_subnet_root = mem_batch_put_subnet_root,
     batch_put_global_root = mem_batch_put_global_root,
     list_registered_subnets = (\<lambda>s. Inr (ms_list_registered_subnets s)),
     load_all_leaves = (\<lambda>s i. Inr (ms_load_all_leaves s i)),
     get_last_anchor = (\<lambda>s i. Inr (ms_get_last_anchor s i)),
     get_subnet_root = (\<lambda>s i a. Inr (ms_get_subnet_root s i a))\<rparr>"

section \<open>The contract\<close>

text \<open>What a batch is going to write, and what a store holds.\<close>

record batch_view =
  v_puts :: "256 word \<Rightarrow> hash_value \<Rightarrow> bytes option"
  v_dels :: "256 word \<Rightarrow> hash_value set"
  v_regs :: "256 word set"
  v_anchors :: "256 word \<Rightarrow> anchor_id option"
  v_roots :: "256 word \<Rightarrow> anchor_id \<Rightarrow> hash_value option"

record store_view =
  sv_leaf :: "256 word \<Rightarrow> hash_value \<Rightarrow> bytes option"
  sv_registered :: "256 word set"
  sv_anchor :: "256 word \<Rightarrow> anchor_id option"
  sv_root :: "256 word \<Rightarrow> anchor_id \<Rightarrow> hash_value option"

definition empty_batch_view :: batch_view where
  "empty_batch_view = \<lparr>v_puts = \<lambda>_ _. None, v_dels = \<lambda>_. {}, v_regs = {}, v_anchors = \<lambda>_. None,
     v_roots = \<lambda>_ _. None\<rparr>"

definition commit_view :: "batch_view \<Rightarrow> store_view \<Rightarrow> store_view" where
  "commit_view b s =
     \<lparr>sv_leaf = \<lambda>i k. if k \<in> v_dels b i then None
                       else (case v_puts b i k of Some v \<Rightarrow> Some v | None \<Rightarrow> sv_leaf s i k),
      sv_registered = v_regs b \<union> sv_registered s,
      sv_anchor = \<lambda>i. (case v_anchors b i of Some a \<Rightarrow> Some a | None \<Rightarrow> sv_anchor s i),
      sv_root = \<lambda>i a. (case v_roots b i a of Some r \<Rightarrow> Some r | None \<Rightarrow> sv_root s i a)\<rparr>"

locale b4_backend =
  fixes ops :: "('s, 'b) b4_store"
    and bview :: "'b \<Rightarrow> batch_view"
    and sview :: "'s \<Rightarrow> store_view"
  assumes begin_law: "begin_batch ops s = Inr b \<Longrightarrow> bview b = empty_batch_view"
    and put_law: "put_leaves_to_batch ops b i ls = Inr b' \<Longrightarrow> distinct (map fst ls) \<Longrightarrow>
      bview b' = (bview b)\<lparr>v_puts := (v_puts (bview b))(i := v_puts (bview b) i ++ map_of ls)\<rparr>"
    and delete_law: "delete_leaves_to_batch ops b i ks = Inr b' \<Longrightarrow>
      bview b' = (bview b)\<lparr>v_dels := (v_dels (bview b))(i := v_dels (bview b) i \<union> set ks)\<rparr>"
    and register_law: "batch_register_subnet ops b i = Inr b' \<Longrightarrow>
      bview b' = (bview b)\<lparr>v_regs := insert i (v_regs (bview b))\<rparr>"
    and anchor_law: "batch_set_last_anchor ops b i a = Inr b' \<Longrightarrow>
      bview b' = (bview b)\<lparr>v_anchors := (v_anchors (bview b))(i \<mapsto> a)\<rparr>"
    and root_law: "batch_put_subnet_root ops b i a r = Inr b' \<Longrightarrow>
      bview b' = (bview b)\<lparr>v_roots := (v_roots (bview b))(i := (v_roots (bview b) i)(a \<mapsto> r))\<rparr>"
    and global_law: "batch_put_global_root ops b a r = Inr b' \<Longrightarrow> bview b' = bview b"
    and commit_law: "commit_batch ops s b = (Inr u, s') \<Longrightarrow> sview s' = commit_view (bview b) (sview s)"
    and load_law: "load_all_leaves ops s i = Inr m \<Longrightarrow> fmlookup m = sv_leaf (sview s) i"
    and registered_law: "list_registered_subnets ops s = Inr is \<Longrightarrow>
      set is = sv_registered (sview s) \<and> distinct is"
    and last_anchor_law: "get_last_anchor ops s i = Inr oa \<Longrightarrow> oa = sv_anchor (sview s) i"
    and subnet_root_law: "get_subnet_root ops s i a = Inr w \<Longrightarrow> w = sv_root (sview s) i a"

definition mem_bview :: "in_memory_batch \<Rightarrow> batch_view" where
  "mem_bview b =
     \<lparr>v_puts = \<lambda>i k. map_of (rev (map (\<lambda>(i, k, v). ((i, k), v)) (leaf_upserts b))) (i, k),
      v_dels = \<lambda>i. {k. (i, k) \<in> set (leaf_deletes b)},
      v_regs = set (subnet_registrations b),
      v_anchors = map_of (rev (b_last_anchors b)),
      v_roots = \<lambda>i a. map_of (rev (map (\<lambda>(i, a, r). ((i, a), r)) (b_subnet_roots b))) (i, a)\<rparr>"

definition mem_sview :: "merkle_store \<Rightarrow> store_view" where
  "mem_sview s =
     \<lparr>sv_leaf = \<lambda>i k. fmlookup (ms_leaves s) (i, k), sv_registered = fset (registered_subnets s),
      sv_anchor = fmlookup (ms_last_anchors s), sv_root = \<lambda>i a. fmlookup (ms_subnet_roots s) (i, a)\<rparr>"

lemma fmlookup_fold_upd:
  "fmlookup (fold (\<lambda>(k, v). fmupd k v) xs m) k =
     (case map_of (rev xs) k of Some v \<Rightarrow> Some v | None \<Rightarrow> fmlookup m k)"
proof (induction xs arbitrary: m)
  case (Cons x xs)
  then show ?case
    by (cases x; cases "map_of (rev xs) k") (simp_all add: map_add_def)
qed simp

lemma fmlookup_fold_upd3:
  "fmlookup (fold (\<lambda>(i, k, v). fmupd (i, k) v) xs m) x =
     (case map_of (rev (map (\<lambda>(i, k, v). ((i, k), v)) xs)) x of Some v \<Rightarrow> Some v | None \<Rightarrow> fmlookup m x)"
proof -
  have "fold (\<lambda>(i, k, v). fmupd (i, k) v) xs m = fold (\<lambda>(k, v). fmupd k v) (map (\<lambda>(i, k, v). ((i, k), v)) xs) m"
    by (induction xs arbitrary: m) auto
  then show ?thesis
    by (simp only: fmlookup_fold_upd)
qed

lemma fmlookup_fold_drop:
  "fmlookup (fold fmdrop xs m) x = (if x \<in> set xs then None else fmlookup m x)"
  by (induction xs arbitrary: m) auto

lemma fset_fold_finsert: "fset (fold finsert xs S) = set xs \<union> fset S"
  by (induction xs arbitrary: S) auto

lemma fmlookup_load_all_leaves: "fmlookup (ms_load_all_leaves s i) k = fmlookup (ms_leaves s) (i, k)"
proof -
  define xs where "xs = filter (\<lambda>((j, _), _). j = i) (entries (ms_leaves s))"
  have "distinct (map fst xs)"
    unfolding xs_def by (rule distinct_map_filter) simp
  moreover have i: "fst (fst x) = i" if "x \<in> set xs" for x
    using that by (auto simp: xs_def)
  ultimately have "distinct (map fst (map (\<lambda>((_, k), v). (k, v)) xs))"
    by (simp add: distinct_map inj_on_def case_prod_beta) (metis i prod.collapse)
  then have "map_of (map (\<lambda>((_, k), v). (k, v)) xs) k = Some v \<longleftrightarrow> fmlookup (ms_leaves s) (i, k) = Some v" for v
    by (simp add: map_of_eq_Some_iff) (force simp: xs_def)
  then show ?thesis
    unfolding ms_load_all_leaves_def xs_def [symmetric] fmlookup_of_list by (metis not_None_eq)
qed

interpretation mem_backend: b4_backend mem_b4 mem_bview mem_sview
proof
  fix b b' :: in_memory_batch and i :: "256 word" and ls :: "(hash_value \<times> bytes) list"
  assume put: "put_leaves_to_batch mem_b4 b i ls = Inr b'" and dist: "distinct (map fst ls)"
  have "map_of (rev (map (\<lambda>(k, v). ((i, k), v)) ls)) (j, k) = (if j = i then map_of ls k else None)" for j k
  proof -
    have "map_of (rev (map (\<lambda>(k, v). ((i, k), v)) ls)) = map_of (map (\<lambda>(k, v). ((i, k), v)) ls)"
    proof (rule map_of_inject_set [THEN iffD2])
      show "distinct (map fst (map (\<lambda>(k, v). ((i, k), v)) ls))"
        using dist by (induction ls) (auto simp: image_iff)
      then show "distinct (map fst (rev (map (\<lambda>(k, v). ((i, k), v)) ls)))"
        by (simp only: rev_map [symmetric] distinct_rev)
    qed simp
    moreover have "map_of (map (\<lambda>(k, v). ((i, k), v)) ls) (j, k) = (if j = i then map_of ls k else None)"
      by (induction ls) auto
    ultimately show ?thesis
      by simp
  qed
  moreover have "map (\<lambda>(i, k, v). ((i, k), v)) (map (\<lambda>(k, v). (i, k, v)) ls) = map (\<lambda>(k, v). ((i, k), v)) ls"
    by auto
  ultimately show "mem_bview b' = (mem_bview b)\<lparr>v_puts := (v_puts (mem_bview b))(i := v_puts (mem_bview b) i ++ map_of ls)\<rparr>"
    using put by (auto simp: mem_b4_def mem_put_leaves_to_batch_def mem_bview_def fun_eq_iff map_add_def
        simp del: map_map split: option.split)
next
  show "load_all_leaves mem_b4 s i = Inr m \<Longrightarrow> fmlookup m = sv_leaf (mem_sview s) i" for s i m
    by (auto simp: mem_b4_def mem_sview_def fmlookup_load_all_leaves fun_eq_iff)
next
  show "commit_batch mem_b4 s b = (Inr u, s') \<Longrightarrow> mem_sview s' = commit_view (mem_bview b) (mem_sview s)" for s b u s'
    by (auto simp: mem_b4_def ms_commit_batch_def mem_sview_def mem_bview_def commit_view_def fmlookup_fold_upd
        fmlookup_fold_upd3 fmlookup_fold_drop fset_fold_finsert fun_eq_iff split: option.split)
qed (auto simp: mem_b4_def mem_bview_def mem_sview_def empty_batch_view_def batch_default_def
    mem_delete_leaves_to_batch_def mem_batch_register_subnet_def mem_batch_set_last_anchor_def
    mem_batch_put_subnet_root_def mem_batch_put_global_root_def ms_list_registered_subnets_def
    ms_get_last_anchor_def ms_get_subnet_root_def sorted_list_of_fset.rep_eq fun_eq_iff)

end
