(* ===== verification/Global_State.thy ===== *)
theory Global_State
  imports Merkle_Store Sparse_Merkle_Refine Runtime_State Events
begin

text \<open>
  The global state manager, \<^verbatim>\<open>storage/src/state/manager.rs\<close>: one sparse Merkle tree per subnet, the
  indexes over the stored objects, and the application of the events that consensus has finalized.

  The manager is the record \<open>gsm\<close>; its type parameter is the storage backend, which only \<open>commit\<close>
  and \<open>recover\<close> call, through the record of its methods. \<open>de\<close> is the BCS decoder of object
  envelopes. A removal from a Merkle tree may panic (\<open>None\<close>), which the lemmas rule out. The
  registry of version watchers is the list of object ids that \<open>apply_committed_events\<close> hands to it.
  Logging and the feature-gated probes are left out.
\<close>

section \<open>The tree of one subnet\<close>

record subnet_state_smt =
  ss_subnet_id :: subnet_id
  ss_tree :: inc_tree
  object_count :: u64
  last_updated_anchor :: u64

definition ss_new :: "ext \<Rightarrow> subnet_id \<Rightarrow> subnet_state_smt" where
  "ss_new E i = \<lparr>ss_subnet_id = i, ss_tree = inc_new E, object_count = 0, last_updated_anchor = 0\<rparr>"

definition ss_get :: "subnet_state_smt \<Rightarrow> hash_value \<Rightarrow> bytes option" where
  "ss_get s k = inc_get (ss_tree s) k"

definition ss_root :: "subnet_state_smt \<Rightarrow> hash_value" where
  "ss_root s = root_hash (ss_tree s)"

definition ss_upsert :: "ext \<Rightarrow> subnet_state_smt \<Rightarrow> hash_value \<Rightarrow> bytes \<Rightarrow> subnet_state_smt \<times> hash_value" where
  "ss_upsert E s k v =
     (let s1 = (if inc_get (ss_tree s) k = None then s\<lparr>object_count := object_count s + 1\<rparr> else s);
          t = fst (inc_insert E (ss_tree s1) k v)
      in (s1\<lparr>ss_tree := t\<rparr>, root_hash t))"

definition ss_delete ::
  "ext \<Rightarrow> subnet_state_smt \<Rightarrow> hash_value \<Rightarrow> (subnet_state_smt \<times> bytes option) option" where
  "ss_delete E s k =
     (case inc_remove E (ss_tree s) k of
        None \<Rightarrow> None
      | Some (t, removed) \<Rightarrow>
          Some (s\<lparr>ss_tree := t,
                  object_count := (if removed \<noteq> None then saturating_sub (object_count s) 1
                                   else object_count s)\<rparr>, removed))"

definition ss_prove :: "ext \<Rightarrow> subnet_state_smt \<Rightarrow> hash_value \<Rightarrow> sparse_merkle_proof" where
  "ss_prove E s k = inc_get_proof E (ss_tree s) k"

definition ss_batch_update ::
  "ext \<Rightarrow> subnet_state_smt \<Rightarrow> (hash_value \<times> bytes) list \<Rightarrow> subnet_state_smt \<times> hash_value" where
  "ss_batch_update E s us =
     (let s1 = fold (\<lambda>(k, v) s. fst (ss_upsert E s k v)) us s in (s1, ss_root s1))"

definition ss_set_last_anchor :: "subnet_state_smt \<Rightarrow> u64 \<Rightarrow> subnet_state_smt" where
  "ss_set_last_anchor s a = s\<lparr>last_updated_anchor := a\<rparr>"

definition ss_is_empty :: "subnet_state_smt \<Rightarrow> bool" where
  "ss_is_empty s \<longleftrightarrow> object_count s = 0"

definition ss_all_objects :: "subnet_state_smt \<Rightarrow> (hash_value \<times> bytes) list" where
  "ss_all_objects s = entries (leaves (ss_tree s))"

definition ss_has_pending_changes :: "subnet_state_smt \<Rightarrow> bool" where
  "ss_has_pending_changes s = has_pending_changes (ss_tree s)"

definition ss_take_changes :: "subnet_state_smt \<Rightarrow> subnet_state_smt \<times> leaf_changes" where
  "ss_take_changes s = (let (t, c) = take_changes (ss_tree s) in (s\<lparr>ss_tree := t\<rparr>, c))"

text \<open>\<open>derive(Clone)\<close>, with the tree's own \<open>Clone\<close>.\<close>

definition ss_clone :: "subnet_state_smt \<Rightarrow> subnet_state_smt" where
  "ss_clone s = s\<lparr>ss_tree := inc_clone (ss_tree s)\<rparr>"

definition from_persisted_leaves :: "ext \<Rightarrow> subnet_id \<Rightarrow> (hash_value, bytes) fmap \<Rightarrow> subnet_state_smt" where
  "from_persisted_leaves E i m =
     (let t = from_leaves E m
      in \<lparr>ss_subnet_id = i, ss_tree = t, object_count = of_nat (fmlen (leaves t)), last_updated_anchor = 0\<rparr>)"

section \<open>The manager\<close>

record 's gsm =
  subnet_states :: "(subnet_id, subnet_state_smt) fmap"
  gs_store :: "'s option"
  current_anchor :: u64
  coin_type_index :: "(string, string fset) fmap"
  owner_object_index :: "(string, (object_id \<times> string) fset) fmap"
  modification_tracker :: "(object_id, event_id \<times> u64) fmap"
  last_finalized_depth :: u64
  version_watcher :: bool

definition gsm_new :: "ext \<Rightarrow> 's gsm" where
  "gsm_new E =
     \<lparr>subnet_states = fmupd SubnetId_GOVERNANCE (ss_new E SubnetId_GOVERNANCE)
        (fmupd SubnetId_ROOT (ss_new E SubnetId_ROOT) fmempty),
      gs_store = None, current_anchor = 0, coin_type_index = fmempty, owner_object_index = fmempty,
      modification_tracker = fmempty, last_finalized_depth = 0, version_watcher = False\<rparr>"

definition with_store :: "ext \<Rightarrow> 's \<Rightarrow> 's gsm" where
  "with_store E st = (gsm_new E)\<lparr>gs_store := Some st\<rparr>"

definition gsm_clone :: "'s gsm \<Rightarrow> 's gsm" where
  "gsm_clone g =
     \<lparr>subnet_states = fmmap ss_clone (subnet_states g), gs_store = None,
      current_anchor = current_anchor g, coin_type_index = fmempty, owner_object_index = fmempty,
      modification_tracker = fmempty, last_finalized_depth = last_finalized_depth g,
      version_watcher = False\<rparr>"

definition clone_for_read_snapshot :: "'s gsm \<Rightarrow> 's gsm" where
  "clone_for_read_snapshot g =
     \<lparr>subnet_states = fmmap ss_clone (subnet_states g), gs_store = None,
      current_anchor = current_anchor g, coin_type_index = coin_type_index g,
      owner_object_index = owner_object_index g, modification_tracker = modification_tracker g,
      last_finalized_depth = last_finalized_depth g, version_watcher = False\<rparr>"

definition set_version_watcher :: "'s gsm \<Rightarrow> 's gsm" where
  "set_version_watcher g = g\<lparr>version_watcher := True\<rparr>"

text \<open>
  \<open>get_subnet_mut\<close> creates the subnet when it is absent; the reference it returns is the value, which
  \<open>put_subnet\<close> writes back.
\<close>

definition get_subnet_mut :: "ext \<Rightarrow> 's gsm \<Rightarrow> subnet_id \<Rightarrow> 's gsm \<times> subnet_state_smt" where
  "get_subnet_mut E g i =
     (case fmlookup (subnet_states g) i of
        Some s \<Rightarrow> (g, s)
      | None \<Rightarrow> (g\<lparr>subnet_states := fmupd i (ss_new E i) (subnet_states g)\<rparr>, ss_new E i))"

definition put_subnet :: "'s gsm \<Rightarrow> subnet_id \<Rightarrow> subnet_state_smt \<Rightarrow> 's gsm" where
  "put_subnet g i s = g\<lparr>subnet_states := fmupd i s (subnet_states g)\<rparr>"

definition get_subnet :: "'s gsm \<Rightarrow> subnet_id \<Rightarrow> subnet_state_smt option" where
  "get_subnet g i = fmlookup (subnet_states g) i"

definition get_subnet_root_of :: "'s gsm \<Rightarrow> subnet_id \<Rightarrow> hash_value option" where
  "get_subnet_root_of g i = map_option ss_root (fmlookup (subnet_states g) i)"

definition upsert_object :: "ext \<Rightarrow> 's gsm \<Rightarrow> subnet_id \<Rightarrow> object_id \<Rightarrow> bytes \<Rightarrow> 's gsm \<times> hash_value" where
  "upsert_object E g i k v =
     (let (g1, s) = get_subnet_mut E g i; (s1, r) = ss_upsert E s k v in (put_subnet g1 i s1, r))"

definition compute_global_root :: "ext \<Rightarrow> 's gsm \<Rightarrow> hash_value \<times> (subnet_id, hash_value) fmap" where
  "compute_global_root E g =
     (let es = map (\<lambda>(i, s). SubnetStateEntry_new i (ss_root s)) (entries (subnet_states g))
      in if es = [] then (0, fmempty)
         else (ag_global_root (ag_build E es), fmmap ss_root (subnet_states g)))"

record anchor_merkle_roots =
  events_root :: hash_value
  global_state_root :: hash_value
  anchor_chain_root :: hash_value
  subnet_roots :: "(subnet_id, hash_value) fmap"

definition merkle_roots_digest :: "ext \<Rightarrow> anchor_merkle_roots \<Rightarrow> hash_value" where
  "merkle_roots_digest E r =
     blake3 E (str_bytes ''SETU_MERKLE_ROOTS:'' @ as_bytes (events_root r) @ as_bytes (global_state_root r)
       @ as_bytes (anchor_chain_root r)
       @ concat (map (\<lambda>(i, h). as_bytes i @ as_bytes h) (entries (subnet_roots r))))"

definition build_anchor_roots ::
  "ext \<Rightarrow> 's gsm \<Rightarrow> hash_value \<Rightarrow> hash_value \<Rightarrow> anchor_merkle_roots" where
  "build_anchor_roots E g er acr =
     (let (gr, srs) = compute_global_root E g
      in \<lparr>events_root = er, global_state_root = gr, anchor_chain_root = acr, subnet_roots = srs\<rparr>)"

definition gsm_has_pending_changes :: "'s gsm \<Rightarrow> bool" where
  "gsm_has_pending_changes g \<longleftrightarrow> list_ex (\<lambda>(_, s). ss_has_pending_changes s) (entries (subnet_states g))"

definition has_subnet :: "'s gsm \<Rightarrow> subnet_id \<Rightarrow> bool" where
  "has_subnet g i \<longleftrightarrow> i |\<in>| fmdom (subnet_states g)"

definition remove_subnet :: "'s gsm \<Rightarrow> subnet_id \<Rightarrow> 's gsm \<times> bool" where
  "remove_subnet g i =
     (if i = SubnetId_ROOT then (g, False)
      else (g\<lparr>subnet_states := fmdrop i (subnet_states g)\<rparr>, i |\<in>| fmdom (subnet_states g)))"

definition all_objects :: "'s gsm \<Rightarrow> (subnet_id \<times> object_id \<times> bytes) list" where
  "all_objects g =
     concat (map (\<lambda>(i, s). map (\<lambda>(k, v). (i, k, v)) (ss_all_objects s)) (entries (subnet_states g)))"

section \<open>Persistence\<close>

text \<open>\<open>?\<close> on a sum.\<close>

definition and_then :: "'e + 'a \<Rightarrow> ('a \<Rightarrow> 'e + 'b) \<Rightarrow> 'e + 'b" where
  "and_then x f = (case x of Inl e \<Rightarrow> Inl e | Inr a \<Rightarrow> f a)"

text \<open>
  The body of the loop of \<open>commit\<close>. The tracked changes of the subnet are taken before the batch
  operations, so they are gone from the tree when one of these fails.
\<close>

definition commit_subnet ::
  "('s, 'b) b4_store \<Rightarrow> u64 \<Rightarrow> subnet_id \<Rightarrow> subnet_state_smt \<Rightarrow> 'b
   \<Rightarrow> subnet_state_smt \<times> (merkle_error + 'b)" where
  "commit_subnet ops a i s b =
     (let (s1, changes) = (if ss_has_pending_changes s
                           then (let (s1, c) = ss_take_changes s in (s1, Some c)) else (s, None))
      in (s1,
          and_then (case changes of
                 None \<Rightarrow> Inr b
               | Some c \<Rightarrow>
                   and_then (if upserts c = [] then Inr b else put_leaves_to_batch ops b i (upserts c))
                     (\<lambda>b. if deletes c = [] then Inr b else delete_leaves_to_batch ops b i (deletes c)))
            (\<lambda>b. and_then (if object_count s1 > 0 then batch_register_subnet ops b i else Inr b)
            (\<lambda>b. and_then (batch_put_subnet_root ops b i a (ss_root s1))
            (\<lambda>b. batch_set_last_anchor ops b i a)))))"

fun commit_loop ::
  "('s, 'b) b4_store \<Rightarrow> u64 \<Rightarrow> (subnet_id \<times> subnet_state_smt) list
   \<Rightarrow> (subnet_id, subnet_state_smt) fmap \<Rightarrow> 'b \<Rightarrow> (subnet_id, subnet_state_smt) fmap \<times> (merkle_error + 'b)" where
  "commit_loop ops a [] m b = (m, Inr b)"
| "commit_loop ops a ((i, s) # rest) m b =
     (case commit_subnet ops a i s b of
        (s1, Inl e) \<Rightarrow> (fmupd i s1 m, Inl e)
      | (s1, Inr b1) \<Rightarrow> commit_loop ops a rest (fmupd i s1 m) b1)"

definition gsm_commit ::
  "ext \<Rightarrow> ('s, 'b) b4_store \<Rightarrow> 's gsm \<Rightarrow> u64 \<Rightarrow> 's gsm \<times> (merkle_error + unit)" where
  "gsm_commit E ops g a =
     (let g1 = g\<lparr>subnet_states := fmmap (\<lambda>s. ss_set_last_anchor s a) (subnet_states g)\<rparr>
      in case gs_store g1 of
           None \<Rightarrow> (g1\<lparr>current_anchor := a\<rparr>, Inr ())
         | Some st \<Rightarrow>
             (case begin_batch ops st of
                Inl e \<Rightarrow> (g1, Inl e)
              | Inr b \<Rightarrow>
                  (case commit_loop ops a (entries (subnet_states g1)) (subnet_states g1) b of
                     (m, Inl e) \<Rightarrow> (g1\<lparr>subnet_states := m\<rparr>, Inl e)
                   | (m, Inr b1) \<Rightarrow>
                       (let g2 = g1\<lparr>subnet_states := m\<rparr>
                        in case batch_put_global_root ops b1 a (fst (compute_global_root E g2)) of
                             Inl e \<Rightarrow> (g2, Inl e)
                           | Inr b2 \<Rightarrow>
                               (case commit_batch ops st b2 of
                                  (Inl e, st1) \<Rightarrow> (g2\<lparr>gs_store := Some st1\<rparr>, Inl e)
                                | (Inr _, st1) \<Rightarrow>
                                    (g2\<lparr>gs_store := Some st1, current_anchor := a\<rparr>, Inr ()))))))"

record recovery_summary =
  subnets_recovered :: nat
  total_leaves :: nat
  root_mismatches :: nat

definition recover_subnet ::
  "ext \<Rightarrow> ('s, 'b) b4_store \<Rightarrow> 's \<Rightarrow> subnet_id \<Rightarrow> 's gsm \<times> recovery_summary
   \<Rightarrow> ('s gsm \<times> recovery_summary) \<times> (merkle_error + unit)" where
  "recover_subnet E ops st i gr =
     (let (g, r) = gr
      in case load_all_leaves ops st i of
           Inl e \<Rightarrow> (gr, Inl e)
         | Inr ls \<Rightarrow>
             if fmlen ls = 0 then (gr, Inr ())
             else let s = from_persisted_leaves E i ls
                  in case get_last_anchor ops st i of
                       Inl e \<Rightarrow> (gr, Inl e)
                     | Inr oa \<Rightarrow>
                         (let la = (case oa of None \<Rightarrow> 0 | Some a \<Rightarrow> a);
                              s1 = (case oa of None \<Rightarrow> s | Some a \<Rightarrow> ss_set_last_anchor s a);
                              g1 = (case oa of
                                      None \<Rightarrow> g
                                    | Some a \<Rightarrow> if a > current_anchor g then g\<lparr>current_anchor := a\<rparr> else g)
                          in case (if la > 0 then get_subnet_root ops st i la else Inr None) of
                               Inl e \<Rightarrow> ((g1, r), Inl e)
                             | Inr oroot \<Rightarrow>
                                 (let mism = (case oroot of None \<Rightarrow> 0 | Some h \<Rightarrow> if ss_root s1 \<noteq> h then 1 else 0)
                                  in ((put_subnet g1 i s1,
                                       r\<lparr>subnets_recovered := subnets_recovered r + 1,
                                         total_leaves := total_leaves r + fmlen ls,
                                         root_mismatches := root_mismatches r + mism\<rparr>), Inr ()))))"

fun recover_loop ::
  "ext \<Rightarrow> ('s, 'b) b4_store \<Rightarrow> 's \<Rightarrow> subnet_id list \<Rightarrow> 's gsm \<times> recovery_summary
   \<Rightarrow> ('s gsm \<times> recovery_summary) \<times> (merkle_error + unit)" where
  "recover_loop E ops st [] gr = (gr, Inr ())"
| "recover_loop E ops st (i # is) gr =
     (case recover_subnet E ops st i gr of
        (gr1, Inl e) \<Rightarrow> (gr1, Inl e)
      | (gr1, Inr _) \<Rightarrow> recover_loop E ops st is gr1)"

definition gsm_recover ::
  "ext \<Rightarrow> ('s, 'b) b4_store \<Rightarrow> 's gsm \<Rightarrow> 's gsm \<times> (merkle_error + recovery_summary)" where
  "gsm_recover E ops g =
     (let r0 = \<lparr>subnets_recovered = 0, total_leaves = 0, root_mismatches = 0\<rparr>
      in case gs_store g of
           None \<Rightarrow> (g, Inr r0)
         | Some st \<Rightarrow>
             (case list_registered_subnets ops st of
                Inl e \<Rightarrow> (g, Inl e)
              | Inr is \<Rightarrow>
                  (case recover_loop E ops st is (g, r0) of
                     ((g1, r1), Inl e) \<Rightarrow> (g1, Inl e)
                   | ((g1, r1), Inr _) \<Rightarrow>
                       (if SubnetId_ROOT |\<in>| fmdom (subnet_states g1) then g1
                        else put_subnet g1 SubnetId_ROOT (ss_new E SubnetId_ROOT), Inr r1))))"

section \<open>Indexes\<close>

definition resolve_address :: "ext \<Rightarrow> string \<Rightarrow> string" where
  "resolve_address E a = id_to_string E (Address_normalize E a)"

text \<open>\<open>HashMap::entry(k).or_default().insert(x)\<close>.\<close>

definition index_insert :: "'k \<Rightarrow> 'x \<Rightarrow> ('k, 'x fset) fmap \<Rightarrow> ('k, 'x fset) fmap" where
  "index_insert k x m = fmupd k (finsert x (case fmlookup m k of None \<Rightarrow> {||} | Some s \<Rightarrow> s)) m"

definition index_delete :: "'k \<Rightarrow> 'x \<Rightarrow> ('k, 'x fset) fmap \<Rightarrow> ('k, 'x fset) fmap" where
  "index_delete k x m =
     (case fmlookup m k of
        None \<Rightarrow> m
      | Some s \<Rightarrow> if s |-| {|x|} = {||} then fmdrop k m else fmupd k (s |-| {|x|}) m)"

definition get_coin_types_for_address :: "ext \<Rightarrow> 's gsm \<Rightarrow> string \<Rightarrow> string fset" where
  "get_coin_types_for_address E g a =
     (case fmlookup (coin_type_index g) (resolve_address E a) of None \<Rightarrow> {||} | Some s \<Rightarrow> s)"

definition register_coin_type :: "ext \<Rightarrow> 's gsm \<Rightarrow> string \<Rightarrow> string \<Rightarrow> 's gsm" where
  "register_coin_type E g a ct =
     g\<lparr>coin_type_index := index_insert (resolve_address E a) ct (coin_type_index g)\<rparr>"

definition register_coin_object :: "ext \<Rightarrow> 's gsm \<Rightarrow> string \<Rightarrow> string \<Rightarrow> object_id \<Rightarrow> 's gsm" where
  "register_coin_object E g a ct i =
     (let canonical = resolve_address E a; g1 = register_coin_type E g canonical ct
      in g1\<lparr>owner_object_index := index_insert canonical (i, ct) (owner_object_index g1)\<rparr>)"

definition get_coin_objects_for_address :: "ext \<Rightarrow> 's gsm \<Rightarrow> string \<Rightarrow> (object_id \<times> string) list" where
  "get_coin_objects_for_address E g a =
     (case fmlookup (owner_object_index g) (resolve_address E a) of
        None \<Rightarrow> []
      | Some s \<Rightarrow> sorted_list_of_fset s)"

text \<open>\<open>str::find\<close>, and \<open>rfind\<close> of one character.\<close>

fun find_str :: "string \<Rightarrow> string \<Rightarrow> nat option" where
  "find_str p s =
     (if starts_with s p then Some 0
      else case s of [] \<Rightarrow> None | _ # t \<Rightarrow> map_option Suc (find_str p t))"

fun rfind_char :: "char \<Rightarrow> string \<Rightarrow> nat option" where
  "rfind_char c [] = None"
| "rfind_char c (x # xs) =
     (case rfind_char c xs of Some i \<Rightarrow> Some (Suc i) | None \<Rightarrow> if x = c then Some 0 else None)"

text \<open>\<open>rsplit(p).next()\<close>: what follows the last occurrence, or the whole string.\<close>

fun after_last :: "string \<Rightarrow> string \<Rightarrow> string" where
  "after_last p s =
     (case find_str p (drop 1 s) of
        Some _ \<Rightarrow> (case s of [] \<Rightarrow> [] | _ # t \<Rightarrow> after_last p t)
      | None \<Rightarrow> if starts_with s p then drop (length p) s else s)"

definition extract_coin_type_from_tag :: "string \<Rightarrow> string option" where
  "extract_coin_type_from_tag tag =
     (case find_str ''::coin::Coin<'' tag of
        None \<Rightarrow> None
      | Some i \<Rightarrow>
          (case rfind_char CHR ''>'' tag of
             None \<Rightarrow> None
           | Some stop \<Rightarrow>
               (let start = i + length ''::coin::Coin<''
                in if start \<ge> stop then None
                   else Some (after_last ''::'' (drop start (take stop tag))))))"

text \<open>Owner, type tag and coin type of a stored value.\<close>

definition index_entry ::
  "ext \<Rightarrow> (bytes \<Rightarrow> object_envelope option) \<Rightarrow> bytes \<Rightarrow> (string \<times> string \<times> string option) option" where
  "index_entry E de v =
     (case detect_and_parse E de v of
        Envelope env \<Rightarrow>
          Some (id_to_string E (em_owner (env_metadata env)), type_tag env,
                extract_coin_type_from_tag (type_tag env))
      | LegacyCoinState cs \<Rightarrow> Some (cs_owner cs, cs_coin_type cs, Some (cs_coin_type cs))
      | UnknownFormat \<Rightarrow> None)"

definition index_value ::
  "ext \<Rightarrow> (bytes \<Rightarrow> object_envelope option) \<Rightarrow> object_id \<Rightarrow> bytes \<Rightarrow> 's gsm \<Rightarrow> 's gsm" where
  "index_value E de i v g =
     (case index_entry E de v of
        None \<Rightarrow> g
      | Some (owner, tag, ct) \<Rightarrow>
          (let g1 = g\<lparr>owner_object_index := index_insert owner (i, tag) (owner_object_index g)\<rparr>
           in case ct of
                None \<Rightarrow> g1
              | Some c \<Rightarrow> g1\<lparr>coin_type_index := index_insert owner c (coin_type_index g1)\<rparr>))"

definition rebuild_coin_type_index ::
  "ext \<Rightarrow> (bytes \<Rightarrow> object_envelope option) \<Rightarrow> 's gsm \<Rightarrow> 's gsm \<times> nat" where
  "rebuild_coin_type_index E de g =
     (let g1 = fold (\<lambda>(_, k, v). index_value E de k v) (all_objects g)
                 (g\<lparr>coin_type_index := fmempty, owner_object_index := fmempty\<rparr>)
      in (g1, fmsum (\<lambda>_ s. fcard s) (owner_object_index g1)))"

definition not_indexed :: "string \<Rightarrow> bool" where
  "not_indexed key \<longleftrightarrow> starts_with key ''mod:'' \<or> starts_with key ''user:'' \<or> starts_with key ''solver:''
     \<or> starts_with key ''validator:'' \<or> starts_with key ''event:'' \<or> starts_with key ''linkage:''"

definition update_indexes_for_value ::
  "ext \<Rightarrow> (bytes \<Rightarrow> object_envelope option) \<Rightarrow> 's gsm \<Rightarrow> hash_value \<Rightarrow> bytes \<Rightarrow> string \<Rightarrow> 's gsm" where
  "update_indexes_for_value E de g i v key =
     (if not_indexed key then g else index_value E de i v g)"

definition remove_from_indexes_for_value ::
  "ext \<Rightarrow> (bytes \<Rightarrow> object_envelope option) \<Rightarrow> 's gsm \<Rightarrow> hash_value \<Rightarrow> bytes \<Rightarrow> 's gsm" where
  "remove_from_indexes_for_value E de g i old =
     (case index_entry E de old of
        None \<Rightarrow> g
      | Some (owner, tag, _) \<Rightarrow>
          g\<lparr>owner_object_index := index_delete owner (i, tag) (owner_object_index g)\<rparr>)"

definition record_modification :: "'s gsm \<Rightarrow> event_id \<Rightarrow> object_id \<Rightarrow> u64 \<Rightarrow> 's gsm" where
  "record_modification g e i d =
     g\<lparr>modification_tracker := fmupd i (e, d) (modification_tracker g)\<rparr>"

definition get_last_modifying_event :: "'s gsm \<Rightarrow> object_id \<Rightarrow> event_id option" where
  "get_last_modifying_event g i = map_option fst (fmlookup (modification_tracker g) i)"

section \<open>Applying state changes\<close>

definition setu_hash :: "ext \<Rightarrow> bytes \<Rightarrow> hash_value" where
  "setu_hash E d = blake3 E d"

text \<open>
  \<open>parse_state_change_key\<close>. Keys of an unknown format trip a debug assertion; a release build hashes
  them like the known prefixes.
\<close>

definition parse_state_change_key :: "ext \<Rightarrow> string \<Rightarrow> hash_value" where
  "parse_state_change_key E key =
     (case (case strip_prefix ''oid:'' key of
              None \<Rightarrow> None
            | Some hex_str \<Rightarrow>
                (case hex_decode E hex_str of
                   None \<Rightarrow> None
                 | Some bs \<Rightarrow> if length bs = 32 then Some (id_of_bytes bs) else None)) of
        Some h \<Rightarrow> h
      | None \<Rightarrow> setu_hash E (str_bytes key))"

datatype apply_result = Updated object_id hash_value | Deleted object_id bool

definition apply_state_change ::
  "ext \<Rightarrow> (bytes \<Rightarrow> object_envelope option) \<Rightarrow> 's gsm \<Rightarrow> subnet_id \<Rightarrow> event_state_change
   \<Rightarrow> ('s gsm \<times> apply_result) option" where
  "apply_state_change E de g i c =
     (let k = parse_state_change_key E (esc_key c)
      in case esc_new_value c of
           Some v \<Rightarrow>
             (let (g1, s) = get_subnet_mut E g i;
                  (s1, r) = ss_upsert E s k v;
                  g2 = put_subnet g1 i s1;
                  g3 = (case esc_old_value c of
                          None \<Rightarrow> g2
                        | Some old \<Rightarrow> remove_from_indexes_for_value E de g2 k old)
              in Some (update_indexes_for_value E de g3 k v (esc_key c), Updated k r))
         | None \<Rightarrow>
             (let (g1, old) = (case esc_old_value c of
                                 Some o1 \<Rightarrow> (g, Some o1)
                               | None \<Rightarrow> (let (g1, s) = get_subnet_mut E g i in (g1, ss_get s k)));
                  g2 = (case old of None \<Rightarrow> g1 | Some o1 \<Rightarrow> remove_from_indexes_for_value E de g1 k o1);
                  (g3, s) = get_subnet_mut E g2 i
              in case ss_delete E s k of
                   None \<Rightarrow> None
                 | Some (s1, removed) \<Rightarrow> Some (put_subnet g3 i s1, Deleted k (removed \<noteq> None))))"

definition change_target :: "subnet_id \<Rightarrow> event_state_change \<Rightarrow> subnet_id" where
  "change_target i c = (case esc_target_subnet c of None \<Rightarrow> i | Some t \<Rightarrow> t)"

fun apply_changes ::
  "ext \<Rightarrow> (bytes \<Rightarrow> object_envelope option) \<Rightarrow> subnet_id \<Rightarrow> event_state_change list \<Rightarrow> 's gsm
   \<Rightarrow> 's gsm option" where
  "apply_changes E de i [] g = Some g"
| "apply_changes E de i (c # cs) g =
     (case apply_state_change E de g (change_target i c) c of
        None \<Rightarrow> None
      | Some (g1, _) \<Rightarrow> apply_changes E de i cs g1)"

definition apply_execution_result ::
  "ext \<Rightarrow> (bytes \<Rightarrow> object_envelope option) \<Rightarrow> 's gsm \<Rightarrow> subnet_id \<Rightarrow> execution_result
   \<Rightarrow> ('s gsm \<times> hash_value) option" where
  "apply_execution_result E de g i r =
     (case apply_changes E de i (er_state_changes r) g of
        None \<Rightarrow> None
      | Some g1 \<Rightarrow> (let (g2, s) = get_subnet_mut E g1 i in Some (g2, ss_root s)))"

record subnet_apply_stats =
  event_count :: nat
  change_count :: nat
  sas_event_ids :: "event_id list"
  final_root :: hash_value

record state_apply_summary =
  subnet_stats :: "(subnet_id, subnet_apply_stats) fmap"
  failed_events :: "event_id list"
  conflicted_events :: "(event_id \<times> string) list"
  total_events :: nat
  total_changes :: nat

definition summary_new :: state_apply_summary where
  "summary_new = \<lparr>subnet_stats = fmempty, failed_events = [], conflicted_events = [],
     total_events = 0, total_changes = 0\<rparr>"

definition record_event ::
  "state_apply_summary \<Rightarrow> subnet_id \<Rightarrow> event_id \<Rightarrow> nat \<Rightarrow> hash_value \<Rightarrow> state_apply_summary" where
  "record_event m i e n r =
     (let st = (case fmlookup (subnet_stats m) i of
                  Some st \<Rightarrow> st
                | None \<Rightarrow> \<lparr>event_count = 0, change_count = 0, sas_event_ids = [], final_root = 0\<rparr>)
      in m\<lparr>total_events := total_events m + 1, total_changes := total_changes m + n,
           subnet_stats := fmupd i (st\<lparr>event_count := event_count st + 1, change_count := change_count st + n,
             sas_event_ids := sas_event_ids st @ [e], final_root := r\<rparr>) (subnet_stats m)\<rparr>)"

text \<open>
  Conflict detection for one event: the result is the key of the first change whose old value is not
  the current one, or which creates a key that exists. Looking a key up creates its subnet.
\<close>

fun find_conflict ::
  "ext \<Rightarrow> subnet_id \<Rightarrow> event_state_change list \<Rightarrow> (subnet_id \<times> hash_value, bytes option) fmap
   \<Rightarrow> 's gsm \<Rightarrow> 's gsm \<times> string option" where
  "find_conflict E i [] pw g = (g, None)"
| "find_conflict E i (c # cs) pw g =
     (let t = change_target i c;
          k = parse_state_change_key E (esc_key c);
          pw' = fmupd (t, k) (esc_new_value c) pw
      in case esc_old_value c of
           Some old \<Rightarrow>
             (let (g1, cur) = (case fmlookup pw (t, k) of
                                 Some p \<Rightarrow> (g, p)
                               | None \<Rightarrow> (let (g1, s) = get_subnet_mut E g t in (g1, ss_get s k)))
              in if cur \<noteq> Some old then (g1, Some (esc_key c)) else find_conflict E i cs pw' g1)
         | None \<Rightarrow>
             if esc_new_value c \<noteq> None
             then (let in_pending = (case fmlookup pw (t, k) of None \<Rightarrow> False | Some p \<Rightarrow> p \<noteq> None);
                       (g1, s) = get_subnet_mut E g t
                   in if in_pending \<or> ss_get s k \<noteq> None then (g1, Some (esc_key c))
                      else find_conflict E i cs pw' g1)
             else find_conflict E i cs pw' g)"

definition apply_event ::
  "ext \<Rightarrow> (bytes \<Rightarrow> object_envelope option) \<Rightarrow> u64 \<Rightarrow> event \<Rightarrow> 's gsm \<times> state_apply_summary
   \<Rightarrow> ('s gsm \<times> state_apply_summary) option" where
  "apply_event E de d e gm =
     (let (g, m) = gm; i = get_subnet_id e
      in case ev_result e of
           None \<Rightarrow> Some (g, m)
         | Some r \<Rightarrow>
             if \<not> er_success r then Some (g, m\<lparr>failed_events := failed_events m @ [ev_id e]\<rparr>)
             else case find_conflict E i (er_state_changes r) fmempty g of
                    (g1, Some key) \<Rightarrow>
                      Some (g1, m\<lparr>conflicted_events := conflicted_events m @ [(ev_id e, key)]\<rparr>)
                  | (g1, None) \<Rightarrow>
                      (case apply_execution_result E de g1 i r of
                         None \<Rightarrow> None
                       | Some (g2, root) \<Rightarrow>
                           Some (fold (\<lambda>c g. record_modification g (ev_id e) (parse_state_change_key E (esc_key c)) d)
                                   (er_state_changes r) g2,
                                 record_event m i (ev_id e) (length (er_state_changes r)) root)))"

fun apply_events ::
  "ext \<Rightarrow> (bytes \<Rightarrow> object_envelope option) \<Rightarrow> u64 \<Rightarrow> event list \<Rightarrow> 's gsm \<times> state_apply_summary
   \<Rightarrow> ('s gsm \<times> state_apply_summary) option" where
  "apply_events E de d [] gm = Some gm"
| "apply_events E de d (e # es) gm =
     (case apply_event E de d e gm of None \<Rightarrow> None | Some gm1 \<Rightarrow> apply_events E de d es gm1)"

definition vlc_order :: "event \<Rightarrow> u64 \<times> event_id" where
  "vlc_order e = (logical_time (ev_vlc e), ev_id e)"

definition notified_objects :: "ext \<Rightarrow> event list \<Rightarrow> object_id list" where
  "notified_objects E es =
     concat (map (\<lambda>e. case ev_result e of
                        Some r \<Rightarrow> if er_success r
                                  then map (\<lambda>c. parse_state_change_key E (esc_key c)) (er_state_changes r)
                                  else []
                      | None \<Rightarrow> []) es)"

definition apply_committed_events ::
  "ext \<Rightarrow> (bytes \<Rightarrow> object_envelope option) \<Rightarrow> 's gsm \<Rightarrow> event list \<Rightarrow> u64
   \<Rightarrow> ('s gsm \<times> state_apply_summary \<times> object_id list) option" where
  "apply_committed_events E de g es d =
     (let g0 = g\<lparr>last_finalized_depth := max (last_finalized_depth g) d\<rparr>;
          sorted = sort_key vlc_order es
      in case apply_events E de d sorted (g0, summary_new) of
           None \<Rightarrow> None
         | Some (g1, m) \<Rightarrow> Some (g1, m, if version_watcher g1 then notified_objects E sorted else []))"

datatype state_apply_error = CommitFailed merkle_error

definition process_anchor ::
  "ext \<Rightarrow> (bytes \<Rightarrow> object_envelope option) \<Rightarrow> ('s, 'b) b4_store \<Rightarrow> 's gsm \<Rightarrow> event list \<Rightarrow> hash_value
   \<Rightarrow> hash_value \<Rightarrow> u64 \<Rightarrow> ('s gsm \<times> (state_apply_error + anchor_merkle_roots \<times> state_apply_summary)) option" where
  "process_anchor E de ops g es er acr a =
     (case apply_committed_events E de g es a of
        None \<Rightarrow> None
      | Some (g1, m, _) \<Rightarrow>
          (let roots = build_anchor_roots E g1 er acr
           in case gsm_commit E ops g1 a of
                (g2, Inl e) \<Rightarrow> Some (g2, Inl (CommitFailed e))
              | (g2, Inr _) \<Rightarrow> Some (g2, Inr (roots, m))))"

end
