(* ===== verification/Overlay.thy ===== *)
theory Overlay
  imports Global_State
begin

text \<open>
  Speculative reads: the overlay of staged writes that are not finalized yet
  (\<^verbatim>\<open>storage/src/state/speculative_overlay.rs\<close>) and the manager that shares one state between
  readers and the writer (\<^verbatim>\<open>storage/src/state/shared.rs\<close>).

  The overlay keeps, per key, the stack of staged values, so that clearing one event uncovers the
  value another event has staged. The mutex around the map and the atomically swapped snapshot are
  left out: each method takes and releases them in one call. The clock is an argument.

  The overlay refines a log: the list of staged writes in order, where clearing events removes their
  writes and a read returns the last write of the key.
\<close>

section \<open>The overlay\<close>

record speculative_entry =
  se_event_id :: event_id
  se_value :: "bytes option"
  staged_at :: u64

type_synonym overlay = "(subnet_id \<times> hash_value, speculative_entry list) fmap"

record overlay_stats =
  entry_count :: nat
  oldest_age :: "u64 option"
  unique_events :: nat

datatype stage_error = MalformedKey string

datatype parsed_key = Oid hash_value | NonOid | BadOid

definition ov_new :: overlay where
  "ov_new = fmempty"

definition ov_get :: "overlay \<Rightarrow> subnet_id \<Rightarrow> hash_value \<Rightarrow> bytes option option" where
  "ov_get ov i k =
     (case fmlookup ov (i, k) of
        None \<Rightarrow> None
      | Some stack \<Rightarrow> if stack = [] then None else Some (se_value (last stack)))"

definition parse_oid_hex_key :: "ext \<Rightarrow> string \<Rightarrow> parsed_key" where
  "parse_oid_hex_key E key =
     (case strip_prefix ''oid:'' key of
        None \<Rightarrow> NonOid
      | Some hex_str \<Rightarrow>
          if length hex_str \<noteq> 64 then BadOid
          else (case hex_decode E hex_str of
                  None \<Rightarrow> BadOid
                | Some bs \<Rightarrow> if length bs = 32 then Oid (id_of_bytes bs) else BadOid))"

fun stage_loop ::
  "ext \<Rightarrow> event_id \<Rightarrow> subnet_id \<Rightarrow> u64 \<Rightarrow> event_state_change list
   \<Rightarrow> ((subnet_id \<times> hash_value) \<times> speculative_entry) list
   \<Rightarrow> stage_error + ((subnet_id \<times> hash_value) \<times> speculative_entry) list" where
  "stage_loop E e i now [] acc = Inr acc"
| "stage_loop E e i now (c # cs) acc =
     (case parse_oid_hex_key E (esc_key c) of
        Oid h \<Rightarrow> stage_loop E e i now cs
          (acc @ [((change_target i c, h), \<lparr>se_event_id = e, se_value = esc_new_value c, staged_at = now\<rparr>)])
      | NonOid \<Rightarrow> stage_loop E e i now cs acc
      | BadOid \<Rightarrow> Inl (MalformedKey (esc_key c)))"

definition ov_push :: "(subnet_id \<times> hash_value) \<times> speculative_entry \<Rightarrow> overlay \<Rightarrow> overlay" where
  "ov_push x ov =
     (case x of (p, entry) \<Rightarrow>
        fmupd p ((case fmlookup ov p of None \<Rightarrow> [] | Some stack \<Rightarrow> stack) @ [entry]) ov)"

definition ov_stage ::
  "ext \<Rightarrow> overlay \<Rightarrow> event_id \<Rightarrow> subnet_id \<Rightarrow> event_state_change list \<Rightarrow> u64 \<Rightarrow> overlay \<times> (stage_error + unit)" where
  "ov_stage E ov e i cs now =
     (case stage_loop E e i now cs [] of
        Inl err \<Rightarrow> (ov, Inl err)
      | Inr staged \<Rightarrow> (fold ov_push staged ov, Inr ()))"

definition ov_clear_events :: "overlay \<Rightarrow> event_id list \<Rightarrow> overlay \<times> nat" where
  "ov_clear_events ov ids =
     (if ids = [] then (ov, 0)
      else (let keep = filter (\<lambda>entry. se_event_id entry \<notin> set ids)
            in (fmfilter (\<lambda>p. case fmlookup ov p of None \<Rightarrow> False | Some stack \<Rightarrow> keep stack \<noteq> []) (fmmap keep ov),
                fmsum (\<lambda>_ stack. length stack - length (keep stack)) ov)))"

definition ov_stats :: "overlay \<Rightarrow> u64 \<Rightarrow> overlay_stats" where
  "ov_stats ov now =
     (let all = concat (map snd (entries ov))
      in \<lparr>entry_count = fmsum (\<lambda>_ stack. length stack) ov,
          oldest_age = (case map staged_at all of [] \<Rightarrow> None | t # ts \<Rightarrow> Some (saturating_sub now (fold min ts t))),
          unique_events = card (set (map se_event_id all))\<rparr>)"

section \<open>The shared manager\<close>

record 's shared_state =
  read_snapshot :: "'s gsm"
  write_gsm :: "'s gsm"
  sh_overlay :: overlay

definition shared_new :: "'s gsm \<Rightarrow> 's shared_state" where
  "shared_new g = \<lparr>read_snapshot = clone_for_read_snapshot g, write_gsm = g, sh_overlay = ov_new\<rparr>"

definition publish_snapshot :: "'s shared_state \<Rightarrow> 's gsm \<Rightarrow> 's shared_state" where
  "publish_snapshot sh g = sh\<lparr>read_snapshot := clone_for_read_snapshot g\<rparr>"

definition stage_overlay ::
  "ext \<Rightarrow> 's shared_state \<Rightarrow> event_id \<Rightarrow> subnet_id \<Rightarrow> event_state_change list \<Rightarrow> u64
   \<Rightarrow> 's shared_state \<times> (stage_error + unit)" where
  "stage_overlay E sh e i cs now =
     (let (ov, r) = ov_stage E (sh_overlay sh) e i cs now in (sh\<lparr>sh_overlay := ov\<rparr>, r))"

definition clear_overlay_events :: "'s shared_state \<Rightarrow> event_id list \<Rightarrow> 's shared_state \<times> nat" where
  "clear_overlay_events sh ids =
     (let (ov, n) = ov_clear_events (sh_overlay sh) ids in (sh\<lparr>sh_overlay := ov\<rparr>, n))"

definition get_subnet_object :: "'s shared_state \<Rightarrow> subnet_id \<Rightarrow> hash_value \<Rightarrow> bytes option" where
  "get_subnet_object sh i k =
     (case ov_get (sh_overlay sh) i k of
        Some (Some bs) \<Rightarrow> Some bs
      | Some None \<Rightarrow> None
      | None \<Rightarrow> (case get_subnet (read_snapshot sh) i of None \<Rightarrow> None | Some s \<Rightarrow> ss_get s k))"

definition get_raw_data :: "ext \<Rightarrow> 's shared_state \<Rightarrow> string \<Rightarrow> bytes option" where
  "get_raw_data E sh key = get_subnet_object sh SubnetId_ROOT (setu_hash E (str_bytes key))"

section \<open>The log\<close>

type_synonym staged_write = "event_id \<times> (subnet_id \<times> hash_value) \<times> bytes option"

text \<open>The writes of an event, when all its object keys are well formed.\<close>

fun staged_writes :: "ext \<Rightarrow> event_id \<Rightarrow> subnet_id \<Rightarrow> event_state_change list \<Rightarrow> staged_write list" where
  "staged_writes E e i [] = []"
| "staged_writes E e i (c # cs) =
     (case parse_oid_hex_key E (esc_key c) of
        Oid h \<Rightarrow> (e, (change_target i c, h), esc_new_value c) # staged_writes E e i cs
      | _ \<Rightarrow> staged_writes E e i cs)"

definition well_formed_keys :: "ext \<Rightarrow> event_state_change list \<Rightarrow> bool" where
  "well_formed_keys E cs \<longleftrightarrow> list_all (\<lambda>c. parse_oid_hex_key E (esc_key c) \<noteq> BadOid) cs"

datatype overlay_op = Stage event_id subnet_id "event_state_change list" u64 | Clear "event_id list"

definition ov_step :: "ext \<Rightarrow> overlay_op \<Rightarrow> overlay \<Rightarrow> overlay" where
  "ov_step E op ov =
     (case op of Stage e i cs now \<Rightarrow> fst (ov_stage E ov e i cs now) | Clear ids \<Rightarrow> fst (ov_clear_events ov ids))"

definition log_step :: "ext \<Rightarrow> overlay_op \<Rightarrow> staged_write list \<Rightarrow> staged_write list" where
  "log_step E op log =
     (case op of
        Stage e i cs now \<Rightarrow> if well_formed_keys E cs then log @ staged_writes E e i cs else log
      | Clear ids \<Rightarrow> filter (\<lambda>(e, _). e \<notin> set ids) log)"

definition log_read :: "staged_write list \<Rightarrow> subnet_id \<Rightarrow> hash_value \<Rightarrow> bytes option option" where
  "log_read log i k = map_of (rev (map snd log)) (i, k)"

text \<open>The stack of a key holds the writes of the key, and there is no empty stack.\<close>

definition stack_of :: "overlay \<Rightarrow> subnet_id \<times> hash_value \<Rightarrow> speculative_entry list" where
  "stack_of ov p = (case fmlookup ov p of None \<Rightarrow> [] | Some stack \<Rightarrow> stack)"

definition represents :: "overlay \<Rightarrow> staged_write list \<Rightarrow> bool" where
  "represents ov log \<longleftrightarrow>
     (\<forall>p. fmlookup ov p \<noteq> Some [] \<and>
       map (\<lambda>x. (se_event_id x, se_value x)) (stack_of ov p) = map (\<lambda>(e, _, v). (e, v)) (filter (\<lambda>(_, q, _). q = p) log))"

lemma representsD:
  "represents ov log \<Longrightarrow>
   map (\<lambda>x. (se_event_id x, se_value x)) (stack_of ov p) = map (\<lambda>(e, _, v). (e, v)) (filter (\<lambda>(_, q, _). q = p) log)"
  "represents ov log \<Longrightarrow> fmlookup ov p \<noteq> Some []"
  unfolding represents_def by blast+

lemma represents_new: "represents ov_new []"
  by (simp add: represents_def ov_new_def stack_of_def)

lemma represents_push:
  "represents ov log \<Longrightarrow> represents (ov_push (p, x) ov) (log @ [(se_event_id x, p, se_value x)])"
  unfolding represents_def ov_push_def stack_of_def by (auto split: option.splits)

lemma represents_pushes:
  "represents ov log \<Longrightarrow>
   represents (fold ov_push xs ov) (log @ map (\<lambda>(p, x). (se_event_id x, p, se_value x)) xs)"
proof (induction xs arbitrary: ov log)
  case (Cons y xs)
  obtain p x where y: "y = (p, x)"
    by (rule prod.exhaust)
  from Cons.IH [OF represents_push [OF Cons.prems, of p x]] y show ?case
    by simp
qed simp

lemma stage_loop_log:
  "case stage_loop E e i now cs acc of
     Inl _ \<Rightarrow> \<not> well_formed_keys E cs
   | Inr st \<Rightarrow> well_formed_keys E cs \<and>
       map (\<lambda>(p, x). (se_event_id x, p, se_value x)) st
         = map (\<lambda>(p, x). (se_event_id x, p, se_value x)) acc @ staged_writes E e i cs"
proof (induction cs arbitrary: acc)
  case (Cons c cs)
  show ?case
  proof (cases "parse_oid_hex_key E (esc_key c)")
    case (Oid h)
    with Cons.IH [where acc = "acc @ [((change_target i c, h), \<lparr>se_event_id = e, se_value = esc_new_value c, staged_at = now\<rparr>)]"]
    show ?thesis
      by (simp add: well_formed_keys_def split: sum.splits)
  next
    case NonOid
    with Cons.IH [where acc = acc] show ?thesis
      by (simp add: well_formed_keys_def split: sum.splits)
  qed (simp add: well_formed_keys_def)
qed (simp add: well_formed_keys_def)

lemma represents_stage:
  assumes "represents ov log"
  shows "represents (fst (ov_stage E ov e i cs now)) (log_step E (Stage e i cs now) log)"
proof (cases "stage_loop E e i now cs []")
  case (Inl err)
  with stage_loop_log [where E = E and e = e and i = i and now = now and cs = cs and acc = "[]"] assms show ?thesis
    by (simp add: ov_stage_def log_step_def)
next
  case (Inr st)
  with stage_loop_log [where E = E and e = e and i = i and now = now and cs = cs and acc = "[]"] represents_pushes [OF assms, of st] show ?thesis
    by (simp add: ov_stage_def log_step_def)
qed

lemma filter_pairs:
  "map (\<lambda>x. (f x, g x)) xs = map (\<lambda>(e, _, v). (e, v)) ys \<Longrightarrow>
   map (\<lambda>x. (f x, g x)) (filter (\<lambda>x. P (f x)) xs) = map (\<lambda>(e, _, v). (e, v)) (filter (\<lambda>(e, _). P e) ys)"
  by (induction xs arbitrary: ys) (auto simp: Cons_eq_map_conv)

lemma stack_of_clear:
  "ids \<noteq> [] \<Longrightarrow> stack_of (fst (ov_clear_events ov ids)) p = filter (\<lambda>x. se_event_id x \<notin> set ids) (stack_of ov p)"
  by (auto simp: ov_clear_events_def Let_def stack_of_def split: option.split)

lemma represents_clear:
  assumes "represents ov log"
  shows "represents (fst (ov_clear_events ov ids)) (filter (\<lambda>(e, _). e \<notin> set ids) log)"
proof (cases "ids = []")
  case True
  with assms show ?thesis
    by (simp add: ov_clear_events_def case_prod_beta)
next
  case False
  have "fmlookup (fst (ov_clear_events ov ids)) p \<noteq> Some []" for p
    using False by (auto simp: ov_clear_events_def Let_def split: option.splits)
  moreover have "filter (\<lambda>(_, q, _). q = p) (filter (\<lambda>(e, _). e \<notin> set ids) log)
      = filter (\<lambda>(e, _). e \<notin> set ids) (filter (\<lambda>(_, q, _). q = p) log)" for p
    by (simp add: conj_commute case_prod_beta)
  ultimately show ?thesis
    using filter_pairs [OF representsD(1) [OF assms], of "\<lambda>e. e \<notin> set ids"] False
    by (simp add: represents_def stack_of_clear)
qed

lemma represents_run: "represents (fold (ov_step E) ops ov) (fold (log_step E) ops log)" if "represents ov log"
  using that
proof (induction ops arbitrary: ov log)
  case (Cons op ops)
  have "represents (ov_step E op ov) (log_step E op log)"
    using Cons.prems represents_stage represents_clear
    by (cases op) (simp_all add: ov_step_def, simp add: log_step_def)
  from Cons.IH [OF this] show ?case
    by simp
qed simp

lemma ov_get_log:
  assumes r: "represents ov log"
  shows "ov_get ov i k = log_read log i k"
proof -
  have "map_of (rev (map snd log)) p = (case rev (map (\<lambda>(e, _, v). (e, v)) (filter (\<lambda>(_, q, _). q = p) log)) of
      [] \<Rightarrow> None | x # _ \<Rightarrow> Some (snd x))" for p
    by (induction log rule: rev_induct) (auto split: list.splits)
  moreover have "ov_get ov i k = (case rev (map (\<lambda>x. (se_event_id x, se_value x)) (stack_of ov (i, k))) of
      [] \<Rightarrow> None | x # _ \<Rightarrow> Some (snd x))"
    by (cases "stack_of ov (i, k)" rule: rev_cases) (auto simp: ov_get_def stack_of_def split: option.splits)
  ultimately show ?thesis
    unfolding log_read_def representsD(1) [OF r] by simp
qed

lemma sum_filter_keys:
  "finite S \<Longrightarrow> (\<lambda>(_, q, _). q) ` set log \<subseteq> S \<Longrightarrow>
   (\<Sum>p\<in>S. length (filter (\<lambda>(_, q, _). q = p) log)) = length log"
proof (induction log)
  case (Cons x log)
  obtain e q v where x: "x = (e, q, v)"
    by (rule prod_cases3)
  have "(\<Sum>p\<in>S. length (filter (\<lambda>(_, q, _). q = p) (x # log)))
      = (\<Sum>p\<in>S. (if p = q then 1 else 0) + length (filter (\<lambda>(_, q, _). q = p) log))"
    by (intro sum.cong) (auto simp: x)
  also have "\<dots> = 1 + length log"
    using Cons x by (simp add: sum.distrib)
  finally show ?case
    by simp
qed simp

lemma log_keys: "represents ov log \<Longrightarrow> (\<lambda>(_, q, _). q) ` set log \<subseteq> fset (fmdom ov)"
proof
  fix p assume r: "represents ov log" and "p \<in> (\<lambda>(_, q, _). q) ` set log"
  then have "filter (\<lambda>(_, q, _). q = p) log \<noteq> []"
    by (auto simp: filter_empty_conv)
  with representsD(1) [OF r, of p] have "stack_of ov p \<noteq> []"
    by auto
  then show "p \<in> fset (fmdom ov)"
    by (auto simp: stack_of_def fmlookup_dom_iff split: option.splits)
qed

lemma fmsum_stacks: "fmsum (\<lambda>_ st. f st) ov = (\<Sum>p\<in>fset (fmdom ov). f (stack_of ov p))"
  unfolding fmsum_def by (intro sum.cong) (auto simp: stack_of_def fmlookup_dom_iff)

lemma stack_lengths:
  assumes r: "represents ov log"
  shows "fmsum (\<lambda>_ st. length (filter (\<lambda>x. P (se_event_id x)) st)) ov = length (filter (\<lambda>(e, _). P e) log)"
proof -
  let ?log = "filter (\<lambda>(e, _). P e) log"
  have "length (filter (\<lambda>x. P (se_event_id x)) (stack_of ov p)) = length (filter (\<lambda>(_, q, _). q = p) ?log)" for p
  proof -
    have "length (filter (\<lambda>x. P (se_event_id x)) (stack_of ov p))
        = length (map (\<lambda>x. (se_event_id x, se_value x)) (filter (\<lambda>x. P (se_event_id x)) (stack_of ov p)))"
      by simp
    also have "\<dots> = length (filter (\<lambda>(e, _). P e) (filter (\<lambda>(_, q, _). q = p) log))"
      unfolding filter_pairs [OF representsD(1) [OF r]] by simp
    also have "\<dots> = length (filter (\<lambda>(_, q, _). q = p) ?log)"
      by (simp add: conj_commute case_prod_beta)
    finally show ?thesis .
  qed
  then have "fmsum (\<lambda>_ st. length (filter (\<lambda>x. P (se_event_id x)) st)) ov
      = (\<Sum>p\<in>fset (fmdom ov). length (filter (\<lambda>(_, q, _). q = p) ?log))"
    unfolding fmsum_stacks by (rule sum.cong [OF refl])
  also have "\<dots> = length ?log"
    using log_keys [OF r] by (intro sum_filter_keys) auto
  finally show ?thesis .
qed

lemma stacked_events:
  assumes r: "represents ov log"
  shows "set (map se_event_id (concat (map snd (entries ov)))) = fst ` set log"
proof
  have stack: "(se_event_id x) \<in> fst ` set log" if "x \<in> set (stack_of ov p)" for p x
  proof -
    have "(se_event_id x, se_value x) \<in> set (map (\<lambda>x. (se_event_id x, se_value x)) (stack_of ov p))"
      using that by simp
    then show ?thesis
      unfolding representsD(1) [OF r] by force
  qed
  show "set (map se_event_id (concat (map snd (entries ov)))) \<subseteq> fst ` set log"
  proof
    fix e assume "e \<in> set (map se_event_id (concat (map snd (entries ov))))"
    then obtain p st x where "fmlookup ov p = Some st" "x \<in> set st" "e = se_event_id x"
      by auto
    with stack [of x p] show "e \<in> fst ` set log"
      by (simp add: stack_of_def)
  qed
  show "fst ` set log \<subseteq> set (map se_event_id (concat (map snd (entries ov))))"
  proof
    fix e assume "e \<in> fst ` set log"
    then obtain q v where "(e, q, v) \<in> set log"
      by force
    then have "(e, v) \<in> set (map (\<lambda>(e, _, v). (e, v)) (filter (\<lambda>(_, p, _). p = q) log))"
      by force
    then obtain x where x: "x \<in> set (stack_of ov q)" "e = se_event_id x"
      unfolding representsD(1) [OF r, symmetric] by auto
    then obtain st where "fmlookup ov q = Some st" "x \<in> set st"
      by (cases "fmlookup ov q") (auto simp: stack_of_def)
    then have "st \<in> snd ` set (entries ov)"
      by (intro image_eqI [of _ _ "(q, st)"]) simp_all
    with x(2) \<open>x \<in> set st\<close> show "e \<in> set (map se_event_id (concat (map snd (entries ov))))"
      by auto
  qed
qed

text \<open>
  C23: the overlay is a log of staged writes. After any sequence of staging and clearing, a read of a
  key returns the last staged write of the key whose event has not been cleared, an event with a
  malformed object key stages nothing, the statistics count the staged writes and their
  events, and clearing reports the number of writes it removes. An event that stages a key it has
  staged before adds a second write: reads return the new one, the old one stays in the log and is
  counted by the statistics and by clearing.
\<close>

theorem overlay_refines_log:
  "let ov = fold (ov_step E) ops ov_new; log = fold (log_step E) ops []
   in ov_get ov i k = log_read log i k \<and>
     entry_count (ov_stats ov now) = length log \<and>
     unique_events (ov_stats ov now) = card (fst ` set log) \<and>
     snd (ov_clear_events ov ids) = length (filter (\<lambda>(e, _). e \<in> set ids) log)"
proof -
  define ov log where "ov = fold (ov_step E) ops ov_new" and "log = fold (log_step E) ops []"
  have r: "represents ov log"
    unfolding ov_def log_def by (rule represents_run [OF represents_new])
  have rest: "length st - length (filter (\<lambda>x. se_event_id x \<notin> set ids) st) = length (filter (\<lambda>x. se_event_id x \<in> set ids) st)"
    for st
    using sum_length_filter_compl [of "\<lambda>x. se_event_id x \<in> set ids" st] by simp
  have "snd (ov_clear_events ov ids) = length (filter (\<lambda>(e, _). e \<in> set ids) log)"
    using stack_lengths [OF r, of "\<lambda>e. e \<in> set ids"] by (auto simp: ov_clear_events_def Let_def rest)
  moreover have "entry_count (ov_stats ov now) = length log"
    using stack_lengths [OF r, of "\<lambda>_. True"] by (simp add: ov_stats_def Let_def case_prod_beta)
  ultimately show ?thesis
    using ov_get_log [OF r, of i k] stacked_events [OF r]
    unfolding Let_def ov_def [symmetric] log_def [symmetric] by (simp add: ov_stats_def Let_def)
qed

end
