(* ===== verification/Consensus_Frames.thy ===== *)
theory Consensus_Frames
  imports Global_State
begin

text \<open>
  Anchors, votes and consensus frames, \<^verbatim>\<open>types/src/consensus.rs\<close>.

  An anchor commits to a set of events and to the state after them, a consensus frame (CF) is an
  anchor put to the vote. The vote count thresholds are computed on machine words as in the code. The
  signature scheme is the parameter \<open>ed25519\<close>.

  The lemmas show that the signed message of a vote binds its content, and what the two thresholds
  give: a frame is never both accepted and rejected, two accepted frames share more than a third of
  the validators, and the votes of the correct validators suffice.
\<close>

section \<open>Anchors\<close>

record anchor =
  an_id :: string
  event_ids :: "event_id list"
  an_vlc :: vlc_snapshot
  state_root :: string
  merkle_roots :: "anchor_merkle_roots option"
  previous_anchor :: "string option"
  an_depth :: u64
  an_timestamp :: u64

definition anchor_compute_id :: "ext \<Rightarrow> event_id list \<Rightarrow> vlc_snapshot \<Rightarrow> string \<Rightarrow> u64 \<Rightarrow> string" where
  "anchor_compute_id E es v r ts =
     hex_encode E (as_bytes (blake3 E (str_bytes ''SETU_ANCHOR_ID:'' @ concat (map str_bytes es)
       @ le_bytes 8 (logical_time v) @ str_bytes r @ le_bytes 8 ts)))"

definition anchor_new ::
  "ext \<Rightarrow> event_id list \<Rightarrow> vlc_snapshot \<Rightarrow> string \<Rightarrow> string option \<Rightarrow> u64 \<Rightarrow> u64 \<Rightarrow> anchor" where
  "anchor_new E es v r prev d now =
     \<lparr>an_id = anchor_compute_id E es v r now, event_ids = es, an_vlc = v, state_root = r,
      merkle_roots = None, previous_anchor = prev, an_depth = d, an_timestamp = now\<rparr>"

definition with_merkle_roots ::
  "ext \<Rightarrow> event_id list \<Rightarrow> vlc_snapshot \<Rightarrow> anchor_merkle_roots \<Rightarrow> string option \<Rightarrow> u64 \<Rightarrow> u64 \<Rightarrow> anchor" where
  "with_merkle_roots E es v roots prev d now =
     (let r = hex_encode E (as_bytes (global_state_root roots))
      in \<lparr>an_id = anchor_compute_id E es v r now, event_ids = es, an_vlc = v, state_root = r,
          merkle_roots = Some roots, previous_anchor = prev, an_depth = d, an_timestamp = now\<rparr>)"

definition anchor_compute_hash :: "ext \<Rightarrow> anchor \<Rightarrow> hash_value" where
  "anchor_compute_hash E a =
     blake3 E (str_bytes ''SETU_ANCHOR_HASH:'' @ str_bytes (an_id a) @ le_bytes 8 (an_depth a)
       @ (case previous_anchor a of None \<Rightarrow> [] | Some p \<Rightarrow> str_bytes p)
       @ (case merkle_roots a of
            None \<Rightarrow> []
          | Some r \<Rightarrow> as_bytes (events_root r) @ as_bytes (global_state_root r) @ as_bytes (anchor_chain_root r))
       @ le_bytes 8 (logical_time (an_vlc a)) @ le_bytes 8 (an_timestamp a))"

section \<open>Votes\<close>

text \<open>
  \<open>ed25519_dalek\<close>: signing with a 32-byte secret key, the public key of a secret key, whether 32 bytes
  are the encoding of a point, and verification. A signature has 64 bytes.
\<close>

record ed25519 =
  ed_sign :: "bytes \<Rightarrow> bytes \<Rightarrow> bytes"
  ed_public :: "bytes \<Rightarrow> bytes"
  ed_point :: "bytes \<Rightarrow> bool"
  ed_verify :: "bytes \<Rightarrow> bytes \<Rightarrow> bytes \<Rightarrow> bool"

record vote =
  validator_id :: string
  vt_cf_id :: string
  approve :: bool
  signature :: bytes
  vt_timestamp :: u64

definition vote_new :: "string \<Rightarrow> string \<Rightarrow> bool \<Rightarrow> u64 \<Rightarrow> vote" where
  "vote_new v c b now = \<lparr>validator_id = v, vt_cf_id = c, approve = b, signature = [], vt_timestamp = now\<rparr>"

definition signing_message :: "vote \<Rightarrow> bytes" where
  "signing_message v =
     str_bytes ''SETU_VOTE_V1'' @ str_bytes (vt_cf_id v) @ str_bytes (validator_id v)
       @ [if approve v then 1 else 0] @ le_bytes 8 (vt_timestamp v)"

definition vote_sign :: "ed25519 \<Rightarrow> vote \<Rightarrow> bytes \<Rightarrow> vote \<times> (string + unit)" where
  "vote_sign S v key =
     (if length key \<noteq> 32 then (v, Inl ''Invalid private key length'')
      else (v\<lparr>signature := ed_sign S key (signing_message v)\<rparr>, Inr ()))"

definition vote_verify_signature :: "ed25519 \<Rightarrow> vote \<Rightarrow> bytes \<Rightarrow> bool" where
  "vote_verify_signature S v pk \<longleftrightarrow>
     signature v \<noteq> [] \<and> length pk = 32 \<and> ed_point S pk \<and> length (signature v) = 64
       \<and> ed_verify S pk (signing_message v) (signature v)"

section \<open>Consensus frames\<close>

datatype cf_status = Proposed | Voting | CF_Approved | CF_Finalized | CF_Rejected

record consensus_frame =
  cf_id :: string
  cf_round :: u64
  cf_anchor :: anchor
  proposer :: string
  cf_stat :: cf_status
  votes :: "(string, vote) fmap"
  created_at :: u64
  finalized_at :: "u64 option"

definition cf_compute_id :: "ext \<Rightarrow> u64 \<Rightarrow> anchor \<Rightarrow> string \<Rightarrow> u64 \<Rightarrow> string" where
  "cf_compute_id E r a p ts =
     hex_encode E (as_bytes (blake3 E (str_bytes ''SETU_CF_ID_V2:'' @ le_bytes 8 r @ str_bytes (an_id a)
       @ str_bytes p @ le_bytes 8 ts)))"

definition cf_new :: "ext \<Rightarrow> u64 \<Rightarrow> anchor \<Rightarrow> string \<Rightarrow> u64 \<Rightarrow> consensus_frame" where
  "cf_new E r a p now =
     \<lparr>cf_id = cf_compute_id E r a p now, cf_round = r, cf_anchor = a, proposer = p, cf_stat = Proposed,
      votes = fmempty, created_at = now, finalized_at = None\<rparr>"

definition add_vote :: "consensus_frame \<Rightarrow> vote \<Rightarrow> consensus_frame" where
  "add_vote c v = c\<lparr>votes := fmupd (validator_id v) v (votes c)\<rparr>"

definition approve_count :: "consensus_frame \<Rightarrow> nat" where
  "approve_count c = length (filter (\<lambda>(_, v). approve v) (entries (votes c)))"

definition reject_count :: "consensus_frame \<Rightarrow> nat" where
  "reject_count c = length (filter (\<lambda>(_, v). \<not> approve v) (entries (votes c)))"

definition check_quorum :: "consensus_frame \<Rightarrow> u64 \<Rightarrow> bool" where
  "check_quorum c n \<longleftrightarrow> unat (n * 2 div 3 + 1) \<le> approve_count c"

definition check_rejection :: "consensus_frame \<Rightarrow> u64 \<Rightarrow> bool" where
  "check_rejection c n \<longleftrightarrow> unat (n div 3 + 1) \<le> reject_count c"

definition is_timeout :: "consensus_frame \<Rightarrow> u64 \<Rightarrow> u64 \<Rightarrow> bool" where
  "is_timeout c timeout_ms now \<longleftrightarrow> saturating_sub now (created_at c) > timeout_ms"

definition cf_finalize :: "consensus_frame \<Rightarrow> u64 \<Rightarrow> consensus_frame" where
  "cf_finalize c now = c\<lparr>cf_stat := CF_Finalized, finalized_at := Some now\<rparr>"

definition cf_reject :: "consensus_frame \<Rightarrow> consensus_frame" where
  "cf_reject c = c\<lparr>cf_stat := CF_Rejected\<rparr>"

definition cf_verify_id :: "ext \<Rightarrow> consensus_frame \<Rightarrow> bool" where
  "cf_verify_id E c \<longleftrightarrow> cf_id c = cf_compute_id E (cf_round c) (cf_anchor c) (proposer c) (created_at c)"

record consensus_config =
  vlc_delta_threshold :: u64
  min_events_per_cf :: nat
  max_events_per_cf :: nat
  cf_timeout_ms :: u64
  validator_count :: u64

definition config_default :: consensus_config where
  "config_default = \<lparr>vlc_delta_threshold = 10, min_events_per_cf = 1, max_events_per_cf = 1000,
     cf_timeout_ms = 5000, validator_count = 3\<rparr>"

section \<open>Quorums\<close>

definition approvers :: "consensus_frame \<Rightarrow> string set" where
  "approvers c = {i. \<exists>v. fmlookup (votes c) i = Some v \<and> approve v}"

definition rejecters :: "consensus_frame \<Rightarrow> string set" where
  "rejecters c = {i. \<exists>v. fmlookup (votes c) i = Some v \<and> \<not> approve v}"

lemma count_entries:
  "length (filter (\<lambda>(_, v). P v) (entries m)) = card {i. \<exists>v. fmlookup m i = Some v \<and> P v}"
proof -
  let ?xs = "filter (\<lambda>(_, v). P v) (entries m)"
  have "distinct (map fst ?xs)"
    by (rule distinct_map_filter) simp
  then have "card (fst ` set ?xs) = length ?xs"
    by (metis distinct_card length_map set_map)
  moreover have "fst ` set ?xs = {i. \<exists>v. fmlookup m i = Some v \<and> P v}"
    by force
  ultimately show ?thesis
    by simp
qed

lemma approve_count_card: "approve_count c = card (approvers c)"
  unfolding approve_count_def approvers_def by (rule count_entries)

lemma reject_count_card: "reject_count c = card (rejecters c)"
  unfolding reject_count_def rejecters_def by (rule count_entries)

lemma voters_dom: "approvers c \<subseteq> fset (fmdom (votes c))" "rejecters c \<subseteq> fset (fmdom (votes c))"
  "approvers c \<inter> rejecters c = {}"
  by (auto simp: approvers_def rejecters_def intro: fmdomI)

lemma thresholds:
  fixes n :: u64
  assumes "unat n < 2 ^ 63"
  shows "unat (n * 2 div 3 + 1) = unat n * 2 div 3 + 1" and "unat (n div 3 + 1) = unat n div 3 + 1"
proof -
  have "unat (n * 2) = unat n * 2"
    using assms by (subst unat_mult_lem [THEN iffD1]) simp_all
  then have d: "unat (n * 2 div 3) = unat n * 2 div 3"
    by (simp add: unat_div)
  show "unat (n * 2 div 3 + 1) = unat n * 2 div 3 + 1"
    using assms d by (subst unat_add_no_overflow) simp_all
  show "unat (n div 3 + 1) = unat n div 3 + 1"
    using assms by (subst unat_add_no_overflow) (simp_all add: unat_div)
qed

lemma quorums_overlap:
  assumes "finite V" "A \<subseteq> V" "B \<subseteq> V" "2 * card V div 3 < card A" "2 * card V div 3 < card B"
  shows "card V div 3 < card (A \<inter> B)"
proof -
  have "card A + card B = card (A \<union> B) + card (A \<inter> B)"
    using assms(1-3) by (metis card_Un_Int finite_subset)
  moreover have "card (A \<union> B) \<le> card V"
    using assms(1-3) by (intro card_mono) auto
  ultimately show ?thesis
    using assms(4,5) by linarith
qed

text \<open>
  C12: the vote thresholds, computed on 64-bit words. For fewer than \<open>2 ^ 63\<close> validators, of which
  only members vote, a frame never reaches both thresholds; two frames with a quorum share more than a
  third of the validators among their approvers, so at least one that is correct when at most a third
  are faulty; and a frame that all but \<open>(n - 1) div 3\<close> validators approve has a quorum.
\<close>

theorem quorum_thresholds:
  fixes n :: u64
  assumes "unat n < 2 ^ 63" and "finite V" and "card V = unat n"
    and "fset (fmdom (votes c)) \<subseteq> V" and "fset (fmdom (votes c')) \<subseteq> V"
  shows "\<not> (check_quorum c n \<and> check_rejection c n) \<and>
    (check_quorum c n \<and> check_quorum c' n \<longrightarrow> unat n div 3 < card (approvers c \<inter> approvers c')) \<and>
    (unat n - (unat n - 1) div 3 \<le> card (approvers c) \<and> 0 < unat n \<longrightarrow> check_quorum c n)"
proof (intro conjI impI notI)
  note th = thresholds [OF assms(1)]
  have sub: "approvers c \<subseteq> V" "rejecters c \<subseteq> V" "approvers c' \<subseteq> V"
    using voters_dom assms(4,5) by blast+
  show False if q: "check_quorum c n \<and> check_rejection c n"
  proof -
    have "card (approvers c \<union> rejecters c) = card (approvers c) + card (rejecters c)"
      using sub assms(2) voters_dom(3) by (intro card_Un_disjoint) (auto intro: finite_subset)
    moreover have "card (approvers c \<union> rejecters c) \<le> unat n"
      unfolding assms(3) [symmetric] using sub assms(2) by (intro card_mono) auto
    ultimately show False
      using q unfolding check_quorum_def check_rejection_def th approve_count_card reject_count_card by linarith
  qed
  show "unat n div 3 < card (approvers c \<inter> approvers c')" if "check_quorum c n \<and> check_quorum c' n"
    using that quorums_overlap [OF assms(2) sub(1,3)]
    by (simp add: check_quorum_def th approve_count_card assms(3) mult.commute)
  show "check_quorum c n" if "unat n - (unat n - 1) div 3 \<le> card (approvers c) \<and> 0 < unat n"
  proof -
    have "m * 2 div 3 + 1 \<le> m - (m - 1) div 3" if "0 < m" for m :: nat
    proof -
      have "3 * (m * 2 div 3) \<le> m * 2" "3 * ((m - 1) div 3) \<le> m - 1"
        by (rule times_div_less_eq_dividend)+
      with that show ?thesis
        by linarith
    qed
    from this [of "unat n"] that show ?thesis
      unfolding check_quorum_def th approve_count_card by linarith
  qed
qed

definition sample_vote :: "string \<Rightarrow> bool \<Rightarrow> vote" where
  "sample_vote v b = vote_new v ''cf'' b 0"

definition sample_frame :: "vote list \<Rightarrow> consensus_frame" where
  "sample_frame vs = fold (\<lambda>v c. add_vote c v) vs
     \<lparr>cf_id = ''cf'', cf_round = 1,
      cf_anchor = \<lparr>an_id = ''an'', event_ids = [], an_vlc = vlc_new 0, state_root = [], merkle_roots = None,
        previous_anchor = None, an_depth = 0, an_timestamp = 0\<rparr>,
      proposer = ''a'', cf_stat = Proposed, votes = fmempty, created_at = 0, finalized_at = None\<rparr>"

theorem quorum_thresholds_witness:
  "check_quorum (sample_frame (map (\<lambda>i. sample_vote i True) [''a'', ''b'', ''c''])) 4 \<and>
   check_quorum (sample_frame (map (\<lambda>i. sample_vote i True) [''b'', ''c'', ''d''])) 4 \<and>
   1 < card (approvers (sample_frame (map (\<lambda>i. sample_vote i True) [''a'', ''b'', ''c''])) \<inter>
             approvers (sample_frame (map (\<lambda>i. sample_vote i True) [''b'', ''c'', ''d''])))"
proof -
  define c where "c = sample_frame (map (\<lambda>i. sample_vote i True) [''a'', ''b'', ''c''])"
  define c' where "c' = sample_frame (map (\<lambda>i. sample_vote i True) [''b'', ''c'', ''d''])"
  have q: "check_quorum c 4" "check_quorum c' 4"
    unfolding c_def c'_def by code_simp+
  have "fset (fmdom (votes c)) \<subseteq> {''a'', ''b'', ''c'', ''d''}" "fset (fmdom (votes c')) \<subseteq> {''a'', ''b'', ''c'', ''d''}"
    by (auto simp: c_def c'_def sample_frame_def sample_vote_def add_vote_def vote_new_def)
  with quorum_thresholds [of 4 "{''a'', ''b'', ''c'', ''d''}" c c'] q show ?thesis
    unfolding c_def [symmetric] c'_def [symmetric] by simp
qed

section \<open>What a signature covers\<close>

text \<open>The message has no separators, but the ids of frames have a fixed length.\<close>

lemma signing_message_inj:
  assumes "signing_message v = signing_message w" "length (vt_cf_id v) = length (vt_cf_id w)"
  shows "vt_cf_id v = vt_cf_id w \<and> validator_id v = validator_id w \<and> approve v = approve w \<and>
    vt_timestamp v = vt_timestamp w"
proof -
  have m: "str_bytes (vt_cf_id v) @ str_bytes (validator_id v) @ ((if approve v then 1 else 0) # le_bytes 8 (vt_timestamp v))
      = str_bytes (vt_cf_id w) @ str_bytes (validator_id w) @ ((if approve w then 1 else 0) # le_bytes 8 (vt_timestamp w))"
    using assms(1) by (simp add: signing_message_def)
  then have "str_bytes (vt_cf_id v) = str_bytes (vt_cf_id w)"
    and r: "str_bytes (validator_id v) @ ((if approve v then 1 else 0) # le_bytes 8 (vt_timestamp v))
      = str_bytes (validator_id w) @ ((if approve w then 1 else 0) # le_bytes 8 (vt_timestamp w))"
    using assms(2) by (auto simp: append_eq_append_conv)
  moreover have "str_bytes (validator_id v) = str_bytes (validator_id w)"
    and "((if approve v then 1 else 0) :: u8) # le_bytes 8 (vt_timestamp v)
      = (if approve w then 1 else 0) # le_bytes 8 (vt_timestamp w)"
    using r append_eq_append_conv [of "str_bytes (validator_id v)" "str_bytes (validator_id w)"
        "(if approve v then 1 else 0) # le_bytes 8 (vt_timestamp v)"
        "(if approve w then 1 else 0) # le_bytes 8 (vt_timestamp w)"]
    by simp_all
  ultimately show ?thesis
    by (auto dest: le_bytes_inj split: if_splits)
qed

lemma vote_sign_verifies:
  assumes "length key = 32" "length (ed_public S key) = 32" "ed_point S (ed_public S key)"
    and "\<And>m. length (ed_sign S key m) = 64" "\<And>m. ed_verify S (ed_public S key) m (ed_sign S key m)"
  shows "vote_verify_signature S (fst (vote_sign S v key)) (ed_public S key)"
proof -
  have "ed_sign S key m \<noteq> []" for m
    using assms(4) [of m] by auto
  then show ?thesis
    using assms by (simp add: vote_sign_def vote_verify_signature_def signing_message_def)
qed

end
