(* ===== verification/Anchor_Builder.thy ===== *)
theory Anchor_Builder
  imports Overlay Consensus_Frames Event_Dag
begin

text \<open>
  From events to anchors: routing by subnet (\<^verbatim>\<open>consensus/src/router.rs\<close>), the Merkle
  root over the events (\<^verbatim>\<open>consensus/src/merkle_integration.rs\<close>) and the anchor builder with
  deferred commit (\<^verbatim>\<open>consensus/src/anchor_builder.rs\<close>).

  The builder selects pending events that write pairwise different keys, computes the state root on a
  clone of the state and hands out a pending build; a finalized frame is committed from the pending
  build by its proposer and from the events of the frame by everyone else. A panic of the state
  manager is the result \<open>None\<close>, an error is \<open>Inl\<close>, and state that was changed before an error is
  returned with it. The write lock is left out, the clocks are arguments, and the sink that observes
  outcomes is the list of the calls it received. Diagnostics that only log are left out.

  The lemmas of this theory are about the selection of events: it splits the events, keeps at
  least one, keeps pairwise disjoint writes and so drains every finite set of events.
\<close>

section \<open>Routing\<close>

record routed_events =
  root_events :: "event list"
  system_events :: "(subnet_id, event list) fmap"
  app_events :: "(subnet_id, event list) fmap"
  unrouted_events :: "event list"

definition routed_new :: routed_events where
  "routed_new = \<lparr>root_events = [], system_events = fmempty, app_events = fmempty, unrouted_events = []\<rparr>"

definition push_entry :: "subnet_id \<Rightarrow> event \<Rightarrow> (subnet_id, event list) fmap \<Rightarrow> (subnet_id, event list) fmap" where
  "push_entry i e m = fmupd i ((case fmlookup m i of None \<Rightarrow> [] | Some es \<Rightarrow> es) @ [e]) m"

definition route_one :: "event \<Rightarrow> routed_events \<Rightarrow> routed_events" where
  "route_one e r =
     (if ev_subnet e = None then r\<lparr>unrouted_events := unrouted_events r @ [e]\<rparr>
      else let i = get_subnet_id e
           in if is_validator_executed (event_type e) \<or> i = SubnetId_ROOT
              then r\<lparr>root_events := root_events r @ [e]\<rparr>
              else if is_system i \<and> i \<noteq> SubnetId_ROOT
              then r\<lparr>system_events := push_entry i e (system_events r)\<rparr>
              else if is_app i
              then r\<lparr>app_events := push_entry i e (app_events r)\<rparr>
              else r\<lparr>unrouted_events := unrouted_events r @ [e]\<rparr>)"

definition route_events :: "event list \<Rightarrow> routed_events" where
  "route_events es = fold route_one es routed_new"

record subnet_execution_batch =
  eb_subnet_id :: subnet_id
  eb_events :: "event list"
  validator_executed :: bool
  requires_tee :: bool

definition execution_batch_new :: "subnet_id \<Rightarrow> event list \<Rightarrow> subnet_execution_batch" where
  "execution_batch_new i es =
     \<lparr>eb_subnet_id = i, eb_events = es, validator_executed = is_system i, requires_tee = is_app i\<rparr>"

definition create_execution_batches :: "routed_events \<Rightarrow> subnet_execution_batch list" where
  "create_execution_batches r =
     (if root_events r = [] then [] else [execution_batch_new SubnetId_ROOT (root_events r)])
     @ map (\<lambda>(i, es). execution_batch_new i es) (entries (app_events r))"

section \<open>The root over the events\<close>

definition compute_events_root :: "ext \<Rightarrow> event list \<Rightarrow> hash_value" where
  "compute_events_root E es =
     (if es = [] then 0
      else bm_root (bm_build E (map (str_bytes \<circ> ev_id) (sort_key vlc_order es))))"

section \<open>Selection of events\<close>

type_synonym write_key = "subnet_id \<times> hash_value"

definition collect_event_write_keys :: "ext \<Rightarrow> event \<Rightarrow> write_key fset" where
  "collect_event_write_keys E e =
     (case ev_result e of
        None \<Rightarrow> {||}
      | Some r \<Rightarrow>
          if \<not> er_success r then {||}
          else fset_of_list (map (\<lambda>c. (change_target (get_subnet_id e) c, parse_state_change_key E (esc_key c)))
                 (er_state_changes r)))"

fun fold_policy_loop ::
  "ext \<Rightarrow> event list \<Rightarrow> write_key fset \<Rightarrow> event list \<Rightarrow> event list \<Rightarrow> event list \<times> event list" where
  "fold_policy_loop E [] claimed kept deferred = (kept, deferred)"
| "fold_policy_loop E (e # es) claimed kept deferred =
     (let ks = collect_event_write_keys E e
      in if ks |\<inter>| claimed \<noteq> {||} then fold_policy_loop E es claimed kept (deferred @ [e])
         else fold_policy_loop E es (claimed |\<union>| ks) (kept @ [e]) deferred)"

definition apply_strict_same_key_fold_policy :: "ext \<Rightarrow> event list \<Rightarrow> event list \<times> event list" where
  "apply_strict_same_key_fold_policy E es = fold_policy_loop E (sort_key vlc_order es) {||} [] []"

text \<open>The events of the next frame; the others wait.\<close>

definition selected :: "ext \<Rightarrow> nat \<Rightarrow> event list \<Rightarrow> event list" where
  "selected E cap es = take cap (fst (apply_strict_same_key_fold_policy E es))"

section \<open>The builder\<close>

record state_change_entry =
  sce_event_id :: event_id
  sce_subnet_id :: subnet_id
  sce_changes :: "event_state_change list"

record builder_state_snapshot =
  bs_last_anchor_id :: "string option"
  bs_anchor_depth :: u64
  bs_last_fold_vlc :: u64
  bs_last_anchor_chain_root :: hash_value
  bs_total_anchor_count :: u64

record pending_anchor_build =
  pb_anchor :: anchor
  routed :: routed_events
  pending_state_changes :: "(subnet_id, state_change_entry list) fmap"
  pre_build_snapshot :: builder_state_snapshot
  pb_events_root :: hash_value
  new_anchor_chain_root :: hash_value
  new_anchor_depth :: u64
  new_last_fold_vlc :: u64

definition all_events :: "pending_anchor_build \<Rightarrow> event list" where
  "all_events p =
     root_events (routed p) @ concat (map snd (entries (system_events (routed p))))
     @ concat (map snd (entries (app_events (routed p)))) @ unrouted_events (routed p)"

datatype anchor_build_error =
    InsufficientEvents nat nat
  | DeltaNotReached u64 u64
  | AB_StateApplyError state_apply_error
  | AB_MerkleError merkle_error
  | NoEvents
  | SnapshotMismatch u64 u64
  | MissingEvents nat nat
  | RootMismatch hash_value hash_value

datatype execution_outcome =
    Applied string
  | ExecutionFailed string "string option"
  | StaleRead string string string

record 's anchor_builder =
  ab_config :: consensus_config
  ab_shared :: "'s shared_state"
  last_anchor :: "anchor option"
  anchor_depth :: u64
  last_fold_vlc :: u64
  last_anchor_chain_root :: hash_value
  total_anchor_count :: u64
  last_fold_instant :: "u64 option"
  outcomes_sink :: "(event_id \<times> execution_outcome) list option"

definition with_shared_state_manager :: "consensus_config \<Rightarrow> 's shared_state \<Rightarrow> 's anchor_builder" where
  "with_shared_state_manager c sh =
     \<lparr>ab_config = c, ab_shared = sh, last_anchor = None, anchor_depth = 0, last_fold_vlc = 0,
      last_anchor_chain_root = 0, total_anchor_count = 0, last_fold_instant = None, outcomes_sink = None\<rparr>"

definition builder_new :: "ext \<Rightarrow> consensus_config \<Rightarrow> 's anchor_builder" where
  "builder_new E c = with_shared_state_manager c (shared_new (gsm_new E))"

definition should_fold :: "'s anchor_builder \<Rightarrow> vlc \<Rightarrow> bool" where
  "should_fold b v \<longleftrightarrow>
     vlc_delta_threshold (ab_config b) \<le> saturating_sub (logical_time (snapshot v)) (last_fold_vlc b)"

definition set_outcomes_sink :: "'s anchor_builder \<Rightarrow> 's anchor_builder" where
  "set_outcomes_sink b = b\<lparr>outcomes_sink := Some []\<rparr>"

definition outcome_of :: "string \<Rightarrow> state_apply_summary \<Rightarrow> event \<Rightarrow> execution_outcome" where
  "outcome_of cf m e =
     (if is_genesis e then Applied cf
      else case map_of (rev (conflicted_events m)) (ev_id e) of
             Some obj \<Rightarrow> StaleRead cf obj (''object '' @ obj @ '' was concurrently modified; re-read and retry'')
           | None \<Rightarrow>
               if ev_id e \<in> set (failed_events m)
               then ExecutionFailed cf (case ev_result e of None \<Rightarrow> None | Some r \<Rightarrow> er_message r)
               else Applied cf)"

definition ingest_outcomes :: "'s anchor_builder \<Rightarrow> string \<Rightarrow> event list \<Rightarrow> state_apply_summary \<Rightarrow> 's anchor_builder" where
  "ingest_outcomes b cf es m =
     (case outcomes_sink b of
        None \<Rightarrow> b
      | Some log \<Rightarrow> b\<lparr>outcomes_sink := Some (log @ map (\<lambda>e. (ev_id e, outcome_of cf m e)) es)\<rparr>)"

definition restore_state :: "'s anchor_builder \<Rightarrow> hash_value \<Rightarrow> u64 \<Rightarrow> u64 \<Rightarrow> u64 \<Rightarrow> 's anchor_builder" where
  "restore_state b root d n v =
     b\<lparr>last_anchor_chain_root := root, anchor_depth := d, total_anchor_count := n, last_fold_vlc := v\<rparr>"

definition take_snapshot :: "'s anchor_builder \<Rightarrow> builder_state_snapshot" where
  "take_snapshot b =
     \<lparr>bs_last_anchor_id = map_option an_id (last_anchor b), bs_anchor_depth = anchor_depth b,
      bs_last_fold_vlc = last_fold_vlc b, bs_last_anchor_chain_root = last_anchor_chain_root b,
      bs_total_anchor_count = total_anchor_count b\<rparr>"

definition verify_snapshot :: "'s anchor_builder \<Rightarrow> builder_state_snapshot \<Rightarrow> bool" where
  "verify_snapshot b s \<longleftrightarrow>
     anchor_depth b = bs_anchor_depth s \<and> last_fold_vlc b = bs_last_fold_vlc s
       \<and> last_anchor_chain_root b = bs_last_anchor_chain_root s
       \<and> map_option an_id (last_anchor b) = bs_last_anchor_id s"

definition chain_hash :: "ext \<Rightarrow> hash_value \<Rightarrow> hash_value \<Rightarrow> hash_value" where
  "chain_hash E prev h = blake3 E (str_bytes ''SETU_ANCHOR_CHAIN:'' @ as_bytes prev @ as_bytes h)"

definition push_change ::
  "event \<Rightarrow> (subnet_id, state_change_entry list) fmap \<Rightarrow> (subnet_id, state_change_entry list) fmap" where
  "push_change e m =
     (let i = get_subnet_id e
      in case ev_result e of
           None \<Rightarrow> m
         | Some r \<Rightarrow>
             if er_success r \<and> er_state_changes r \<noteq> []
             then fmupd i ((case fmlookup m i of None \<Rightarrow> [] | Some xs \<Rightarrow> xs)
                    @ [\<lparr>sce_event_id = ev_id e, sce_subnet_id = i, sce_changes = er_state_changes r\<rparr>]) m
             else m)"

definition collect_state_changes :: "event list \<Rightarrow> (subnet_id, state_change_entry list) fmap" where
  "collect_state_changes es = fold push_change es fmempty"

definition compute_state_root_from_events ::
  "ext \<Rightarrow> (bytes \<Rightarrow> object_envelope option) \<Rightarrow> 's anchor_builder \<Rightarrow> event list
   \<Rightarrow> (hash_value \<times> (subnet_id, hash_value) fmap) option" where
  "compute_state_root_from_events E de b es =
     (case apply_committed_events E de (gsm_clone (write_gsm (ab_shared b))) es 0 of
        None \<Rightarrow> None
      | Some (g, _, _) \<Rightarrow> Some (compute_global_root E g))"

definition prepare_build_internal ::
  "ext \<Rightarrow> (bytes \<Rightarrow> object_envelope option) \<Rightarrow> 's anchor_builder \<Rightarrow> event list \<Rightarrow> vlc \<Rightarrow> u64 \<Rightarrow> u64
   \<Rightarrow> (anchor_build_error + pending_anchor_build) option" where
  "prepare_build_internal E de b es v to_depth now =
     (case compute_state_root_from_events E de b es of
        None \<Rightarrow> None
      | Some (root, roots) \<Rightarrow>
          (let er = compute_events_root E es;
               mr = \<lparr>events_root = er, global_state_root = root,
                     anchor_chain_root = last_anchor_chain_root b, subnet_roots = roots\<rparr>;
               a = with_merkle_roots E (map ev_id es) (snapshot v) mr (map_option an_id (last_anchor b)) to_depth now
           in Some (Inr \<lparr>pb_anchor = a, routed = route_events es,
                pending_state_changes = collect_state_changes es, pre_build_snapshot = take_snapshot b,
                pb_events_root = er,
                new_anchor_chain_root = chain_hash E (last_anchor_chain_root b) (anchor_compute_hash E a),
                new_anchor_depth = to_depth + 1, new_last_fold_vlc = logical_time (snapshot v)\<rparr>)))"

text \<open>What \<open>prepare_build\<close> and \<open>prepare_build_heartbeat\<close> share: selection, capacity and minimum.\<close>

definition select_and_build ::
  "ext \<Rightarrow> (bytes \<Rightarrow> object_envelope option) \<Rightarrow> 's anchor_builder \<Rightarrow> dag \<Rightarrow> vlc \<Rightarrow> event_id fset \<Rightarrow> u64
   \<Rightarrow> (anchor_build_error + pending_anchor_build) option" where
  "select_and_build E de b d v in_flight now =
     (let kept = selected E (max_events_per_cf (ab_config b))
                   (filter (\<lambda>e. ev_id e |\<notin>| in_flight) (get_pending_events d))
      in if length kept < min_events_per_cf (ab_config b)
         then Some (Inl (InsufficientEvents (min_events_per_cf (ab_config b)) (length kept)))
         else if kept = [] then Some (Inl NoEvents)
         else prepare_build_internal E de b kept v (max_depth d) now)"

definition prepare_build ::
  "ext \<Rightarrow> (bytes \<Rightarrow> object_envelope option) \<Rightarrow> 's anchor_builder \<Rightarrow> dag \<Rightarrow> vlc \<Rightarrow> event_id fset \<Rightarrow> u64
   \<Rightarrow> (anchor_build_error + pending_anchor_build) option" where
  "prepare_build E de b d v in_flight now =
     (let delta = saturating_sub (logical_time (snapshot v)) (last_fold_vlc b)
      in if delta < vlc_delta_threshold (ab_config b)
         then Some (Inl (DeltaNotReached (vlc_delta_threshold (ab_config b)) delta))
         else select_and_build E de b d v in_flight now)"

definition force_prepare_build ::
  "ext \<Rightarrow> (bytes \<Rightarrow> object_envelope option) \<Rightarrow> 's anchor_builder \<Rightarrow> event list \<Rightarrow> vlc \<Rightarrow> u64 \<Rightarrow> u64
   \<Rightarrow> (anchor_build_error + pending_anchor_build) option" where
  "force_prepare_build E de b es v depth now =
     (if es = [] then Some (Inl NoEvents)
      else prepare_build_internal E de b (take (max_events_per_cf (ab_config b)) es) v depth now)"

definition elapsed_since_last_fold :: "'s anchor_builder \<Rightarrow> u64 \<Rightarrow> u64" where
  "elapsed_since_last_fold b instant =
     (case last_fold_instant b of None \<Rightarrow> - 1 | Some t \<Rightarrow> saturating_sub instant t)"

definition prepare_build_heartbeat ::
  "ext \<Rightarrow> (bytes \<Rightarrow> object_envelope option) \<Rightarrow> 's anchor_builder \<Rightarrow> dag \<Rightarrow> vlc \<Rightarrow> u64 \<Rightarrow> event_id fset \<Rightarrow> u64 \<Rightarrow> u64
   \<Rightarrow> (anchor_build_error + pending_anchor_build) option" where
  "prepare_build_heartbeat E de b d v interval in_flight instant now =
     (if elapsed_since_last_fold b instant < interval
      then Some (Inl (DeltaNotReached (vlc_delta_threshold (ab_config b))
             (saturating_sub (logical_time (snapshot v)) (last_fold_vlc b))))
      else select_and_build E de b d v in_flight now)"

section \<open>Commit\<close>

definition clear_overlay_for :: "'s anchor_builder \<Rightarrow> event_id list \<Rightarrow> 's anchor_builder" where
  "clear_overlay_for b ids = b\<lparr>ab_shared := fst (clear_overlay_events (ab_shared b) ids)\<rparr>"

text \<open>The critical section of both commit paths: apply, persist, publish.\<close>

definition apply_and_publish ::
  "ext \<Rightarrow> (bytes \<Rightarrow> object_envelope option) \<Rightarrow> ('s, 'b) b4_store \<Rightarrow> 's shared_state \<Rightarrow> event list \<Rightarrow> u64 \<Rightarrow> u64
   \<Rightarrow> ('s shared_state \<times> (anchor_build_error + state_apply_summary)) option" where
  "apply_and_publish E de ops sh es d a =
     (case apply_committed_events E de (write_gsm sh) es d of
        None \<Rightarrow> None
      | Some (g1, m, _) \<Rightarrow>
          (case gsm_commit E ops g1 a of
             (g2, Inl e) \<Rightarrow> Some (sh\<lparr>write_gsm := g2\<rparr>, Inl (AB_MerkleError e))
           | (g2, Inr _) \<Rightarrow> Some (publish_snapshot (sh\<lparr>write_gsm := g2\<rparr>) g2, Inr m)))"

definition commit_build ::
  "ext \<Rightarrow> (bytes \<Rightarrow> object_envelope option) \<Rightarrow> ('s, 'b) b4_store \<Rightarrow> 's anchor_builder \<Rightarrow> pending_anchor_build \<Rightarrow> u64
   \<Rightarrow> ('s anchor_builder \<times> (anchor_build_error + state_apply_summary)) option" where
  "commit_build E de ops b p instant =
     (let es = all_events p; ids = map ev_id es
      in if \<not> verify_snapshot b (pre_build_snapshot p)
         then Some (clear_overlay_for b ids,
                Inl (SnapshotMismatch (bs_anchor_depth (pre_build_snapshot p)) (anchor_depth b)))
         else case apply_and_publish E de ops (ab_shared b) es (new_anchor_depth p) (anchor_depth b + 1) of
                None \<Rightarrow> None
              | Some (sh, Inl e) \<Rightarrow> Some (clear_overlay_for (b\<lparr>ab_shared := sh\<rparr>) ids, Inl e)
              | Some (sh, Inr m) \<Rightarrow>
                  Some ((clear_overlay_for (ingest_outcomes (b\<lparr>ab_shared := sh\<rparr>) (an_id (pb_anchor p)) es m) ids)
                          \<lparr>last_anchor := Some (pb_anchor p), anchor_depth := new_anchor_depth p,
                           last_fold_vlc := new_last_fold_vlc p, last_anchor_chain_root := new_anchor_chain_root p,
                           total_anchor_count := total_anchor_count b + 1, last_fold_instant := Some instant\<rparr>,
                        Inr m))"

definition synchronize_finalized_anchor :: "ext \<Rightarrow> 's anchor_builder \<Rightarrow> anchor \<Rightarrow> u64 \<Rightarrow> 's anchor_builder" where
  "synchronize_finalized_anchor E b a instant =
     (case merkle_roots a of
        None \<Rightarrow> b
      | Some r \<Rightarrow> b\<lparr>last_anchor_chain_root := chain_hash E (anchor_chain_root r) (anchor_compute_hash E a)\<rparr>)
     \<lparr>last_anchor := Some a, anchor_depth := an_depth a + 1, last_fold_vlc := logical_time (an_vlc a),
      total_anchor_count := total_anchor_count b + 1, last_fold_instant := Some instant\<rparr>"

definition root_mismatch ::
  "ext \<Rightarrow> (bytes \<Rightarrow> object_envelope option) \<Rightarrow> 's gsm \<Rightarrow> event list \<Rightarrow> anchor \<Rightarrow> anchor_build_error option option" where
  "root_mismatch E de g es a =
     (case merkle_roots a of
        None \<Rightarrow> Some None
      | Some r \<Rightarrow>
          (case apply_committed_events E de (gsm_clone g) es (an_depth a + 1) of
             None \<Rightarrow> None
           | Some (g1, _, _) \<Rightarrow>
               (let expected = fst (compute_global_root E g1)
                in Some (if expected \<noteq> global_state_root r
                         then Some (RootMismatch expected (global_state_root r)) else None))))"

definition apply_follower_finalized_cf ::
  "ext \<Rightarrow> (bytes \<Rightarrow> object_envelope option) \<Rightarrow> ('s, 'b) b4_store \<Rightarrow> 's anchor_builder \<Rightarrow> event list
   \<Rightarrow> consensus_frame \<Rightarrow> u64 \<Rightarrow> ('s anchor_builder \<times> (anchor_build_error + state_apply_summary)) option" where
  "apply_follower_finalized_cf E de ops b es c instant =
     (let a = cf_anchor c; ids = map ev_id es
      in if length es \<noteq> length (event_ids a)
         then Some (clear_overlay_for b (event_ids a), Inl (MissingEvents (length (event_ids a)) (length es)))
         else case root_mismatch E de (write_gsm (ab_shared b)) es a of
                None \<Rightarrow> None
              | Some (Some err) \<Rightarrow> Some (clear_overlay_for b ids, Inl err)
              | Some None \<Rightarrow>
                  (case apply_and_publish E de ops (ab_shared b) es (an_depth a + 1) (anchor_depth b + 1) of
                     None \<Rightarrow> None
                   | Some (sh, Inl e) \<Rightarrow> Some (clear_overlay_for (b\<lparr>ab_shared := sh\<rparr>) ids, Inl e)
                   | Some (sh, Inr m) \<Rightarrow>
                       Some (synchronize_finalized_anchor E
                               (clear_overlay_for (ingest_outcomes (b\<lparr>ab_shared := sh\<rparr>) (an_id a) es m) ids) a instant,
                             Inr m)))"

text \<open>The events of a frame as a validator finds them in its own DAG.\<close>

definition frame_events :: "dag \<Rightarrow> anchor \<Rightarrow> event list" where
  "frame_events d a = List.map_filter (get_event d) (event_ids a)"

section \<open>What the selection keeps\<close>

fun keeps :: "ext \<Rightarrow> write_key fset \<Rightarrow> event list \<Rightarrow> event list" where
  "keeps E claimed [] = []"
| "keeps E claimed (e # es) =
     (if collect_event_write_keys E e |\<inter>| claimed \<noteq> {||} then keeps E claimed es
      else e # keeps E (claimed |\<union>| collect_event_write_keys E e) es)"

fun defers :: "ext \<Rightarrow> write_key fset \<Rightarrow> event list \<Rightarrow> event list" where
  "defers E claimed [] = []"
| "defers E claimed (e # es) =
     (if collect_event_write_keys E e |\<inter>| claimed \<noteq> {||} then e # defers E claimed es
      else defers E (claimed |\<union>| collect_event_write_keys E e) es)"

lemma fold_policy_loop_eq:
  "fold_policy_loop E es claimed kept deferred = (kept @ keeps E claimed es, deferred @ defers E claimed es)"
  by (induction es arbitrary: claimed kept deferred) (simp_all add: Let_def)

lemma fold_policy_eq:
  "apply_strict_same_key_fold_policy E es = (keeps E {||} (sort_key vlc_order es), defers E {||} (sort_key vlc_order es))"
  by (simp add: apply_strict_same_key_fold_policy_def fold_policy_loop_eq)

lemma keeps_defers_mset: "mset (keeps E claimed es) + mset (defers E claimed es) = mset es"
  by (induction es arbitrary: claimed) auto

lemma keeps_sub: "set (keeps E claimed es) \<subseteq> set es"
  by (induction es arbitrary: claimed) auto

lemma distinct_keeps: "distinct es \<Longrightarrow> distinct (keeps E claimed es)"
  using keeps_sub by (induction es arbitrary: claimed) (auto, blast)

definition disjoint_writes :: "ext \<Rightarrow> event list \<Rightarrow> bool" where
  "disjoint_writes E es \<longleftrightarrow>
     sorted_wrt (\<lambda>e e'. collect_event_write_keys E e |\<inter>| collect_event_write_keys E e' = {||}) es"

lemma keeps_unclaimed: "e \<in> set (keeps E claimed es) \<Longrightarrow> collect_event_write_keys E e |\<inter>| claimed = {||}"
  by (induction es arbitrary: claimed) (auto split: if_splits)

lemma keeps_disjoint: "disjoint_writes E (keeps E claimed es)"
proof (induction es arbitrary: claimed)
  case (Cons e es)
  then show ?case
    using keeps_unclaimed [of _ E "claimed |\<union>| collect_event_write_keys E e" es]
    by (auto simp: disjoint_writes_def inf_commute)
qed (simp add: disjoint_writes_def)

lemma take_disjoint: "disjoint_writes E es \<Longrightarrow> disjoint_writes E (take n es)"
  by (simp add: disjoint_writes_def sorted_wrt_take)

text \<open>The frames that a set of pending events is folded into.\<close>

lemma selected_ne: "es \<noteq> [] \<Longrightarrow> 0 < cap \<Longrightarrow> selected E cap es \<noteq> []"
proof -
  assume "es \<noteq> []" "0 < cap"
  then obtain e es' where "sort_key vlc_order es = e # es'"
    by (metis length_0_conv length_sort neq_Nil_conv)
  with \<open>0 < cap\<close> show ?thesis
    by (simp add: selected_def fold_policy_eq)
qed

lemma selected_sub: "set (selected E cap es) \<subseteq> set es"
  using keeps_sub [of E "{||}" "sort_key vlc_order es"] set_take_subset
  by (fastforce simp: selected_def fold_policy_eq)

text \<open>
  The selection alone, repeated. The guards of a build that only put it off (a minimum number of
  events, an open build, the minimal advance of the clock) are in \<open>select_and_build\<close>,
  \<open>prepare_build\<close> and the consensus manager.
\<close>

function frames :: "ext \<Rightarrow> nat \<Rightarrow> event list \<Rightarrow> event list list" where
  "frames E cap es =
     (let b = selected E cap es
      in if b = [] then [] else b # frames E cap (filter (\<lambda>e. e \<notin> set b) es))"
  by pat_completeness auto
termination
proof (relation "measure (\<lambda>(E, cap, es). length es)")
  fix E cap es b
  assume "b = selected E cap es" "b \<noteq> []"
  then obtain e where "e \<in> set b" "e \<in> set es"
    using selected_sub by (metis last_in_set subsetD)
  then show "((E, cap, filter (\<lambda>e. e \<notin> set b) es), E, cap, es) \<in> measure (\<lambda>(E, cap, es). length es)"
    by (auto intro: length_filter_less)
qed simp

declare frames.simps [simp del]

lemma frames_rounds: "length (frames E cap es) \<le> length es"
proof (induction E cap es rule: frames.induct)
  case (1 E cap es)
  show ?case
  proof (cases "selected E cap es = []")
    case False
    then obtain e where "e \<in> set (selected E cap es)" "e \<in> set es"
      using selected_sub by (metis last_in_set subsetD)
    then have "length (filter (\<lambda>e. e \<notin> set (selected E cap es)) es) < length es"
      by (auto intro: length_filter_less)
    with 1 [OF refl False] False show ?thesis
      by (simp add: frames.simps [of E cap es] Let_def)
  qed (simp add: frames.simps [of E cap es] Let_def)
qed

lemma frames_good: "b \<in> set (frames E cap es) \<Longrightarrow> b \<noteq> [] \<and> length b \<le> cap \<and> disjoint_writes E b"
proof (induction E cap es rule: frames.induct)
  case (1 E cap es)
  have "length (selected E cap es) \<le> cap" "disjoint_writes E (selected E cap es)"
    by (simp_all add: selected_def fold_policy_eq take_disjoint keeps_disjoint)
  with 1 show ?case
    by (auto simp: frames.simps [of E cap es] Let_def split: if_splits)
qed

lemma frames_mset: "distinct es \<Longrightarrow> 0 < cap \<Longrightarrow> mset (concat (frames E cap es)) = mset es"
proof (induction E cap es rule: frames.induct)
  case (1 E cap es)
  let ?b = "selected E cap es"
  show ?case
  proof (cases "es = []")
    case True
    then show ?thesis
      using frames_rounds [of E cap es] by simp
  next
    case False
    note b = selected_ne [OF False 1(3), of E]
    have "distinct ?b"
      using distinct_keeps [of "sort_key vlc_order es" E] 1(2) by (simp add: selected_def fold_policy_eq)
    then have "mset ?b = mset (filter (\<lambda>e. e \<in> set ?b) es)"
      using 1(2) selected_sub [of E cap es] by (subst set_eq_iff_mset_eq_distinct [symmetric]) auto
    then have "mset ?b + mset (filter (\<lambda>e. e \<notin> set ?b) es) = mset es"
      by (simp add: multiset_partition [of "mset es" "\<lambda>e. e \<in> set ?b", symmetric])
    moreover have "mset (concat (frames E cap (filter (\<lambda>e. e \<notin> set ?b) es))) = mset (filter (\<lambda>e. e \<notin> set ?b) es)"
      using 1(1) [OF refl b] 1(2,3) by simp
    ultimately show ?thesis
      using b by (simp add: frames.simps [of E cap es] Let_def)
  qed
qed

text \<open>
  C14: folding makes progress until nothing is left. Repeating the selection of the builder with a positive
  capacity, and taking the selected events out, ends after at most as many frames as there are events; every event is
  in exactly one frame, and no frame is empty, exceeds the capacity or has two events that write
  the same key of the same subnet.
\<close>

theorem folding_terminates:
  assumes "distinct es" and "0 < cap"
  shows "length (frames E cap es) \<le> length es \<and> mset (concat (frames E cap es)) = mset es \<and>
    list_all (\<lambda>b. b \<noteq> [] \<and> length b \<le> cap \<and> disjoint_writes E b) (frames E cap es)"
  using frames_rounds frames_mset [OF assms] frames_good by (fastforce simp: list_all_iff)

definition fold_event :: "event_id \<Rightarrow> string \<Rightarrow> event" where
  "fold_event i key = \<lparr>ev_id = i, event_type = TransferEvent, parent_ids = [], ev_subnet = None, ev_vlc = vlc_new 0,
     creator = ''v'', status = Executed,
     ev_result = Some (with_changes er_succeeded [StateChange_insert key [1]]), ev_timestamp = 0\<rparr>"

theorem folding_terminates_witness:
  "length (frames sample_ext 1 [fold_event ''a'' ''user:a'', fold_event ''b'' ''user:a'']) \<le> 2 \<and>
   mset (concat (frames sample_ext 1 [fold_event ''a'' ''user:a'', fold_event ''b'' ''user:a'']))
     = {#fold_event ''a'' ''user:a'', fold_event ''b'' ''user:a''#}"
  using folding_terminates [of "[fold_event ''a'' ''user:a'', fold_event ''b'' ''user:a'']" 1 sample_ext]
  by (simp add: fold_event_def)

end
