(* ===== verification/Ledger.thy ===== *)
theory Ledger
  imports Global_State
begin

text \<open>
  What the global state manager promises: a ledger is one finite map of leaves per subnet; an event
  is a list of writes with the values it has read, applied as a whole or not at all.

  The lemmas show that \<open>apply_committed_events\<close> does to the trees and counters of the manager what
  the ledger does to its maps, that it never panics, that every root is the root of the tree rebuilt
  from the leaves, and that balanced events conserve the supply. The hash function is only assumed
  not to collide on the nodes of the trees that the events pass through.
\<close>

section \<open>The abstract ledger\<close>

type_synonym ledger = "subnet_id \<Rightarrow> (hash_value, bytes) fmap"

type_synonym ledger_write = "subnet_id \<times> hash_value \<times> bytes option \<times> bytes option"

definition lput :: "ledger \<Rightarrow> subnet_id \<Rightarrow> hash_value \<Rightarrow> bytes option \<Rightarrow> ledger" where
  "lput L i k w = L(i := (case w of Some v \<Rightarrow> fmupd k v (L i) | None \<Rightarrow> fmdrop k (L i)))"

fun run_writes :: "ledger \<Rightarrow> ledger_write list \<Rightarrow> ledger" where
  "run_writes L [] = L"
| "run_writes L ((i, k, old, new) # ws) = run_writes (lput L i k new) ws"

text \<open>
  A write that has read a value finds it; a write that creates a key finds it absent, both now and
  before the event.
\<close>

fun admissible :: "ledger \<Rightarrow> ledger \<Rightarrow> ledger_write list \<Rightarrow> bool" where
  "admissible L0 L [] = True"
| "admissible L0 L ((i, k, old, new) # ws) =
     ((case old of
         Some v \<Rightarrow> fmlookup (L i) k = Some v
       | None \<Rightarrow> new \<noteq> None \<longrightarrow> fmlookup (L i) k = None \<and> fmlookup (L0 i) k = None)
      \<and> admissible L0 (lput L i k new) ws)"

definition write_of :: "ext \<Rightarrow> subnet_id \<Rightarrow> event_state_change \<Rightarrow> ledger_write" where
  "write_of E i c =
     (change_target i c, parse_state_change_key E (esc_key c), esc_old_value c, esc_new_value c)"

definition event_writes :: "ext \<Rightarrow> event \<Rightarrow> ledger_write list" where
  "event_writes E e =
     (case ev_result e of
        None \<Rightarrow> []
      | Some r \<Rightarrow> if er_success r then map (write_of E (get_subnet_id e)) (er_state_changes r) else [])"

definition ledger_event :: "ext \<Rightarrow> event \<Rightarrow> ledger \<Rightarrow> ledger" where
  "ledger_event E e L =
     (if admissible L L (event_writes E e) then run_writes L (event_writes E e) else L)"

fun ledger_events :: "ext \<Rightarrow> event list \<Rightarrow> ledger \<Rightarrow> ledger" where
  "ledger_events E [] L = L"
| "ledger_events E (e # es) L = ledger_events E es (ledger_event E e L)"

definition ledger_batch :: "ext \<Rightarrow> event list \<Rightarrow> ledger \<Rightarrow> ledger" where
  "ledger_batch E es L = ledger_events E (sort_key vlc_order es) L"

text \<open>The leaf maps that a run passes through.\<close>

fun write_trace :: "ledger \<Rightarrow> ledger_write list \<Rightarrow> (hash_value, bytes) fmap list" where
  "write_trace L [] = []"
| "write_trace L ((i, k, old, new) # ws) = lput L i k new i # write_trace (lput L i k new) ws"

definition event_trace :: "ext \<Rightarrow> event \<Rightarrow> ledger \<Rightarrow> (hash_value, bytes) fmap list" where
  "event_trace E e L =
     (if admissible L L (event_writes E e) then write_trace L (event_writes E e) else [])"

fun events_trace :: "ext \<Rightarrow> event list \<Rightarrow> ledger \<Rightarrow> (hash_value, bytes) fmap list" where
  "events_trace E [] L = []"
| "events_trace E (e # es) L = event_trace E e L @ events_trace E es (ledger_event E e L)"

fun batches_trace :: "ext \<Rightarrow> (event list \<times> u64) list \<Rightarrow> ledger \<Rightarrow> (hash_value, bytes) fmap list" where
  "batches_trace E [] L = []"
| "batches_trace E ((es, d) # bs) L =
     events_trace E (sort_key vlc_order es) L @ batches_trace E bs (ledger_batch E es L)"

fun ledger_run :: "ext \<Rightarrow> (event list \<times> u64) list \<Rightarrow> ledger \<Rightarrow> ledger" where
  "ledger_run E [] L = L"
| "ledger_run E ((es, d) # bs) L = ledger_run E bs (ledger_batch E es L)"

text \<open>The manager applies finalized batches one after the other.\<close>

fun gsm_run ::
  "ext \<Rightarrow> (bytes \<Rightarrow> object_envelope option) \<Rightarrow> (event list \<times> u64) list \<Rightarrow> 's gsm \<Rightarrow> 's gsm option" where
  "gsm_run E de [] g = Some g"
| "gsm_run E de ((es, d) # bs) g =
     (case apply_committed_events E de g es d of
        None \<Rightarrow> None
      | Some (g1, _, _) \<Rightarrow> gsm_run E de bs g1)"

section \<open>The invariant of the manager\<close>

definition sleaves :: "(subnet_id, subnet_state_smt) fmap \<Rightarrow> ledger" where
  "sleaves m i = (case fmlookup m i of None \<Rightarrow> fmempty | Some s \<Rightarrow> leaves (ss_tree s))"

abbreviation gleaves :: "'s gsm \<Rightarrow> ledger" where
  "gleaves g \<equiv> sleaves (subnet_states g)"

definition subnet_ok :: "ext \<Rightarrow> stree set \<Rightarrow> subnet_id \<Rightarrow> subnet_state_smt \<Rightarrow> bool" where
  "subnet_ok E T i s \<longleftrightarrow> ss_subnet_id s = i \<and> inc_ok E T (ss_tree s)
     \<and> fmlen (leaves (ss_tree s)) < 2 ^ 64 \<and> unat (object_count s) = fmlen (leaves (ss_tree s))"

definition states_ok :: "ext \<Rightarrow> stree set \<Rightarrow> (subnet_id, subnet_state_smt) fmap \<Rightarrow> bool" where
  "states_ok E T m \<longleftrightarrow> (\<forall>i s. fmlookup m i = Some s \<longrightarrow> subnet_ok E T i s)"

text \<open>A leaf map whose nodes are in the universe and whose size fits the counter.\<close>

definition fits :: "ext \<Rightarrow> stree set \<Rightarrow> (hash_value, bytes) fmap \<Rightarrow> bool" where
  "fits E T m \<longleftrightarrow> tree_of E m \<in> T \<and> fmlen m < 2 ^ 64"

lemma sleaves_upd [simp]: "sleaves (fmupd i s m) = (sleaves m)(i := leaves (ss_tree s))"
  by (auto simp: sleaves_def)

lemma states_ok_upd: "states_ok E T m \<Longrightarrow> subnet_ok E T i s \<Longrightarrow> states_ok E T (fmupd i s m)"
  by (simp add: states_ok_def)

lemma ss_new_ok: "hash_universe E T \<Longrightarrow> subnet_ok E T i (ss_new E i)"
  by (simp add: subnet_ok_def ss_new_def inc_new_ok) (simp add: inc_new_def fcard_fempty)

lemma get_subnet_mut_ok:
  assumes U: "hash_universe E T" and ok: "states_ok E T (subnet_states g)"
  shows "states_ok E T (subnet_states (fst (get_subnet_mut E g i)))"
    and "subnet_ok E T i (snd (get_subnet_mut E g i))"
  using ok ss_new_ok [OF U] by (auto simp: get_subnet_mut_def states_ok_def split: option.split)

lemma get_subnet_mut_leaves [simp]:
  "gleaves (fst (get_subnet_mut E g i)) = gleaves g"
  "leaves (ss_tree (snd (get_subnet_mut E g i))) = gleaves g i"
  by (auto simp: get_subnet_mut_def sleaves_def ss_new_def inc_new_def fun_eq_iff split: option.split)

lemma put_subnet_states [simp]: "subnet_states (put_subnet g i s) = fmupd i s (subnet_states g)"
  by (simp add: put_subnet_def)

lemma index_states [simp]:
  "subnet_states (index_value E de i v g) = subnet_states g"
  "subnet_states (update_indexes_for_value E de g i v key) = subnet_states g"
  "subnet_states (remove_from_indexes_for_value E de g i v) = subnet_states g"
  "subnet_states (record_modification g e i d) = subnet_states g"
  by (auto simp: index_value_def update_indexes_for_value_def remove_from_indexes_for_value_def
      record_modification_def Let_def split: option.splits prod.splits)

lemma fmlen_upd: "fmlen (fmupd k v m) = (if fmlookup m k = None then Suc (fmlen m) else fmlen m)"
  by (auto simp: fmdom_notI fmdomI finsert_absorb fcard_finsert_disjoint)

lemma fmlen_drop: "fmlookup m k \<noteq> None \<Longrightarrow> fmlen (fmdrop k m) = fmlen m - 1"
  by (auto simp: fmdomI)

lemma unat_Suc64: "Suc (unat x) < 2 ^ 64 \<Longrightarrow> unat (x + 1) = Suc (unat x)" for x :: u64
  by (simp add: unat_plus_if' )

lemma ss_upsert_ok:
  assumes U: "hash_universe E T" and ok: "subnet_ok E T i s" and T: "fits E T (fmupd k v (leaves (ss_tree s)))"
  shows "subnet_ok E T i (fst (ss_upsert E s k v))"
    and "leaves (ss_tree (fst (ss_upsert E s k v))) = fmupd k v (leaves (ss_tree s))"
proof -
  have "inc_ok E T (fst (inc_insert E (ss_tree s) k v))"
    using inc_insert_ok [OF U] ok T by (simp add: subnet_ok_def fits_def)
  moreover have "unat (if fmlookup (leaves (ss_tree s)) k = None then object_count s + 1 else object_count s)
      = fmlen (fmupd k v (leaves (ss_tree s)))"
    using ok T unat_Suc64 [of "object_count s"] unfolding fmlen_upd subnet_ok_def fits_def by auto
  ultimately show "subnet_ok E T i (fst (ss_upsert E s k v))"
    using ok T by (auto simp: subnet_ok_def ss_upsert_def inc_get_def fits_def Let_def)
  show "leaves (ss_tree (fst (ss_upsert E s k v))) = fmupd k v (leaves (ss_tree s))"
    by (simp add: ss_upsert_def Let_def)
qed

lemma ss_delete_ok:
  assumes U: "hash_universe E T" and ok: "subnet_ok E T i s" and T: "fits E T (fmdrop k (leaves (ss_tree s)))"
  obtains s' where "ss_delete E s k = Some (s', fmlookup (leaves (ss_tree s)) k)" "subnet_ok E T i s'"
    "leaves (ss_tree s') = fmdrop k (leaves (ss_tree s))"
proof -
  obtain t where t: "inc_remove E (ss_tree s) k = Some (t, fmlookup (leaves (ss_tree s)) k)"
      "inc_ok E T t" "leaves t = fmdrop k (leaves (ss_tree s))"
    using inc_remove_ok [OF U, of "ss_tree s" k] ok T by (auto simp: subnet_ok_def fits_def)
  have "unat (if fmlookup (leaves (ss_tree s)) k \<noteq> None then saturating_sub (object_count s) 1 else object_count s)
      = fmlen (fmdrop k (leaves (ss_tree s)))"
    using ok fmlen_drop [of "leaves (ss_tree s)" k] fmdrop_None [of "leaves (ss_tree s)" k]
    by (cases "fmlookup (leaves (ss_tree s)) k")
      (simp_all add: subnet_ok_def unat_saturating_sub del: fmdom_drop)
  then show thesis
    using that t ok T by (simp add: ss_delete_def subnet_ok_def fits_def)
qed

section \<open>The manager implements the ledger\<close>

lemma apply_state_change_ok:
  assumes U: "hash_universe E T" and ok: "states_ok E T (subnet_states g)"
    and T: "fits E T (lput (gleaves g) i (parse_state_change_key E (esc_key c)) (esc_new_value c) i)"
  shows "\<exists>g' r. apply_state_change E de g i c = Some (g', r) \<and> states_ok E T (subnet_states g') \<and>
    gleaves g' = lput (gleaves g) i (parse_state_change_key E (esc_key c)) (esc_new_value c)"
proof (cases "esc_new_value c")
  case (Some v)
  let ?k = "parse_state_change_key E (esc_key c)"
  obtain g1 s where gs: "get_subnet_mut E g i = (g1, s)"
    by (rule prod.exhaust)
  note mut = get_subnet_mut_ok [OF U ok, of i, unfolded gs fst_conv snd_conv]
    get_subnet_mut_leaves [of E g i, unfolded gs fst_conv snd_conv]
  obtain s1 r where up: "ss_upsert E s ?k v = (s1, r)"
    by (rule prod.exhaust)
  have "fits E T (fmupd ?k v (leaves (ss_tree s)))"
    using T Some mut(4) by (simp add: lput_def)
  note s1 = ss_upsert_ok [OF U mut(2) this, unfolded up fst_conv]
  show ?thesis
    using Some gs up states_ok_upd [OF mut(1) s1(1)] s1(2) mut(3,4)
    by (auto simp: apply_state_change_def lput_def Let_def split: option.split)
next
  case None
  let ?k = "parse_state_change_key E (esc_key c)"
  obtain g1 old where old: "(case esc_old_value c of
        Some o1 \<Rightarrow> (g, Some o1)
      | None \<Rightarrow> (let (g1, s) = get_subnet_mut E g i in (g1, ss_get s ?k))) = (g1, old)"
    by (rule prod.exhaust)
  have g1: "states_ok E T (subnet_states g1)" "gleaves g1 = gleaves g"
    using old ok get_subnet_mut_ok [OF U ok, of i] get_subnet_mut_leaves [of E g i]
    by (auto simp del: get_subnet_mut_leaves split: option.splits prod.splits)
  define g2 where "g2 = (case old of None \<Rightarrow> g1 | Some o1 \<Rightarrow> remove_from_indexes_for_value E de g1 ?k o1)"
  have g2: "subnet_states g2 = subnet_states g1"
    by (simp add: g2_def split: option.split)
  obtain g3 s where gs: "get_subnet_mut E g2 i = (g3, s)"
    by (rule prod.exhaust)
  note mut = get_subnet_mut_ok [OF U, of g2 i, unfolded gs fst_conv snd_conv g2, OF g1(1)]
    get_subnet_mut_leaves [of E g2 i, unfolded gs fst_conv snd_conv g2 g1(2)]
  have "fits E T (fmdrop ?k (leaves (ss_tree s)))"
    using T None mut(4) by (simp add: lput_def)
  then obtain s1 where s1: "ss_delete E s ?k = Some (s1, fmlookup (leaves (ss_tree s)) ?k)"
      "subnet_ok E T i s1" "leaves (ss_tree s1) = fmdrop ?k (leaves (ss_tree s))"
    by (rule ss_delete_ok [OF U mut(2)])
  have "apply_state_change E de g i c =
      Some (put_subnet g3 i s1, Deleted ?k (fmlookup (leaves (ss_tree s)) ?k \<noteq> None))"
    unfolding apply_state_change_def Let_def None option.case old [unfolded Let_def] prod.case
      g2_def [symmetric] gs s1(1) ..
  then show ?thesis
    using None states_ok_upd [OF mut(1) s1(2)] s1(3) mut(3,4) by (simp add: lput_def)
qed

lemma write_of_simps [simp]:
  "run_writes L (write_of E i c # ws) =
     run_writes (lput L (change_target i c) (parse_state_change_key E (esc_key c)) (esc_new_value c)) ws"
  "write_trace L (write_of E i c # ws) =
     lput L (change_target i c) (parse_state_change_key E (esc_key c)) (esc_new_value c) (change_target i c)
     # write_trace (lput L (change_target i c) (parse_state_change_key E (esc_key c)) (esc_new_value c)) ws"
  by (simp_all add: write_of_def)

lemma apply_changes_ok:
  assumes U: "hash_universe E T"
  shows "states_ok E T (subnet_states g) \<Longrightarrow> list_all (fits E T) (write_trace (gleaves g) (map (write_of E i) cs))
    \<Longrightarrow> \<exists>g'. apply_changes E de i cs g = Some g' \<and> states_ok E T (subnet_states g') \<and>
          gleaves g' = run_writes (gleaves g) (map (write_of E i) cs)"
proof (induction cs arbitrary: g)
  case (Cons c cs)
  then obtain g1 r where g1: "apply_state_change E de g (change_target i c) c = Some (g1, r)"
      "states_ok E T (subnet_states g1)"
      "gleaves g1 = lput (gleaves g) (change_target i c) (parse_state_change_key E (esc_key c)) (esc_new_value c)"
    using apply_state_change_ok [OF U, of g "change_target i c" c de] by auto
  with Cons.IH [of g1] Cons.prems(2) show ?case
    by simp
qed simp

lemma apply_execution_result_ok:
  assumes U: "hash_universe E T" and "states_ok E T (subnet_states g)"
    and "list_all (fits E T) (write_trace (gleaves g) (map (write_of E i) (er_state_changes r)))"
  shows "\<exists>g' h. apply_execution_result E de g i r = Some (g', h) \<and> states_ok E T (subnet_states g') \<and>
          gleaves g' = run_writes (gleaves g) (map (write_of E i) (er_state_changes r))"
proof -
  obtain g1 where "apply_changes E de i (er_state_changes r) g = Some g1"
      "states_ok E T (subnet_states g1)"
      "gleaves g1 = run_writes (gleaves g) (map (write_of E i) (er_state_changes r))"
    using apply_changes_ok [OF assms] by blast
  then show ?thesis
    using get_subnet_mut_ok(1) [OF U, of g1 i] get_subnet_mut_leaves(1) [of E g1 i]
    by (auto simp: apply_execution_result_def simp del: get_subnet_mut_leaves split: prod.split)
qed

text \<open>Conflict detection decides admissibility; it only opens subnets.\<close>

definition overlay :: "(subnet_id \<times> hash_value, bytes option) fmap \<Rightarrow> ledger \<Rightarrow> ledger \<Rightarrow> bool" where
  "overlay pw L0 L \<longleftrightarrow>
     (\<forall>i k. fmlookup (L i) k = (case fmlookup pw (i, k) of Some p \<Rightarrow> p | None \<Rightarrow> fmlookup (L0 i) k))"

lemma overlay_put: "overlay pw L0 L \<Longrightarrow> overlay (fmupd (i, k) w pw) L0 (lput L i k w)"
  by (auto simp: overlay_def lput_def split: option.split)

lemma overlay_empty: "overlay fmempty L L"
  by (simp add: overlay_def)

lemma ss_get_mut [simp]: "ss_get (snd (get_subnet_mut E g i)) k = fmlookup (gleaves g i) k"
  by (simp add: ss_get_def inc_get_def)

lemma find_conflict_ok:
  assumes U: "hash_universe E T"
  shows "states_ok E T (subnet_states g) \<Longrightarrow> overlay pw (gleaves g) L \<Longrightarrow>
    states_ok E T (subnet_states (fst (find_conflict E i cs pw g))) \<and>
    gleaves (fst (find_conflict E i cs pw g)) = gleaves g \<and>
    (snd (find_conflict E i cs pw g) = None \<longleftrightarrow> admissible (gleaves g) L (map (write_of E i) cs))"
proof (induction cs arbitrary: pw g L)
  case (Cons c cs)
  let ?t = "change_target i c" and ?k = "parse_state_change_key E (esc_key c)"
  obtain g1 s where gs: "get_subnet_mut E g ?t = (g1, s)"
    by (rule prod.exhaust)
  note mut = get_subnet_mut_ok [OF U Cons.prems(1), of ?t, unfolded gs fst_conv snd_conv]
    get_subnet_mut_leaves [of E g ?t, unfolded gs fst_conv snd_conv]
  have sg: "ss_get s ?k = fmlookup (gleaves g ?t) ?k"
    using ss_get_mut [of E g ?t ?k] gs by simp
  note ov = overlay_put [OF Cons.prems(2), of ?t ?k "esc_new_value c"]
  note IH = Cons.IH [OF Cons.prems(1) ov] Cons.IH [OF mut(1) ov [folded mut(3)]]
  have cur: "fmlookup (L ?t) ?k = (case fmlookup pw (?t, ?k) of Some p \<Rightarrow> p | None \<Rightarrow> fmlookup (gleaves g ?t) ?k)"
    using Cons.prems(2) by (simp add: overlay_def)
  show ?case
    using IH mut(1,3) Cons.prems(1) sg cur
    by (cases "esc_old_value c"; cases "fmlookup pw (?t, ?k)"; cases "esc_new_value c")
      (auto simp: Let_def gs write_of_def split: if_splits)
qed simp

lemma fold_record_modification [simp]:
  "subnet_states (fold (\<lambda>c g. record_modification g e (f c) d) cs g) = subnet_states g"
  by (induction cs arbitrary: g) simp_all

lemma apply_event_ok:
  assumes U: "hash_universe E T" and ok: "states_ok E T (subnet_states g)"
    and T: "list_all (fits E T) (event_trace E e (gleaves g))"
  shows "\<exists>g' m'. apply_event E de d e (g, m) = Some (g', m') \<and> states_ok E T (subnet_states g') \<and>
    gleaves g' = ledger_event E e (gleaves g)"
proof (cases "ev_result e")
  case None
  then show ?thesis
    using ok by (simp add: apply_event_def ledger_event_def event_writes_def)
next
  case (Some r)
  show ?thesis
  proof (cases "er_success r")
    case True
    let ?i = "get_subnet_id e" and ?cs = "er_state_changes r"
    have w: "event_writes E e = map (write_of E ?i) ?cs"
      using Some True by (simp add: event_writes_def)
    obtain g1 conf where fc: "find_conflict E ?i ?cs fmempty g = (g1, conf)"
      by (rule prod.exhaust)
    note c = find_conflict_ok [OF U ok overlay_empty, of ?i ?cs, unfolded fc fst_conv snd_conv]
    show ?thesis
    proof (cases conf)
      case None
      then have adm: "admissible (gleaves g) (gleaves g) (event_writes E e)"
        using c w by simp
      then have "list_all (fits E T) (write_trace (gleaves g1) (map (write_of E ?i) ?cs))"
        using T c w by (simp add: event_trace_def)
      then obtain g2 h where "apply_execution_result E de g1 ?i r = Some (g2, h)"
          "states_ok E T (subnet_states g2)" "gleaves g2 = run_writes (gleaves g1) (event_writes E e)"
        using apply_execution_result_ok [OF U, of g1 ?i r de] c w by auto
      with adm c Some True None fc show ?thesis
        by (simp add: apply_event_def ledger_event_def)
    next
      case conflict: (Some key)
      then have "\<not> admissible (gleaves g) (gleaves g) (event_writes E e)"
        using c w by simp
      with c Some True conflict fc show ?thesis
        by (simp add: apply_event_def ledger_event_def)
    qed
  next
    case False
    with Some ok show ?thesis
      by (simp add: apply_event_def ledger_event_def event_writes_def)
  qed
qed

lemma apply_events_ok:
  assumes U: "hash_universe E T"
  shows "states_ok E T (subnet_states g) \<Longrightarrow> list_all (fits E T) (events_trace E es (gleaves g))
    \<Longrightarrow> \<exists>g' m'. apply_events E de d es (g, m) = Some (g', m') \<and> states_ok E T (subnet_states g') \<and>
      gleaves g' = ledger_events E es (gleaves g)"
proof (induction es arbitrary: g m)
  case (Cons e es)
  then obtain g1 m1 where "apply_event E de d e (g, m) = Some (g1, m1)" "states_ok E T (subnet_states g1)"
      "gleaves g1 = ledger_event E e (gleaves g)"
    using apply_event_ok [OF U, of g e de d m] by auto
  with Cons.IH [of g1 m1] Cons.prems show ?case
    by simp
qed simp

lemma apply_committed_events_ok:
  assumes "hash_universe E T" "states_ok E T (subnet_states g)"
    and "list_all (fits E T) (events_trace E (sort_key vlc_order es) (gleaves g))"
  shows "\<exists>g' m ns. apply_committed_events E de g es d = Some (g', m, ns) \<and>
    states_ok E T (subnet_states g') \<and> gleaves g' = ledger_batch E es (gleaves g)"
  using apply_events_ok [OF assms(1), of "g\<lparr>last_finalized_depth := max (last_finalized_depth g) d\<rparr>"
      "sort_key vlc_order es" de d summary_new] assms(2,3)
  by (auto simp: apply_committed_events_def ledger_batch_def Let_def)

lemma gsm_run_ok:
  assumes U: "hash_universe E T"
  shows "states_ok E T (subnet_states g) \<Longrightarrow> list_all (fits E T) (batches_trace E bs (gleaves g))
    \<Longrightarrow> \<exists>g'. gsm_run E de bs g = Some g' \<and> states_ok E T (subnet_states g') \<and>
      gleaves g' = ledger_run E bs (gleaves g)"
proof (induction bs arbitrary: g)
  case (Cons b bs)
  obtain es d where b: "b = (es, d)"
    by (rule prod.exhaust)
  then obtain g1 m ns where "apply_committed_events E de g es d = Some (g1, m, ns)"
      "states_ok E T (subnet_states g1)" "gleaves g1 = ledger_batch E es (gleaves g)"
    using apply_committed_events_ok [OF U, of g es de d] Cons.prems by auto
  with b Cons.IH [of g1] Cons.prems show ?case
    by simp
qed simp

section \<open>Applying finalized events\<close>

text \<open>The nodes of the trees over a list of leaf maps, as they are hashed.\<close>

definition state_trees :: "ext \<Rightarrow> (hash_value, bytes) fmap list \<Rightarrow> stree list" where
  "state_trees E ms = Tip # concat (map (\<lambda>m. subtree_list (tree_of E m)) ms)"

definition state_bytes :: "ext \<Rightarrow> (hash_value, bytes) fmap list \<Rightarrow> bytes list" where
  "state_bytes E ms = map (node_bytes E) (state_trees E ms)"

definition small :: "('k, 'v) fmap \<Rightarrow> bool" where
  "small m \<longleftrightarrow> fmlen m < 2 ^ 64"

definition empty_ledger :: ledger where
  "empty_ledger = (\<lambda>_. fmempty)"

definition rebuilt_root :: "ext \<Rightarrow> (hash_value, bytes) fmap \<Rightarrow> hash_value" where
  "rebuilt_root E m = smt_root_hash (rebuild_tree E ((smt_new E)\<lparr>smt_leaves := m\<rparr>))"

lemma state_trees_universe:
  "collision_free E (state_bytes E ms) \<Longrightarrow> hash_universe E (set (state_trees E ms))"
  by (auto simp: hash_universe_def state_bytes_def state_trees_def collision_free_inj subset_iff
      intro: subtree_trans)

lemma state_trees_fit: "list_all small ms \<Longrightarrow> list_all (fits E (set (state_trees E ms))) ms"
  by (force simp: list_all_iff fits_def small_def state_trees_def)

lemma gsm_new_ok:
  assumes "hash_universe E T"
  shows "states_ok E T (subnet_states (gsm_new E))" and "gleaves (gsm_new E) = empty_ledger"
proof -
  show "states_ok E T (subnet_states (gsm_new E))"
    unfolding gsm_new_def gsm.simps
    by (intro states_ok_upd ss_new_ok [OF assms]) (simp add: states_ok_def)
  show "gleaves (gsm_new E) = empty_ledger"
    by (auto simp: gsm_new_def empty_ledger_def sleaves_def ss_new_def inc_new_def fun_eq_iff)
qed

lemma gsm_run_new_ok:
  assumes "collision_free E (state_bytes E (batches_trace E bs empty_ledger))"
    and "list_all small (batches_trace E bs empty_ledger)"
  obtains g where "gsm_run E de bs (gsm_new E) = Some g"
    "states_ok E (set (state_trees E (batches_trace E bs empty_ledger))) (subnet_states g)"
    "gleaves g = ledger_run E bs empty_ledger"
proof -
  note U = state_trees_universe [OF assms(1)]
  show thesis
    using that gsm_run_ok [OF U gsm_new_ok(1) [OF U], of bs de] state_trees_fit [OF assms(2)]
    unfolding gsm_new_ok(2) [OF U] by blast
qed

text \<open>
  C3: the state manager implements the ledger. Whatever batches of finalized events it applies, it
  does not panic; the leaves of every subnet are those of the ledger, on which an event whose reads
  are stale or which creates an existing key has no effect and every other successful event takes
  effect as a whole; the root of every subnet is that of the tree rebuilt from these leaves, and its
  object count is exact. The hash function is assumed not to collide on the nodes of the trees that
  the batches pass through, and no subnet to reach 2^64 objects.
\<close>

theorem committed_state_refines_ledger:
  assumes "collision_free E (state_bytes E (batches_trace E bs empty_ledger))"
    and "list_all small (batches_trace E bs empty_ledger)"
  shows "\<exists>g :: 's gsm. gsm_run E de bs (gsm_new E) = Some g \<and> gleaves g = ledger_run E bs empty_ledger \<and>
    (\<forall>i s. get_subnet g i = Some s \<longrightarrow>
       ss_root s = rebuilt_root E (ledger_run E bs empty_ledger i) \<and>
       unat (object_count s) = fmlen (ledger_run E bs empty_ledger i))"
proof -
  obtain g :: "'s gsm" where g: "gsm_run E de bs (gsm_new E) = Some g"
      "states_ok E (set (state_trees E (batches_trace E bs empty_ledger))) (subnet_states g)"
      "gleaves g = ledger_run E bs empty_ledger"
    by (rule gsm_run_new_ok [OF assms])
  have "ss_root s = rebuilt_root E (gleaves g i) \<and> unat (object_count s) = fmlen (gleaves g i)"
    if "get_subnet g i = Some s" for i s
    using that g(2) by (auto simp: states_ok_def subnet_ok_def inc_ok_def get_subnet_def ss_root_def
        rebuilt_root_def rebuild_tree_root sleaves_def)
  with g(1) show ?thesis
    unfolding g(3) [symmetric] by blast
qed

text \<open>The events of a batch are applied in their own order, whatever the order they arrive in.\<close>

lemma sort_vlc_unique:
  assumes "mset es = mset fs" and "distinct (map ev_id es)"
  shows "sort_key vlc_order es = sort_key vlc_order fs"
proof (rule sort_key_unique [OF assms(1)])
  show "distinct (map vlc_order es)"
    using assms(2) by (auto simp: distinct_map inj_on_def vlc_order_def)
qed

lemma committed_order_irrelevant:
  "mset es = mset fs \<Longrightarrow> distinct (map ev_id es) \<Longrightarrow>
   apply_committed_events E de g es d = apply_committed_events E de g fs d"
  by (simp add: apply_committed_events_def sort_vlc_unique)

section \<open>Conservation\<close>

definition opt_value :: "(bytes \<Rightarrow> nat) \<Rightarrow> bytes option \<Rightarrow> nat" where
  "opt_value val w = (case w of None \<Rightarrow> 0 | Some v \<Rightarrow> val v)"

definition total_supply :: "(bytes \<Rightarrow> nat) \<Rightarrow> ledger \<Rightarrow> nat" where
  "total_supply val L = (\<Sum>i\<in>UNIV. fmsum (\<lambda>_. val) (L i))"

text \<open>
  A delete without an old value is excluded too: the conflict check has nothing to compare there, so
  that the code would apply it to whatever the tree holds.
\<close>

definition balanced_writes :: "(bytes \<Rightarrow> nat) \<Rightarrow> ledger_write list \<Rightarrow> bool" where
  "balanced_writes val ws \<longleftrightarrow>
     list_all (\<lambda>(i, k, old, new). old \<noteq> None \<or> new \<noteq> None) ws \<and>
     (\<Sum>(i, k, old, new)\<leftarrow>ws. opt_value val old) = (\<Sum>(i, k, old, new)\<leftarrow>ws. opt_value val new)"

lemma supply_put:
  "total_supply val (lput L i k w) + opt_value val (fmlookup (L i) k) = total_supply val L + opt_value val w"
proof -
  have "total_supply val M = fmsum (\<lambda>_. val) (M i) + (\<Sum>j\<in>UNIV - {i}. fmsum (\<lambda>_. val) (M j))" for M
    unfolding total_supply_def by (rule sum.remove) simp_all
  note s = this [of L] this [of "lput L i k w"]
  have "(\<Sum>j\<in>UNIV - {i}. fmsum (\<lambda>_. val) (lput L i k w j)) = (\<Sum>j\<in>UNIV - {i}. fmsum (\<lambda>_. val) (L j))"
    by (rule sum.cong) (simp_all add: lput_def)
  moreover have "fmsum (\<lambda>_. val) (lput L i k w i) + opt_value val (fmlookup (L i) k)
      = fmsum (\<lambda>_. val) (L i) + opt_value val w"
    by (cases w; cases "fmlookup (L i) k")
      (simp_all add: lput_def opt_value_def fmsum_upd fmsum_drop [where m = "L i"] fmdrop_None)
  ultimately show ?thesis
    using s by simp
qed

lemma supply_writes:
  "admissible L0 L ws \<Longrightarrow> list_all (\<lambda>(i, k, old, new). old \<noteq> None \<or> new \<noteq> None) ws \<Longrightarrow>
   total_supply val (run_writes L ws) + (\<Sum>(i, k, old, new)\<leftarrow>ws. opt_value val old)
   = total_supply val L + (\<Sum>(i, k, old, new)\<leftarrow>ws. opt_value val new)"
proof (induction L ws rule: run_writes.induct)
  case (2 L i k old new ws)
  have "fmlookup (L i) k = old"
    using 2(2,3) by (auto split: option.splits)
  with 2 supply_put [of val L i k new] show ?case
    by simp
qed simp

lemma supply_events:
  "\<forall>e\<in>set es. balanced_writes val (event_writes E e) \<Longrightarrow> total_supply val (ledger_events E es L) = total_supply val L"
proof (induction es arbitrary: L)
  case (Cons e es)
  have "total_supply val (ledger_event E e L) = total_supply val L"
    using supply_writes [of L L "event_writes E e" val] Cons.prems
    by (auto simp: ledger_event_def balanced_writes_def)
  with Cons show ?case
    by simp
qed simp

lemma supply_run:
  "\<forall>b\<in>set bs. \<forall>e\<in>set (fst b). balanced_writes val (event_writes E e)
   \<Longrightarrow> total_supply val (ledger_run E bs L) = total_supply val L"
proof (induction bs arbitrary: L)
  case (Cons b bs)
  obtain es d where b: "b = (es, d)"
    by (rule prod.exhaust)
  then have "total_supply val (ledger_batch E es L) = total_supply val L"
    using Cons.prems by (simp add: ledger_batch_def supply_events)
  with b Cons show ?case
    by simp
qed simp

text \<open>
  C1: no value is created or lost. After the genesis batch, batches of events each of which writes as
  much value as it has read, and deletes no object without naming the value it has read, leave the
  total value stored in all subnets unchanged, whatever their
  order, duplicates and stale reads: an event that would spend a value a second time is not applied.
  The value of an object is any function of its bytes.
\<close>

theorem supply_conserved:
  assumes "collision_free E (state_bytes E (batches_trace E (b # bs) empty_ledger))"
    and "list_all small (batches_trace E (b # bs) empty_ledger)"
    and "\<forall>b\<in>set bs. \<forall>e\<in>set (fst b). balanced_writes val (event_writes E e)"
  shows "\<exists>g0 g :: 's gsm. gsm_run E de [b] (gsm_new E) = Some g0 \<and> gsm_run E de bs g0 = Some g \<and>
    total_supply val (gleaves g) = total_supply val (gleaves g0)"
proof -
  obtain es d where b: "b = (es, d)"
    by (rule prod.exhaust)
  define T where "T = set (state_trees E (batches_trace E (b # bs) empty_ledger))"
  have U: "hash_universe E T"
    unfolding T_def by (rule state_trees_universe [OF assms(1)])
  have fit: "list_all (fits E T) (batches_trace E (b # bs) empty_ledger)"
    unfolding T_def by (rule state_trees_fit [OF assms(2)])
  have "list_all (fits E T) (batches_trace E [b] empty_ledger)"
    using fit b by simp
  then obtain g0 :: "'s gsm" where g0: "gsm_run E de [b] (gsm_new E) = Some g0" "states_ok E T (subnet_states g0)"
      "gleaves g0 = ledger_run E [b] empty_ledger"
    using gsm_run_ok [OF U gsm_new_ok(1) [OF U], of "[b]" de] unfolding gsm_new_ok(2) [OF U] by blast
  have "list_all (fits E T) (batches_trace E bs (gleaves g0))"
    using fit b g0(3) by simp
  then obtain g where "gsm_run E de bs g0 = Some g" "gleaves g = ledger_run E bs (gleaves g0)"
    using gsm_run_ok [OF U g0(2), of bs de] by blast
  with g0(1) supply_run [OF assms(3)] show ?thesis
    by auto
qed

section \<open>A sample run\<close>

definition high_key :: hash_value where
  "high_key = 0x8000000000000000000000000000000000000000000000000000000000000000"

definition ledger_ext :: ext where
  "ledger_ext = sample_ext\<lparr>blake3 := \<lambda>bs.
     if bs = str_bytes ''user:a'' then 0 else if bs = str_bytes ''user:b'' then high_key
     else if bs = str_bytes ''user:c'' then 1
     else from_le_bytes (map (\<lambda>i. if i < length bs then bs ! i else 0) [0, 1, 64])\<rparr>"

definition ledger_event_at :: "event_id \<Rightarrow> u64 \<Rightarrow> event_state_change list \<Rightarrow> event" where
  "ledger_event_at i t cs = \<lparr>ev_id = i, event_type = TransferEvent, parent_ids = [], ev_subnet = None,
     ev_vlc = (vlc_new 0)\<lparr>logical_time := t\<rparr>, creator = ''v'', status = Executed,
     ev_result = Some (with_changes er_succeeded cs), ev_timestamp = 0\<rparr>"

definition sample_batches :: "(event list \<times> u64) list" where
  "sample_batches =
     [([ledger_event_at ''g'' 0 [StateChange_insert ''user:a'' [10]]], 0),
      ([ledger_event_at ''b'' 2 [StateChange_update ''user:a'' [10] [1], StateChange_insert ''user:c'' [9]],
        ledger_event_at ''a'' 1 [StateChange_update ''user:a'' [10] [4], StateChange_insert ''user:b'' [6]]], 1)]"

definition first_byte :: "bytes \<Rightarrow> nat" where
  "first_byte bs = (case bs of [] \<Rightarrow> 0 | b # _ \<Rightarrow> unat b)"



lemma sample_keys:
  "parse_state_change_key ledger_ext ''user:a'' = 0"
  "parse_state_change_key ledger_ext ''user:b'' = high_key"
  "parse_state_change_key ledger_ext ''user:c'' = 1"
  by (simp_all add: parse_state_change_key_def ledger_ext_def strip_prefix_def setu_hash_def str_bytes_def)

lemma high_key_ne [simp]: "high_key \<noteq> 0" "high_key \<noteq> 1"
  by (simp_all add: high_key_def)

lemmas sample_batch_defs = sample_batches_def event_trace_def event_writes_def ledger_event_at_def
   with_changes_def er_succeeded_def write_of_def StateChange_insert_def StateChange_update_def StateChange_new_def
   change_target_def get_subnet_id_def sample_keys empty_ledger_def lput_def ledger_batch_def ledger_event_def
   vlc_order_def is_root_event_def

lemma sample_trace: "batches_trace ledger_ext sample_batches empty_ledger =
   [fmupd 0 [10] fmempty, fmupd 0 [4] (fmupd 0 [10] fmempty),
    fmupd high_key [6] (fmupd 0 [4] (fmupd 0 [10] fmempty))]"
  by (simp add: sample_batch_defs)

lemma sample_small: "list_all small (batches_trace ledger_ext sample_batches empty_ledger)"
  unfolding sample_trace by (simp add: small_def fmlen_upd fcard_fempty del: fmdom_fmupd)

lemma sample_state_collision_free:
  "collision_free ledger_ext (state_bytes ledger_ext (batches_trace ledger_ext sample_batches empty_ledger))"
  unfolding sample_trace by code_simp

theorem committed_state_refines_ledger_witness:
  "\<exists>g :: unit gsm. gsm_run ledger_ext (\<lambda>_. None) sample_batches (gsm_new ledger_ext) = Some g \<and>
     fmlookup (gleaves g SubnetId_ROOT) 0 = Some [4] \<and> fmlookup (gleaves g SubnetId_ROOT) high_key = Some [6] \<and>
     fmlookup (gleaves g SubnetId_ROOT) 1 = None"
proof -
  have "ledger_run ledger_ext sample_batches empty_ledger SubnetId_ROOT
      = fmupd high_key [6] (fmupd 0 [4] (fmupd 0 [10] fmempty))"
    by (simp add: sample_batch_defs)
  moreover obtain g :: "unit gsm" where
    "gsm_run ledger_ext (\<lambda>_. None) sample_batches (gsm_new ledger_ext) = Some g"
    "gleaves g = ledger_run ledger_ext sample_batches empty_ledger"
    using committed_state_refines_ledger [OF sample_state_collision_free sample_small] by blast
  ultimately show ?thesis
    by auto
qed

theorem supply_conserved_witness:
  "\<exists>g0 g :: unit gsm.
     gsm_run ledger_ext (\<lambda>_. None) [hd sample_batches] (gsm_new ledger_ext) = Some g0 \<and>
     gsm_run ledger_ext (\<lambda>_. None) (tl sample_batches) g0 = Some g \<and>
     total_supply first_byte (gleaves g) = total_supply first_byte (gleaves g0)"
proof -
  have ne: "hd sample_batches # tl sample_batches = sample_batches"
    by (simp add: sample_batches_def)
  have "\<forall>b\<in>set (tl sample_batches). \<forall>e\<in>set (fst b). balanced_writes first_byte (event_writes ledger_ext e)"
    by (simp add: sample_batch_defs balanced_writes_def opt_value_def first_byte_def)
  with supply_conserved [of ledger_ext "hd sample_batches" "tl sample_batches" first_byte]
    sample_state_collision_free sample_small
  show ?thesis
    unfolding ne by blast
qed

end
