(* ===== verification/Recovery.thy ===== *)
theory Recovery
  imports Ledger
begin

text \<open>
  Persistence of the global state: what \<open>commit\<close> writes is what \<open>recover\<close> reads.

  The change tracking of each tree records every leaf that differs from the last commit; this is an
  instance of the locale \<open>subnet_invariant\<close>, an invariant of one subnet that insertion and removal of
  leaves keep and that therefore survives the application of finalized events. The locale
  \<open>b4_backend\<close> is the contract of the storage backend; inside it, a successful commit leaves the
  leaves of every tree in the store, and recovery rebuilds trees with the same leaves and roots. The
  in-memory backend meets the contract.
\<close>

section \<open>Invariants of a subnet\<close>

locale subnet_invariant =
  fixes E :: ext and P :: "subnet_id \<Rightarrow> subnet_state_smt \<Rightarrow> bool"
  assumes upsert: "P i s \<Longrightarrow> P i (fst (ss_upsert E s k v))"
    and delete: "P i s \<Longrightarrow> ss_delete E s k = Some (s', r) \<Longrightarrow> P i s'"
begin

definition holds :: "(subnet_id, subnet_state_smt) fmap \<Rightarrow> bool" where
  "holds m \<longleftrightarrow> (\<forall>i. P i (case fmlookup m i of Some s \<Rightarrow> s | None \<Rightarrow> ss_new E i))"

lemma holds_upd: "holds m \<Longrightarrow> P i s \<Longrightarrow> holds (fmupd i s m)"
  by (simp add: holds_def)

lemma holds_get_subnet_mut:
  "holds (subnet_states g) \<Longrightarrow> get_subnet_mut E g i = (g1, s) \<Longrightarrow> holds (subnet_states g1) \<and> P i s"
  by (auto simp: get_subnet_mut_def holds_def split: option.splits) (metis option.case)+

lemma holds_apply_state_change:
  assumes h: "holds (subnet_states g)" and a: "apply_state_change E de g i c = Some (g', r)"
  shows "holds (subnet_states g')"
proof (cases "esc_new_value c")
  case (Some v)
  let ?k = "parse_state_change_key E (esc_key c)"
  obtain g1 s where gs: "get_subnet_mut E g i = (g1, s)"
    by (rule prod.exhaust)
  have "subnet_states g' = fmupd i (fst (ss_upsert E s ?k v)) (subnet_states g1)"
    using a Some gs by (auto simp: apply_state_change_def Let_def split: prod.splits option.splits)
  with holds_get_subnet_mut [OF h gs] show ?thesis
    by (simp add: holds_upd upsert)
next
  case None
  let ?k = "parse_state_change_key E (esc_key c)"
  obtain g1 old where old: "(case esc_old_value c of
        Some o1 \<Rightarrow> (g, Some o1)
      | None \<Rightarrow> (let (g1, s) = get_subnet_mut E g i in (g1, ss_get s ?k))) = (g1, old)"
    by (rule prod.exhaust)
  have g1: "holds (subnet_states g1)"
    using old h holds_get_subnet_mut [OF h] by (auto split: option.splits prod.splits)
  define g2 where "g2 = (case old of None \<Rightarrow> g1 | Some o1 \<Rightarrow> remove_from_indexes_for_value E de g1 ?k o1)"
  have "holds (subnet_states g2)"
    using g1 by (simp add: g2_def split: option.split)
  moreover obtain g3 s where gs: "get_subnet_mut E g2 i = (g3, s)"
    by (rule prod.exhaust)
  ultimately have hs: "holds (subnet_states g3)" "P i s"
    using holds_get_subnet_mut by blast+
  have "(case ss_delete E s ?k of None \<Rightarrow> None
      | Some (s1, removed) \<Rightarrow> Some (put_subnet g3 i s1, Deleted ?k (removed \<noteq> None))) = Some (g', r)"
    using a unfolding apply_state_change_def Let_def None option.case old [unfolded Let_def] prod.case
      g2_def [symmetric] gs .
  then obtain s1 removed where "ss_delete E s ?k = Some (s1, removed)" "g' = put_subnet g3 i s1"
    by (auto split: option.splits)
  with hs show ?thesis
    using holds_upd delete by simp
qed

lemma holds_apply_changes:
  "holds (subnet_states g) \<Longrightarrow> apply_changes E de i cs g = Some g' \<Longrightarrow> holds (subnet_states g')"
  by (induction cs arbitrary: g) (auto split: option.splits prod.splits dest: holds_apply_state_change)

lemma holds_apply_execution_result:
  assumes "holds (subnet_states g)" and r: "apply_execution_result E de g i r = Some (g', h)"
  shows "holds (subnet_states g')"
proof -
  obtain g1 s where "apply_changes E de i (er_state_changes r) g = Some g1" "get_subnet_mut E g1 i = (g', s)"
    using r by (auto simp: apply_execution_result_def split: option.splits prod.splits)
  with holds_apply_changes [OF assms(1)] holds_get_subnet_mut show ?thesis
    by blast
qed

lemma holds_find_conflict:
  "holds (subnet_states g) \<Longrightarrow> holds (subnet_states (fst (find_conflict E i cs pw g)))"
proof (induction cs arbitrary: pw g)
  case (Cons c cs)
  obtain g1 s where gs: "get_subnet_mut E g (change_target i c) = (g1, s)"
    by (rule prod.exhaust)
  from holds_get_subnet_mut [OF Cons.prems gs] have "holds (subnet_states g1)" ..
  with Cons gs show ?case
    by (auto simp: Let_def split: option.split)
qed simp

lemma holds_apply_event:
  assumes "holds (subnet_states g)" and "apply_event E de d e (g, m) = Some (g', m')"
  shows "holds (subnet_states g')"
proof -
  have "holds (subnet_states g1)" if "find_conflict E i cs pw g = (g1, conf)" for i cs pw g1 conf
    using holds_find_conflict [OF assms(1), of i cs pw] that by simp
  then show ?thesis
    using assms
    by (auto simp: apply_event_def Let_def split: option.splits if_splits prod.splits
        elim!: holds_apply_execution_result [rotated])
qed

lemma holds_apply_events:
  "holds (subnet_states g) \<Longrightarrow> apply_events E de d es (g, m) = Some (g', m') \<Longrightarrow> holds (subnet_states g')"
  by (induction es arbitrary: g m) (auto split: option.splits dest: holds_apply_event)

lemma holds_apply_committed_events:
  "holds (subnet_states g) \<Longrightarrow> apply_committed_events E de g es d = Some (g', m, ns)
   \<Longrightarrow> holds (subnet_states g')"
  by (auto simp: apply_committed_events_def Let_def split: option.splits prod.splits
      dest!: holds_apply_events [rotated])

end

text \<open>The changes since the last commit, of which \<open>base\<close> are the leaves.\<close>

definition tracks :: "(hash_value \<Rightarrow> bytes option) \<Rightarrow> inc_tree \<Rightarrow> bool" where
  "tracks base t \<longleftrightarrow>
     dirty_leaves t |\<subseteq>| fmdom (leaves t) \<and> deleted_leaves t |\<inter>| fmdom (leaves t) = {||} \<and>
     (\<forall>k. k |\<notin>| dirty_leaves t \<longrightarrow> k |\<notin>| deleted_leaves t \<longrightarrow> fmlookup (leaves t) k = base k)"

lemma tracksD:
  assumes "tracks base t"
  shows "k |\<in>| deleted_leaves t \<Longrightarrow> fmlookup (leaves t) k = None"
    and "k |\<in>| dirty_leaves t \<Longrightarrow> \<exists>v. fmlookup (leaves t) k = Some v"
    and "k |\<notin>| dirty_leaves t \<Longrightarrow> k |\<notin>| deleted_leaves t \<Longrightarrow> fmlookup (leaves t) k = base k"
  using assms unfolding tracks_def by (blast intro: fmdom_notI, blast dest: fmlookup_dom_iff [THEN iffD1], blast)

lemma tracks_insert: "tracks base t \<Longrightarrow> tracks base (fst (inc_insert E t k v))"
  unfolding tracks_def inc_insert_conv by (auto simp: insert_without_tracking_def split: prod.split)

lemma tracks_remove: "tracks base t \<Longrightarrow> inc_remove E t k = Some (t', r) \<Longrightarrow> tracks base t'"
  by (auto simp: tracks_def inc_remove_def split: option.splits)

interpretation tracking: subnet_invariant E "\<lambda>i s. tracks (base i) (ss_tree s)" for E base
proof
  show "tracks (base i) (ss_tree s) \<Longrightarrow> tracks (base i) (ss_tree (fst (ss_upsert E s k v)))" for i s k v
    by (simp add: ss_upsert_def Let_def tracks_insert)
  show "tracks (base i) (ss_tree s) \<Longrightarrow> ss_delete E s k = Some (s', r) \<Longrightarrow> tracks (base i) (ss_tree s')"
    for i s k s' r
    by (auto simp: ss_delete_def tracks_remove split: option.splits)
qed

section \<open>What a commit writes\<close>

lemma map_of_entries: "map_of (entries m) = fmlookup m"
  using enumerates_entries [of m] by (simp add: enumerates_def)

definition settled :: "subnet_state_smt \<Rightarrow> subnet_state_smt" where
  "settled s = s\<lparr>ss_tree := (ss_tree s)\<lparr>dirty_leaves := {||}, deleted_leaves := {||}\<rparr>\<rparr>"

lemma settled_simps [simp]:
  "ss_root (settled s) = ss_root s" "object_count (settled s) = object_count s"
  "leaves (ss_tree (settled s)) = leaves (ss_tree s)" "dirty_leaves (ss_tree (settled s)) = {||}"
  "deleted_leaves (ss_tree (settled s)) = {||}"
  by (simp_all add: settled_def ss_root_def)

lemma settled_ok [simp]: "subnet_ok E T i (settled s) = subnet_ok E T i s"
  by (simp add: subnet_ok_def settled_def)

lemma set_last_anchor_simps [simp]:
  "ss_root (ss_set_last_anchor s a) = ss_root s" "object_count (ss_set_last_anchor s a) = object_count s"
  "ss_tree (ss_set_last_anchor s a) = ss_tree s" "subnet_ok E T i (ss_set_last_anchor s a) = subnet_ok E T i s"
  by (simp_all add: ss_set_last_anchor_def ss_root_def subnet_ok_def)

lemma take_changes_settled: "fst (ss_take_changes s) = settled s"
  by (simp add: ss_take_changes_def take_changes_def settled_def)

lemma not_pending_settled: "\<not> ss_has_pending_changes s \<Longrightarrow> settled s = s"
  by (simp add: ss_has_pending_changes_def has_pending_changes_def settled_def)

lemma map_of_upserts:
  "map_of (upserts (snd (ss_take_changes s))) k
     = (if k |\<in>| dirty_leaves (ss_tree s) then fmlookup (leaves (ss_tree s)) k else None)"
  "distinct (map fst (upserts (snd (ss_take_changes s))))"
proof -
  have "map_of (List.map_filter (\<lambda>k. map_option (Pair k) (fmlookup m k)) ks) k
      = (if k \<in> set ks then fmlookup m k else None)" for m :: "(hash_value, bytes) fmap" and ks
    by (induction ks) (auto simp: List.map_filter_simps split: option.split)
  then show "map_of (upserts (snd (ss_take_changes s))) k
     = (if k |\<in>| dirty_leaves (ss_tree s) then fmlookup (leaves (ss_tree s)) k else None)"
    by (simp add: ss_take_changes_def take_changes_def sorted_list_of_fset.rep_eq)
  have "map fst (List.map_filter (\<lambda>k. map_option (Pair k) (fmlookup m k)) ks) = filter (\<lambda>k. fmlookup m k \<noteq> None) ks"
    for m :: "(hash_value, bytes) fmap" and ks
    by (induction ks) (auto simp: List.map_filter_simps split: option.split)
  then show "distinct (map fst (upserts (snd (ss_take_changes s))))"
    by (simp add: ss_take_changes_def take_changes_def sorted_list_of_fset.rep_eq)
qed

lemma set_deletes: "set (deletes (snd (ss_take_changes s))) = fset (deleted_leaves (ss_tree s))"
  by (simp add: ss_take_changes_def take_changes_def sorted_list_of_fset.rep_eq)

text \<open>The contribution of one subnet to the batch.\<close>

definition add_subnet :: "u64 \<Rightarrow> subnet_id \<Rightarrow> subnet_state_smt \<Rightarrow> batch_view \<Rightarrow> batch_view" where
  "add_subnet a i s v =
     \<lparr>v_puts = (v_puts v)(i := \<lambda>k. if k |\<in>| dirty_leaves (ss_tree s) then fmlookup (leaves (ss_tree s)) k
                                    else v_puts v i k),
      v_dels = (v_dels v)(i := v_dels v i \<union> fset (deleted_leaves (ss_tree s))),
      v_regs = (if object_count s > 0 then insert i (v_regs v) else v_regs v),
      v_anchors = (v_anchors v)(i \<mapsto> a),
      v_roots = (v_roots v)(i := (v_roots v i)(a \<mapsto> ss_root s))\<rparr>"

lemma commit_subnet_state: "fst (commit_subnet ops a i s b) = settled s"
  using take_changes_settled [of s] not_pending_settled [of s]
  by (auto simp: commit_subnet_def Let_def split: prod.split)

lemma commit_loop_state:
  "commit_loop ops a xs m b = (m', Inr b') \<Longrightarrow> distinct (map fst xs) \<Longrightarrow>
   fmlookup m' j = (case map_of xs j of None \<Rightarrow> fmlookup m j | Some s \<Rightarrow> Some (settled s))"
proof (induction xs arbitrary: m b)
  case (Cons x xs)
  obtain i s where x: "x = (i, s)"
    by (rule prod.exhaust)
  obtain b1 where c: "commit_subnet ops a i s b = (settled s, Inr b1)"
    and r: "commit_loop ops a xs (fmupd i (settled s) m) b1 = (m', Inr b')"
    using Cons.prems(1) commit_subnet_state [of ops a i s b] x by (auto split: sum.splits prod.splits)
  show ?case
    using Cons.IH [OF r] Cons.prems(2) x by (auto split: option.split dest: map_of_SomeD intro: rev_image_eqI)
qed simp

lemma commit_subnets:
  assumes "gs_store g = Some st" and "gsm_commit E ops g a = (g', Inr ())"
  shows "fmlookup (subnet_states g') i
    = map_option (\<lambda>s. settled (ss_set_last_anchor s a)) (fmlookup (subnet_states g) i)"
proof -
  define m1 where "m1 = fmmap (\<lambda>s. ss_set_last_anchor s a) (subnet_states g)"
  obtain b b1 where "commit_loop ops a (entries m1) m1 b = (subnet_states g', Inr b1)"
    using assms unfolding gsm_commit_def m1_def [symmetric]
    by (auto simp: Let_def split: sum.splits prod.splits)
  from commit_loop_state [OF this distinct_entries, of i] show ?thesis
    by (simp add: map_of_entries m1_def option.map_comp comp_def split: option.split)
qed

context b4_backend
begin

lemma commit_subnet_view:
  assumes c: "snd (commit_subnet ops a i s b) = Inr b'"
    and tr: "dirty_leaves (ss_tree s) |\<subseteq>| fmdom (leaves (ss_tree s))"
  shows "bview b' = add_subnet a i s (bview b)"
proof -
  obtain b1 where b1: "bview b1 = (bview b)\<lparr>
        v_puts := (v_puts (bview b))(i := \<lambda>k. if k |\<in>| dirty_leaves (ss_tree s)
          then fmlookup (leaves (ss_tree s)) k else v_puts (bview b) i k),
        v_dels := (v_dels (bview b))(i := v_dels (bview b) i \<union> fset (deleted_leaves (ss_tree s)))\<rparr>"
    and rest: "and_then (if object_count s > 0 then batch_register_subnet ops b1 i else Inr b1)
        (\<lambda>b. and_then (batch_put_subnet_root ops b i a (ss_root s))
        (\<lambda>b. batch_set_last_anchor ops b i a)) = Inr b'"
  proof (cases "ss_has_pending_changes s")
    case True
    obtain ch where tc: "ss_take_changes s = (settled s, ch)"
      using take_changes_settled [of s] by (cases "ss_take_changes s") simp
    note ups = map_of_upserts [of s, unfolded tc snd_conv] set_deletes [of s, unfolded tc snd_conv]
    have "and_then (and_then (if upserts ch = [] then Inr b else put_leaves_to_batch ops b i (upserts ch))
          (\<lambda>b. if deletes ch = [] then Inr b else delete_leaves_to_batch ops b i (deletes ch)))
        (\<lambda>b. and_then (if object_count s > 0 then batch_register_subnet ops b i else Inr b)
        (\<lambda>b. and_then (batch_put_subnet_root ops b i a (ss_root s))
        (\<lambda>b. batch_set_last_anchor ops b i a))) = Inr b'"
      using c True unfolding commit_subnet_def tc by simp
    then obtain b0 b1 where b0: "(if upserts ch = [] then Inr b else put_leaves_to_batch ops b i (upserts ch)) = Inr b0"
      and b1: "(if deletes ch = [] then Inr b0 else delete_leaves_to_batch ops b0 i (deletes ch)) = Inr b1"
      and r: "and_then (if object_count s > 0 then batch_register_subnet ops b1 i else Inr b1)
        (\<lambda>b. and_then (batch_put_subnet_root ops b i a (ss_root s))
        (\<lambda>b. batch_set_last_anchor ops b i a)) = Inr b'"
      by (fastforce simp: and_then_def split: sum.splits)
    have "bview b0 = (bview b)\<lparr>v_puts := (v_puts (bview b))(i := v_puts (bview b) i ++ map_of (upserts ch))\<rparr>"
      using b0 put_law [OF _ ups(2)] by (auto split: if_splits)
    moreover have "v_puts (bview b) i ++ map_of (upserts ch) = (\<lambda>k. if k |\<in>| dirty_leaves (ss_tree s)
          then fmlookup (leaves (ss_tree s)) k else v_puts (bview b) i k)"
      using tr by (auto simp: map_add_def ups(1) fun_eq_iff split: option.split dest!: fsubsetD fmdom_notI)
    moreover have "bview b1 = (bview b0)\<lparr>v_dels := (v_dels (bview b0))(i := v_dels (bview b0) i \<union> set (deletes ch))\<rparr>"
      using b1 delete_law by (auto split: if_splits)
    ultimately show thesis
      using that [OF _ r] by (simp add: ups(3))
  next
    case False
    then have "dirty_leaves (ss_tree s) = {||}" "deleted_leaves (ss_tree s) = {||}"
      by (simp_all add: ss_has_pending_changes_def has_pending_changes_def)
    with False c that [of b] show thesis
      by (simp add: commit_subnet_def and_then_def)
  qed
  obtain b2 b3 where b2: "(if object_count s > 0 then batch_register_subnet ops b1 i else Inr b1) = Inr b2"
    and b3: "batch_put_subnet_root ops b2 i a (ss_root s) = Inr b3"
    and b4: "batch_set_last_anchor ops b3 i a = Inr b'"
    using rest by (auto simp: and_then_def split: sum.splits)
  have "bview b2 = (bview b1)\<lparr>v_regs := (if object_count s > 0 then insert i (v_regs (bview b1)) else v_regs (bview b1))\<rparr>"
    using b2 register_law by (auto split: if_splits)
  with root_law [OF b3] anchor_law [OF b4] b1 show ?thesis
    by (simp add: add_subnet_def)
qed

lemma commit_loop_view:
  "commit_loop ops a xs m b = (m', Inr b') \<Longrightarrow>
   \<forall>(i, s)\<in>set xs. dirty_leaves (ss_tree s) |\<subseteq>| fmdom (leaves (ss_tree s)) \<Longrightarrow>
   bview b' = fold (\<lambda>(i, s). add_subnet a i s) xs (bview b)"
proof (induction xs arbitrary: m b)
  case (Cons x xs)
  obtain i s where x: "x = (i, s)"
    by (rule prod.exhaust)
  obtain b1 where c: "commit_subnet ops a i s b = (settled s, Inr b1)"
    and r: "commit_loop ops a xs (fmupd i (settled s) m) b1 = (m', Inr b')"
    using Cons.prems(1) commit_subnet_state [of ops a i s b] x by (auto split: sum.splits prod.splits)
  have "bview b1 = add_subnet a i s (bview b)"
    using commit_subnet_view [of a i s b b1] c Cons.prems(2) x by simp
  with Cons.IH [OF r] Cons.prems(2) x show ?case
    by simp
qed simp

end

definition add_subnets :: "u64 \<Rightarrow> (subnet_id \<times> subnet_state_smt) list \<Rightarrow> batch_view \<Rightarrow> batch_view" where
  "add_subnets a xs v = fold (\<lambda>(i, s). add_subnet a i s) xs v"

lemma fold_add_subnet:
  assumes "distinct (map fst xs)"
  shows "v_puts (add_subnets a xs v) j = (case map_of xs j of None \<Rightarrow> v_puts v j | Some s \<Rightarrow>
      (\<lambda>k. if k |\<in>| dirty_leaves (ss_tree s) then fmlookup (leaves (ss_tree s)) k else v_puts v j k))"
    and "v_dels (add_subnets a xs v) j = (case map_of xs j of None \<Rightarrow> v_dels v j | Some s \<Rightarrow>
      v_dels v j \<union> fset (deleted_leaves (ss_tree s)))"
    and "j \<in> v_regs (add_subnets a xs v) \<longleftrightarrow> j \<in> v_regs v \<or> (\<exists>s. map_of xs j = Some s \<and> object_count s > 0)"
    and "v_anchors (add_subnets a xs v) j = (case map_of xs j of None \<Rightarrow> v_anchors v j | Some s \<Rightarrow> Some a)"
    and "v_roots (add_subnets a xs v) j = (case map_of xs j of None \<Rightarrow> v_roots v j | Some s \<Rightarrow> (v_roots v j)(a \<mapsto> ss_root s))"
proof -
  have absent: "map_of ys i = None" if "i \<notin> fst ` set ys" for ys :: "(subnet_id \<times> subnet_state_smt) list" and i
    using that by (simp add: map_of_eq_None_iff)
  show "v_puts (add_subnets a xs v) j = (case map_of xs j of None \<Rightarrow> v_puts v j | Some s \<Rightarrow>
      (\<lambda>k. if k |\<in>| dirty_leaves (ss_tree s) then fmlookup (leaves (ss_tree s)) k else v_puts v j k))"
    using assms unfolding add_subnets_def
    by (induction xs arbitrary: v) (auto simp: add_subnet_def absent split: option.split)
  show "v_dels (add_subnets a xs v) j = (case map_of xs j of None \<Rightarrow> v_dels v j | Some s \<Rightarrow>
      v_dels v j \<union> fset (deleted_leaves (ss_tree s)))"
    using assms unfolding add_subnets_def
    by (induction xs arbitrary: v) (auto simp: add_subnet_def absent split: option.split)
  show "j \<in> v_regs (add_subnets a xs v) \<longleftrightarrow> j \<in> v_regs v \<or> (\<exists>s. map_of xs j = Some s \<and> object_count s > 0)"
    using assms unfolding add_subnets_def
    by (induction xs arbitrary: v) (auto simp: add_subnet_def image_iff split: if_splits)
  show "v_anchors (add_subnets a xs v) j = (case map_of xs j of None \<Rightarrow> v_anchors v j | Some s \<Rightarrow> Some a)"
    using assms unfolding add_subnets_def
    by (induction xs arbitrary: v) (auto simp: add_subnet_def absent split: option.split)
  show "v_roots (add_subnets a xs v) j = (case map_of xs j of None \<Rightarrow> v_roots v j | Some s \<Rightarrow> (v_roots v j)(a \<mapsto> ss_root s))"
    using assms unfolding add_subnets_def
    by (induction xs arbitrary: v) (auto simp: add_subnet_def absent split: option.split)
qed

text \<open>The store holds the leaves of every tree and the roots of the subnets with objects.\<close>

definition persisted :: "store_view \<Rightarrow> (subnet_id, subnet_state_smt) fmap \<Rightarrow> bool" where
  "persisted v m \<longleftrightarrow>
     (\<forall>i. fmlookup (sleaves m i) = sv_leaf v i) \<and>
     (\<forall>i s. fmlookup m i = Some s \<longrightarrow>
        dirty_leaves (ss_tree s) = {||} \<and> deleted_leaves (ss_tree s) = {||} \<and>
        (object_count s > 0 \<longrightarrow> i \<in> sv_registered v \<and>
           (\<exists>a. sv_anchor v i = Some a \<and> sv_root v i a = Some (ss_root s))))"

lemma persistedD:
  "persisted v m \<Longrightarrow> fmlookup m i = Some s \<Longrightarrow> object_count s > 0 \<Longrightarrow>
   i \<in> sv_registered v \<and> (\<exists>a. sv_anchor v i = Some a \<and> sv_root v i a = Some (ss_root s))"
  by (simp add: persisted_def)

lemma persisted_tracks: "persisted v m \<Longrightarrow> tracking.holds E (sv_leaf v) m"
  unfolding tracking.holds_def persisted_def sleaves_def
  by (auto simp: tracks_def ss_new_def inc_new_def split: option.split) (metis option.case fmempty_lookup)+

context b4_backend
begin

lemma gsm_commit_ok:
  assumes st: "gs_store g = Some st" and tr: "tracking.holds E (sv_leaf (sview st)) (subnet_states g)"
    and c: "gsm_commit E ops g a = (g', Inr ())"
  shows "\<exists>st'. gs_store g' = Some st' \<and> persisted (sview st') (subnet_states g')"
    and "gleaves g' = gleaves g"
    and "states_ok E T (subnet_states g) \<Longrightarrow> states_ok E T (subnet_states g')"
proof -
  define m1 where "m1 = fmmap (\<lambda>s. ss_set_last_anchor s a) (subnet_states g)"
  obtain b m' b1 b2 st' where b: "begin_batch ops st = Inr b"
    and loop: "commit_loop ops a (entries m1) m1 b = (m', Inr b1)"
    and gr: "\<exists>h. batch_put_global_root ops b1 a h = Inr b2" and cb: "commit_batch ops st b2 = (Inr (), st')"
    and g': "gs_store g' = Some st'" "subnet_states g' = m'"
    using c st unfolding gsm_commit_def m1_def [symmetric]
    by (auto simp: Let_def split: sum.splits prod.splits) blast
  have lk: "fmlookup m' i = map_option settled (fmlookup m1 i)" for i
    using commit_loop_state [OF loop distinct_entries, of i] by (simp split: option.split)
  have tr1: "tracks (sv_leaf (sview st) i) (ss_tree s)" if lk1: "fmlookup m1 i = Some s" for i s
  proof -
    obtain s0 where "fmlookup (subnet_states g) i = Some s0" "s = ss_set_last_anchor s0 a"
      using lk1 by (auto simp: m1_def)
    with tr show ?thesis
      unfolding tracking.holds_def by (metis option.case(2) set_last_anchor_simps(3))
  qed
  have tr0: "sv_leaf (sview st) i k = None" if "fmlookup m1 i = None" for i k
  proof -
    have "fmlookup (subnet_states g) i = None"
      using that by (simp add: m1_def)
    then have "tracks (sv_leaf (sview st) i) (ss_tree (ss_new E i))"
      using tr unfolding tracking.holds_def by (metis option.case(1))
    then show ?thesis
      by (simp add: tracks_def ss_new_def inc_new_def)
  qed
  have "\<forall>(i, s)\<in>set (entries m1). dirty_leaves (ss_tree s) |\<subseteq>| fmdom (leaves (ss_tree s))"
    using tr1 unfolding tracks_def by fastforce
  from commit_loop_view [OF loop this] have v: "bview b2 = add_subnets a (entries m1) empty_batch_view"
    unfolding add_subnets_def using gr global_law begin_law [OF b] by metis
  note F = fold_add_subnet [where xs = "entries m1" and a = a and v = empty_batch_view,
      OF distinct_entries, folded v, unfolded map_of_entries]
  note sv = commit_law [OF cb]
  have leaf: "sv_leaf (sview st') i k = fmlookup (sleaves m' i) k" for i k
  proof (cases "fmlookup m1 i")
    case None
    then show ?thesis
      using tr0 [OF None] F(1,2) [of i] lk [of i] by (simp add: sv commit_view_def sleaves_def empty_batch_view_def)
  next
    case (Some s)
    note D = tracksD [OF tr1 [OF Some], of k]
    have p: "v_puts (bview b2) i k = (if k |\<in>| dirty_leaves (ss_tree s) then fmlookup (leaves (ss_tree s)) k else None)"
      and d: "k \<in> v_dels (bview b2) i \<longleftrightarrow> k |\<in>| deleted_leaves (ss_tree s)"
      using F(1,2) [of i] Some by (simp_all add: empty_batch_view_def)
    have "sleaves m' i = leaves (ss_tree s)"
      using lk [of i] Some by (simp add: sleaves_def)
    then show ?thesis
      using D by (cases "k |\<in>| deleted_leaves (ss_tree s)"; cases "k |\<in>| dirty_leaves (ss_tree s)")
        (auto simp: sv commit_view_def p d)
  qed
  have "i \<in> sv_registered (sview st') \<and> (\<exists>a. sv_anchor (sview st') i = Some a \<and> sv_root (sview st') i a = Some (ss_root s))"
    if s: "fmlookup m' i = Some s" "object_count s > 0" for i s
  proof -
    obtain s0 where s0: "fmlookup m1 i = Some s0" "s = settled s0"
      using s(1) lk [of i] by auto
    have "i \<in> v_regs (bview b2)"
      using F(3) [of i] s0 s(2) by simp
    moreover have "v_anchors (bview b2) i = Some a" "v_roots (bview b2) i a = Some (ss_root s)"
      using F(4,5) [of i] s0 by simp_all
    ultimately show ?thesis
      by (simp add: sv commit_view_def)
  qed
  then have "persisted (sview st') m'"
    using leaf lk by (auto simp: persisted_def fun_eq_iff)
  with g' show "\<exists>st'. gs_store g' = Some st' \<and> persisted (sview st') (subnet_states g')"
    by auto
  show "gleaves g' = gleaves g"
    using lk by (auto simp: g'(2) sleaves_def m1_def fun_eq_iff split: option.split)
  show "states_ok E T (subnet_states g')" if "states_ok E T (subnet_states g)"
    using that lk by (auto simp: g'(2) states_ok_def m1_def)
qed

end

section \<open>What recovery reads\<close>

fun insert_trace :: "(hash_value, bytes) fmap \<Rightarrow> (hash_value \<times> bytes) list \<Rightarrow> (hash_value, bytes) fmap list" where
  "insert_trace m [] = []"
| "insert_trace m ((k, v) # es) = fmupd k v m # insert_trace (fmupd k v m) es"

definition load_trace :: "(hash_value, bytes) fmap \<Rightarrow> (hash_value, bytes) fmap list" where
  "load_trace m = insert_trace fmempty (sort_key fst (entries m))"

lemma fold_insert_ok:
  assumes U: "hash_universe E T"
  shows "inc_ok E T t \<Longrightarrow> list_all (\<lambda>m. tree_of E m \<in> T) (insert_trace (leaves t) es) \<Longrightarrow>
    inc_ok E T (fold (\<lambda>(k, v) t. fst (insert_without_tracking E t k v)) es t) \<and>
    leaves (fold (\<lambda>(k, v) t. fst (insert_without_tracking E t k v)) es t) = fold (\<lambda>(k, v). fmupd k v) es (leaves t)"
proof (induction es arbitrary: t)
  case (Cons e es)
  obtain k v where e: "e = (k, v)"
    by (rule prod.exhaust)
  with Cons.prems insert_without_tracking_ok [OF U Cons.prems(1), of k v]
  show ?case
    using Cons.IH [of "fst (insert_without_tracking E t k v)"] by simp
qed simp

lemma fold_upd_entries: "fold (\<lambda>(k, v). fmupd k v) (sort_key fst (entries m)) fmempty = m"
proof (rule fmap_ext)
  fix k
  let ?es = "sort_key fst (entries m)"
  have "distinct (map fst ?es)"
    by (simp only: distinct_sort_key distinct_entries)
  moreover from this have "distinct (map fst (rev ?es))"
    by (simp only: rev_map [symmetric] distinct_rev)
  ultimately have "map_of (rev ?es) = map_of (entries m)"
    by (intro map_of_inject_set [THEN iffD2]) simp_all
  then show "fmlookup (fold (\<lambda>(k, v). fmupd k v) ?es fmempty) k = fmlookup m k"
    by (simp add: fmlookup_fold_upd map_of_entries split: option.split)
qed

lemma from_leaves_ok:
  assumes U: "hash_universe E T" and "list_all (\<lambda>m. tree_of E m \<in> T) (load_trace m)"
  shows "inc_ok E T (from_leaves E m)" and "leaves (from_leaves E m) = m"
  using fold_insert_ok [OF U inc_new_ok [OF U], of "sort_key fst (entries m)"] assms(2)
  by (simp_all add: from_leaves_def load_trace_def inc_new_def fold_upd_entries)

lemma fmlen_eq_0: "fmlen m = 0 \<longleftrightarrow> m = fmempty"
proof
  assume "fmlen m = 0"
  then have "fmdom m = {||}"
    by (simp add: fcard_0_eq)
  then have "fmlookup m k = None" for k
    by (simp add: fmdom_notD)
  then show "m = fmempty"
    by (intro fmap_ext) simp
qed (simp add: fcard_fempty)

lemma fmdom_ne: "m \<noteq> fmempty \<Longrightarrow> fmdom m \<noteq> {||}"
  using fmlen_eq_0 [of m] by (auto simp: fcard_fempty)

context b4_backend
begin

lemma recover_subnet_ok:
  assumes r: "recover_subnet E ops st i (g, r) = ((g1, r1), Inr u)"
    and L: "fmlookup L = sv_leaf (sview st) i"
  shows "L = fmempty \<Longrightarrow> g1 = g \<and> r1 = r"
    and "L \<noteq> fmempty \<Longrightarrow> \<exists>s. subnet_states g1 = fmupd i s (subnet_states g) \<and> ss_tree s = from_leaves E L \<and>
      ss_subnet_id s = i \<and> object_count s = of_nat (fmlen (leaves (from_leaves E L)))"
    and "(\<And>a h. sv_anchor (sview st) i = Some a \<Longrightarrow> sv_root (sview st) i a = Some h \<Longrightarrow>
      L \<noteq> fmempty \<Longrightarrow> h = root_hash (from_leaves E L)) \<Longrightarrow> root_mismatches r1 = root_mismatches r"
proof -
  obtain m where "load_all_leaves ops st i = Inr m"
    using r by (auto simp: recover_subnet_def split: sum.splits)
  with load_law L have ld: "load_all_leaves ops st i = Inr L"
    by (metis fmap_ext)
  show "L = fmempty \<Longrightarrow> g1 = g \<and> r1 = r"
    using r ld by (simp add: recover_subnet_def fcard_fempty)
  assume *: "L \<noteq> fmempty"
  then obtain oa where oa: "get_last_anchor ops st i = Inr oa"
    using r ld fmdom_ne [OF *] by (auto simp: recover_subnet_def Let_def split: sum.splits)
  show "\<exists>s. subnet_states g1 = fmupd i s (subnet_states g) \<and> ss_tree s = from_leaves E L \<and>
      ss_subnet_id s = i \<and> object_count s = of_nat (fmlen (leaves (from_leaves E L)))"
    using r ld fmdom_ne [OF *] oa
    by (auto simp: recover_subnet_def Let_def from_persisted_leaves_def ss_set_last_anchor_def
        put_subnet_def split: sum.splits option.splits if_splits)
next
  obtain m where "load_all_leaves ops st i = Inr m"
    using r by (auto simp: recover_subnet_def split: sum.splits)
  with load_law L have ld: "load_all_leaves ops st i = Inr L"
    by (metis fmap_ext)
  assume H: "\<And>a h. sv_anchor (sview st) i = Some a \<Longrightarrow> sv_root (sview st) i a = Some h \<Longrightarrow>
      L \<noteq> fmempty \<Longrightarrow> h = root_hash (from_leaves E L)"
  show "root_mismatches r1 = root_mismatches r"
  proof (cases "L = fmempty")
    case True
    then show ?thesis
      using r ld by (simp add: recover_subnet_def fcard_fempty)
  next
    case False
    have root: "ss_root (from_persisted_leaves E i L) = root_hash (from_leaves E L)"
      by (simp add: ss_root_def from_persisted_leaves_def Let_def)
    have "root_hash (from_leaves E L) = h"
      if "get_last_anchor ops st i = Inr (Some a)" "get_subnet_root ops st i a = Inr (Some h)" for a h
      using H [of a h] False last_anchor_law [OF that(1)] subnet_root_law [OF that(2)] by simp
    with r ld fmdom_ne [OF False] root show ?thesis
      by (auto simp: recover_subnet_def Let_def split: sum.splits option.splits if_splits)
  qed
qed

lemma recover_loop_ok:
  assumes L: "\<And>i. fmlookup (L i) = sv_leaf (sview st) i"
  shows "recover_loop E ops st is (g, r) = ((g1, r1), Inr u) \<Longrightarrow>
    (\<forall>i. (if i \<in> set is \<and> L i \<noteq> fmempty
      then \<exists>s. fmlookup (subnet_states g1) i = Some s \<and> ss_tree s = from_leaves E (L i) \<and> ss_subnet_id s = i \<and>
             object_count s = of_nat (fmlen (leaves (from_leaves E (L i))))
      else fmlookup (subnet_states g1) i = fmlookup (subnet_states g) i)) \<and>
    ((\<forall>i a h. sv_anchor (sview st) i = Some a \<longrightarrow> sv_root (sview st) i a = Some h \<longrightarrow>
      L i \<noteq> fmempty \<longrightarrow> h = root_hash (from_leaves E (L i))) \<longrightarrow> root_mismatches r1 = root_mismatches r)"
proof (induction "is" arbitrary: g r)
  case (Cons i "is")
  obtain g2 r2 u2 where r1: "recover_subnet E ops st i (g, r) = ((g2, r2), Inr u2)"
    and r2: "recover_loop E ops st is (g2, r2) = ((g1, r1), Inr u)"
    using Cons.prems by (auto split: prod.splits sum.splits)
  note IH = Cons.IH [OF r2] and S = recover_subnet_ok [OF r1 L]
  have "if j \<in> set (i # is) \<and> L j \<noteq> fmempty
      then \<exists>s. fmlookup (subnet_states g1) j = Some s \<and> ss_tree s = from_leaves E (L j) \<and> ss_subnet_id s = j \<and>
             object_count s = of_nat (fmlen (leaves (from_leaves E (L j))))
      else fmlookup (subnet_states g1) j = fmlookup (subnet_states g) j" for j
    using IH [THEN conjunct1, rule_format, of j] S(1,2)
    by (cases "j \<in> set is \<and> L j \<noteq> fmempty"; cases "L i = fmempty") auto
  moreover have "root_mismatches r1 = root_mismatches r"
    if "\<forall>i a h. sv_anchor (sview st) i = Some a \<longrightarrow> sv_root (sview st) i a = Some h \<longrightarrow>
      L i \<noteq> fmempty \<longrightarrow> h = root_hash (from_leaves E (L i))"
    using IH S(3) that by metis
  ultimately show ?case
    by blast
qed simp

end

lemma unat_of_nat_inv: "of_nat (unat x) = x" for x :: "'a::len word"
  by simp

context b4_backend
begin

lemma gsm_recover_ok:
  assumes U: "hash_universe E T" and ok: "states_ok E T m" and p: "persisted (sview st) m"
    and T: "\<And>i. list_all (\<lambda>m. tree_of E m \<in> T) (load_trace (sleaves m i))"
    and r: "gsm_recover E ops (with_store E st) = (g', Inr r)"
  shows "gleaves g' = sleaves m" and "root_mismatches r = 0"
    and "fmlookup m i = Some s \<Longrightarrow> leaves (ss_tree s) \<noteq> fmempty \<Longrightarrow>
      \<exists>s'. fmlookup (subnet_states g') i = Some s' \<and> ss_root s' = ss_root s \<and> object_count s' = object_count s"
proof -
  obtain "is" g1 r1 where regd: "list_registered_subnets ops st = Inr is"
    and loop: "recover_loop E ops st is (with_store E st, \<lparr>subnets_recovered = 0, total_leaves = 0, root_mismatches = 0\<rparr>)
      = ((g1, r1), Inr ())"
    and g': "g' = (if SubnetId_ROOT |\<in>| fmdom (subnet_states g1) then g1
        else put_subnet g1 SubnetId_ROOT (ss_new E SubnetId_ROOT))" and r1: "r = r1"
    using r by (auto simp: gsm_recover_def with_store_def Let_def split: sum.splits prod.splits)
  have L: "fmlookup (sleaves m i) = sv_leaf (sview st) i" for i
    using p by (simp add: persisted_def)
  have fl: "inc_ok E T (from_leaves E (sleaves m i))" "leaves (from_leaves E (sleaves m i)) = sleaves m i" for i
    using from_leaves_ok [OF U T] by blast+
  note R = recover_loop_ok [OF L loop]
  have nonempty: "i \<in> set is \<and> (\<exists>a. sv_anchor (sview st) i = Some a \<and> sv_root (sview st) i a = Some (ss_root s)) \<and>
      unat (object_count s) = fmlen (leaves (ss_tree s)) \<and> ss_root s = root_hash (from_leaves E (sleaves m i))"
    if "fmlookup m i = Some s" "leaves (ss_tree s) \<noteq> fmempty" for i s
  proof -
    have so: "subnet_ok E T i s"
      using ok that(1) by (simp add: states_ok_def)
    then have "object_count s > 0"
      using that(2) fmlen_eq_0 [of "leaves (ss_tree s)"] by (auto simp: subnet_ok_def word_gt_0)
    from persistedD [OF p that(1) this] registered_law [OF regd]
    have "i \<in> set is \<and> (\<exists>a. sv_anchor (sview st) i = Some a \<and> sv_root (sview st) i a = Some (ss_root s))"
      by simp
    moreover have "ss_root s = root_hash (from_leaves E (sleaves m i))"
      using so fl [of i] that(1) by (simp add: subnet_ok_def inc_ok_def ss_root_def sleaves_def)
    ultimately show ?thesis
      using so by (simp add: subnet_ok_def)
  qed
  have sub: "\<exists>s. fmlookup m i = Some s \<and> leaves (ss_tree s) \<noteq> fmempty \<and> leaves (ss_tree s) = sleaves m i"
    if "sleaves m i \<noteq> fmempty" for i
    using that by (auto simp: sleaves_def split: option.splits)
  have rec: "\<exists>s. fmlookup (subnet_states g1) i = Some s \<and> ss_tree s = from_leaves E (sleaves m i) \<and>
      object_count s = of_nat (fmlen (sleaves m i))" if "sleaves m i \<noteq> fmempty" for i
    using R [THEN conjunct1, rule_format, of i] nonempty sub [OF that] that fl(2) [of i] by auto
  have old: "fmlookup (subnet_states g1) i = fmlookup (subnet_states (with_store E st)) i" if "sleaves m i = fmempty" for i
    using R [THEN conjunct1, rule_format, of i] that by auto
  have g1: "gleaves g1 i = sleaves m i" for i
  proof (cases "sleaves m i = fmempty")
    case True
    then show ?thesis
      using old [OF True] by (auto simp: sleaves_def with_store_def gsm_new_def ss_new_def inc_new_def split: option.splits)
  next
    case False
    then show ?thesis
      using rec [OF False] fl(2) [of i] by (auto simp: sleaves_def)
  qed
  have "SubnetId_ROOT |\<in>| fmdom (subnet_states g1)"
    using rec [of SubnetId_ROOT] old [of SubnetId_ROOT]
    by (cases "sleaves m SubnetId_ROOT = fmempty") (auto simp: with_store_def gsm_new_def intro: fmdomI)
  then have gg: "g' = g1"
    using g' by simp
  show "gleaves g' = sleaves m"
    using g1 gg by auto
  show "root_mismatches r = 0"
  proof -
    have "h = root_hash (from_leaves E (sleaves m i))"
      if "sv_anchor (sview st) i = Some a" "sv_root (sview st) i a = Some h" "sleaves m i \<noteq> fmempty" for i a h
      using sub [OF that(3)] nonempty that(1,2) by fastforce
    then show ?thesis
      using R [THEN conjunct2] r1 by simp
  qed
  show "\<exists>s'. fmlookup (subnet_states g') i = Some s' \<and> ss_root s' = ss_root s \<and> object_count s' = object_count s"
    if s: "fmlookup m i = Some s" "leaves (ss_tree s) \<noteq> fmempty"
  proof -
    have e: "sleaves m i = leaves (ss_tree s)"
      using s(1) by (simp add: sleaves_def)
    then obtain s' where "fmlookup (subnet_states g') i = Some s'" "ss_tree s' = from_leaves E (sleaves m i)"
        "object_count s' = of_nat (fmlen (sleaves m i))"
      using rec [of i] s(2) gg by auto
    moreover have "object_count s = of_nat (fmlen (leaves (ss_tree s)))"
      using nonempty [OF s] unat_of_nat_inv [of "object_count s"] by simp
    ultimately show ?thesis
      using nonempty [OF s] e by (simp add: ss_root_def)
  qed
qed

end

section \<open>The in-memory backend never fails\<close>

lemma mem_commit_subnet: "\<exists>b'. commit_subnet mem_b4 a i s b = (settled s, Inr b')"
  using commit_subnet_state [of mem_b4 a i s b]
  by (cases "commit_subnet mem_b4 a i s b")
    (auto simp: commit_subnet_def and_then_def Let_def mem_b4_def mem_put_leaves_to_batch_def mem_delete_leaves_to_batch_def
      mem_batch_register_subnet_def mem_batch_set_last_anchor_def mem_batch_put_subnet_root_def
      split: if_splits prod.splits option.splits)

lemma mem_commit_loop: "\<exists>m' b'. commit_loop mem_b4 a xs m b = (m', Inr b')"
proof (induction xs arbitrary: m b)
  case (Cons x xs)
  obtain i s where x: "x = (i, s)"
    by (rule prod.exhaust)
  obtain b1 where "commit_subnet mem_b4 a i s b = (settled s, Inr b1)"
    using mem_commit_subnet by blast
  with Cons [of "fmupd i (settled s) m" b1] x show ?case
    by simp
qed simp

lemma mem_b4_simps:
  "begin_batch mem_b4 st = Inr batch_default"
  "batch_put_global_root mem_b4 b a h = Inr (b\<lparr>b_global_roots := b_global_roots b @ [(a, h)]\<rparr>)"
  "commit_batch mem_b4 st b = (Inr (), snd (ms_commit_batch st b))"
  "list_registered_subnets mem_b4 st = Inr (ms_list_registered_subnets st)"
  by (simp_all add: mem_b4_def mem_batch_put_global_root_def ms_commit_batch_def)

lemma mem_commit: "\<exists>g'. gsm_commit E mem_b4 g a = (g', Inr ())"
proof (cases "gs_store g")
  case (Some st)
  let ?m = "fmmap (\<lambda>s. ss_set_last_anchor s a) (subnet_states g)"
  obtain m' b' where "commit_loop mem_b4 a (entries ?m) ?m batch_default = (m', Inr b')"
    using mem_commit_loop by blast
  then show ?thesis
    using Some by (simp add: gsm_commit_def Let_def mem_b4_simps)
qed (simp add: gsm_commit_def Let_def)

lemma mem_recover: "\<exists>g' r. gsm_recover E mem_b4 g = (g', Inr r)"
proof -
  have sub: "\<exists>gr'. recover_subnet E mem_b4 st i gr = (gr', Inr ())" for st i gr
    by (cases gr) (simp add: recover_subnet_def mem_b4_def Let_def)
  have loop: "\<exists>gr'. recover_loop E mem_b4 st is gr = (gr', Inr ())" for st "is" gr
  proof (induction "is" arbitrary: gr)
    case (Cons i "is")
    obtain gr1 where "recover_subnet E mem_b4 st i gr = (gr1, Inr ())"
      using sub by blast
    with Cons [of gr1] show ?case
      by simp
  qed simp
  show ?thesis
  proof (cases "gs_store g")
    case (Some st)
    obtain gr where "recover_loop E mem_b4 st (ms_list_registered_subnets st)
        (g, \<lparr>subnets_recovered = 0, total_leaves = 0, root_mismatches = 0\<rparr>) = (gr, Inr ())"
      using loop by blast
    with Some show ?thesis
      by (cases gr) (simp add: gsm_recover_def Let_def mem_b4_simps)
  qed (simp add: gsm_recover_def Let_def)
qed

section \<open>Commit, restart, recover\<close>

lemma store_index [simp]:
  "gs_store (index_value E de i v g) = gs_store g"
  "gs_store (update_indexes_for_value E de g i v key) = gs_store g"
  "gs_store (remove_from_indexes_for_value E de g i v) = gs_store g"
  "gs_store (record_modification g e i d) = gs_store g"
  "gs_store (put_subnet g i s) = gs_store g"
  "gs_store (fst (get_subnet_mut E g i)) = gs_store g"
  by (auto simp: index_value_def update_indexes_for_value_def remove_from_indexes_for_value_def put_subnet_def
      record_modification_def get_subnet_mut_def Let_def split: option.splits prod.splits)

lemma store_get_subnet_mut: "get_subnet_mut E g i = (g1, s) \<Longrightarrow> gs_store g1 = gs_store g"
  using store_index(6) [of E g i] by simp

lemma store_apply_state_change:
  "apply_state_change E de g i c = Some (g', r) \<Longrightarrow> gs_store g' = gs_store g"
  by (auto simp: apply_state_change_def Let_def split: option.splits prod.splits dest!: store_get_subnet_mut)

lemma store_apply_changes: "apply_changes E de i cs g = Some g' \<Longrightarrow> gs_store g' = gs_store g"
  by (induction cs arbitrary: g) (auto split: option.splits dest!: store_apply_state_change)

lemma store_find_conflict: "gs_store (fst (find_conflict E i cs pw g)) = gs_store g"
proof (induction cs arbitrary: pw g)
  case (Cons c cs)
  obtain g1 s where gs: "get_subnet_mut E g (change_target i c) = (g1, s)"
    by (rule prod.exhaust)
  with Cons store_get_subnet_mut [OF gs] show ?case
    by (auto simp: Let_def split: option.split)
qed simp

lemma store_apply_event: "apply_event E de d e (g, m) = Some (g', m') \<Longrightarrow> gs_store g' = gs_store g"
proof -
  have fc: "gs_store g1 = gs_store g" if "find_conflict E i cs pw g = (g1, conf)" for i cs pw g1 conf
    using store_find_conflict [of E i cs pw g] that by simp
  have fold: "gs_store (fold (\<lambda>c g. record_modification g e (f c) d) cs g) = gs_store g"
    for e d cs and f :: "event_state_change \<Rightarrow> object_id" and g :: "'a gsm"
    by (induction cs arbitrary: g) simp_all
  show "apply_event E de d e (g, m) = Some (g', m') \<Longrightarrow> gs_store g' = gs_store g"
    by (auto simp: apply_event_def apply_execution_result_def Let_def fold split: option.splits if_splits prod.splits
        dest!: fc store_apply_changes store_get_subnet_mut)
qed

lemma store_apply_events: "apply_events E de d es (g, m) = Some (g', m') \<Longrightarrow> gs_store g' = gs_store g"
  by (induction es arbitrary: g m) (auto split: option.splits dest!: store_apply_event)

lemma store_apply_committed_events:
  "apply_committed_events E de g es d = Some (g', m, ns) \<Longrightarrow> gs_store g' = gs_store g"
  by (auto simp: apply_committed_events_def Let_def split: option.splits prod.splits dest!: store_apply_events)

fun anchor_run ::
  "ext \<Rightarrow> (bytes \<Rightarrow> object_envelope option) \<Rightarrow> ('s, 'b) b4_store \<Rightarrow> (event list \<times> u64) list \<Rightarrow> 's gsm \<Rightarrow> 's gsm option" where
  "anchor_run E de ops [] g = Some g"
| "anchor_run E de ops ((es, a) # bs) g =
     (case process_anchor E de ops g es 0 0 a of
        None \<Rightarrow> None
      | Some (g1, _) \<Rightarrow> anchor_run E de ops bs g1)"

text \<open>The subnets that a list of batches may write to.\<close>

definition touched :: "ext \<Rightarrow> (event list \<times> u64) list \<Rightarrow> subnet_id list" where
  "touched E bs = remdups (map fst (concat (map (event_writes E) (concat (map fst bs)))))"

lemma run_writes_untouched: "i \<notin> fst ` set ws \<Longrightarrow> run_writes L ws i = L i"
  by (induction L ws rule: run_writes.induct) (auto simp: lput_def)

lemma ledger_events_untouched:
  "\<forall>e\<in>set es. i \<notin> fst ` set (event_writes E e) \<Longrightarrow> ledger_events E es L i = L i"
  by (induction es arbitrary: L) (simp_all add: ledger_event_def run_writes_untouched)

lemma ledger_run_untouched: "i \<notin> set (touched E bs) \<Longrightarrow> ledger_run E bs L i = L i"
proof (induction E bs L rule: ledger_run.induct)
  case (2 E es d bs L)
  then have "ledger_batch E es L i = L i"
    unfolding ledger_batch_def by (intro ledger_events_untouched) (auto simp: touched_def)
  with 2 show ?case
    by (auto simp: touched_def)
qed simp

lemma process_anchor_ok:
  assumes U: "hash_universe E T" and ok: "states_ok E T (subnet_states g)"
    and st: "gs_store g = Some st" "persisted (mem_sview st) (subnet_states g)"
    and T: "list_all (fits E T) (events_trace E (sort_key vlc_order es) (gleaves g))"
  shows "\<exists>g' res st'. process_anchor E de mem_b4 g es er acr a = Some (g', Inr res) \<and>
    states_ok E T (subnet_states g') \<and> gs_store g' = Some st' \<and> persisted (mem_sview st') (subnet_states g') \<and>
    gleaves g' = ledger_batch E es (gleaves g)"
proof -
  obtain g1 m ns where ap: "apply_committed_events E de g es a = Some (g1, m, ns)"
      "states_ok E T (subnet_states g1)" "gleaves g1 = ledger_batch E es (gleaves g)"
    using apply_committed_events_ok [OF U ok T, of de a] by blast
  have st1: "gs_store g1 = Some st"
    using store_apply_committed_events [OF ap(1)] st(1) by simp
  have tr: "tracking.holds E (sv_leaf (mem_sview st)) (subnet_states g1)"
    by (rule tracking.holds_apply_committed_events [OF persisted_tracks [OF st(2)] ap(1)])
  obtain g2 where c: "gsm_commit E mem_b4 g1 a = (g2, Inr ())"
    using mem_commit by blast
  note C = mem_backend.gsm_commit_ok [OF st1 tr c]
  show ?thesis
    using C(1) C(2) C(3) [OF ap(2)] ap c by (auto simp: process_anchor_def Let_def)
qed

lemma anchor_run_ok:
  assumes U: "hash_universe E T"
  shows "states_ok E T (subnet_states g) \<Longrightarrow> gs_store g = Some st \<Longrightarrow> persisted (mem_sview st) (subnet_states g)
    \<Longrightarrow> list_all (fits E T) (batches_trace E bs (gleaves g)) \<Longrightarrow>
    \<exists>g' st'. anchor_run E de mem_b4 bs g = Some g' \<and> states_ok E T (subnet_states g') \<and> gs_store g' = Some st' \<and>
      persisted (mem_sview st') (subnet_states g') \<and> gleaves g' = ledger_run E bs (gleaves g)"
proof (induction bs arbitrary: g st)
  case (Cons b bs)
  obtain es a where b: "b = (es, a)"
    by (rule prod.exhaust)
  then obtain g1 res st1 where "process_anchor E de mem_b4 g es 0 0 a = Some (g1, Inr res)"
      "states_ok E T (subnet_states g1)" "gs_store g1 = Some st1" "persisted (mem_sview st1) (subnet_states g1)"
      "gleaves g1 = ledger_batch E es (gleaves g)"
    using process_anchor_ok [OF U Cons.prems(1,2,3), of es de 0 0 a] Cons.prems(4) by auto
  with b Cons.IH [of g1 st1] Cons.prems(4) show ?case
    by simp
qed simp

lemma with_store_new:
  "subnet_states (with_store E st) = subnet_states (gsm_new E :: 's gsm)" "gs_store (with_store E st) = Some st"
  for st :: 's
  by (simp_all add: with_store_def gsm_new_def)

lemma persisted_new: "persisted (mem_sview ms_new) (subnet_states (gsm_new E))"
  by (auto simp: persisted_def mem_sview_def ms_new_def gsm_new_def sleaves_def ss_new_def inc_new_def fun_eq_iff
      split: if_splits)

definition final_ledger :: "ext \<Rightarrow> (event list \<times> u64) list \<Rightarrow> ledger" where
  "final_ledger E bs = ledger_run E bs empty_ledger"

text \<open>
  C11: a restart loses nothing. After any sequence of anchors over the in-memory store, a manager that
  recovers from the store has the same leaves in every subnet, the same root and object count for
  every subnet that holds objects, and finds no root mismatch. The hash function is assumed not to
  collide on the nodes of the trees that the run and the recovery pass through.
\<close>

theorem recovery_restores_state:
  assumes "collision_free E (state_bytes E (batches_trace E bs empty_ledger @ concat (map (load_trace \<circ> final_ledger E bs) (touched E bs))))"
    and "list_all small (batches_trace E bs empty_ledger)"
  shows "\<exists>g st g' r. anchor_run E de mem_b4 bs (with_store E ms_new) = Some g \<and> gs_store g = Some st \<and>
    gsm_recover E mem_b4 (with_store E st) = (g', Inr r) \<and> root_mismatches r = 0 \<and>
    gleaves g = final_ledger E bs \<and> gleaves g' = final_ledger E bs \<and>
    (\<forall>i s. get_subnet g i = Some s \<longrightarrow> final_ledger E bs i \<noteq> fmempty \<longrightarrow>
       (\<exists>s'. get_subnet g' i = Some s' \<and> ss_root s' = ss_root s \<and> object_count s' = object_count s))"
proof -
  define L where "L = final_ledger E bs"
  define T where "T = set (state_trees E (batches_trace E bs empty_ledger @ concat (map (load_trace \<circ> L) (touched E bs))))"
  have U: "hash_universe E T"
    unfolding T_def by (rule state_trees_universe [OF assms(1), folded L_def])
  have inT: "tree_of E m \<in> T"
    if "m \<in> set (batches_trace E bs empty_ledger @ concat (map (load_trace \<circ> L) (touched E bs)))" for m
    using that unfolding T_def state_trees_def by fastforce
  have "list_all (fits E T) (batches_trace E bs empty_ledger)"
    using assms(2) inT by (simp add: list_all_iff fits_def small_def)
  then obtain g st where g: "anchor_run E de mem_b4 bs (with_store E ms_new) = Some g" "states_ok E T (subnet_states g)"
      "gs_store g = Some st" "persisted (mem_sview st) (subnet_states g)" "gleaves g = L"
    using anchor_run_ok [OF U, of "with_store E ms_new" ms_new bs de]
    unfolding with_store_new L_def final_ledger_def by (auto simp: persisted_new gsm_new_ok [OF U])
  obtain g' r where r: "gsm_recover E mem_b4 (with_store E st) = (g', Inr r)"
    using mem_recover by blast
  have "list_all (\<lambda>m. tree_of E m \<in> T) (load_trace (gleaves g i))" for i
  proof (cases "i \<in> set (touched E bs)")
    case True
    then show ?thesis
      unfolding g(5) list_all_iff by (intro ballI inT) auto
  next
    case False
    then have "L i = fmempty"
      unfolding L_def final_ledger_def by (simp add: ledger_run_untouched empty_ledger_def)
    then show ?thesis
      by (simp add: g(5) load_trace_def sorted_list_of_fmap_def sorted_list_of_fset.rep_eq)
  qed
  note R = mem_backend.gsm_recover_ok [OF U g(2,4) this r]
  have "\<exists>s'. get_subnet g' i = Some s' \<and> ss_root s' = ss_root s \<and> object_count s' = object_count s"
    if s: "get_subnet g i = Some s" "L i \<noteq> fmempty" for i s
  proof -
    have "leaves (ss_tree s) \<noteq> fmempty"
      using s g(5) by (auto simp: get_subnet_def sleaves_def)
    with R(3) [of i s] s(1) show ?thesis
      by (simp add: get_subnet_def)
  qed
  with g(1,3,5) r R(1,2) show ?thesis
    unfolding L_def [symmetric] by fastforce
qed

lemma sample_touched: "touched ledger_ext sample_batches = [SubnetId_ROOT]"
  by (simp add: touched_def sample_batch_defs SubnetId_ROOT_def)

lemma sample_final: "final_ledger ledger_ext sample_batches SubnetId_ROOT = fmupd high_key [6] (fmupd 0 [4] fmempty)"
proof -
  have "fmupd 0 [4] (fmupd 0 [10] fmempty) = fmupd 0 [4] (fmempty :: (hash_value, bytes) fmap)"
    by (rule fmap_ext) simp
  then show ?thesis
    by (simp add: final_ledger_def sample_batch_defs)
qed

lemma sample_load: "load_trace (fmupd high_key [6] (fmupd 0 [4] fmempty))
   = [fmupd 0 [4] fmempty, fmupd high_key [6] (fmupd 0 [4] fmempty)]"
proof -
  have "entries (fmupd high_key [6] (fmupd 0 [4] fmempty) :: (hash_value, bytes) fmap) = [(0, [4]), (high_key, [6])]"
    by (simp add: sorted_list_of_fmap_def sorted_list_of_fset.rep_eq)
  then show ?thesis
    by (simp add: load_trace_def)
qed

lemma sample_recovery_collision_free:
  "collision_free ledger_ext (state_bytes ledger_ext
     (batches_trace ledger_ext sample_batches empty_ledger @
      concat (map (load_trace \<circ> final_ledger ledger_ext sample_batches) (touched ledger_ext sample_batches))))"
  unfolding sample_trace sample_touched list.map comp_apply sample_final sample_load concat.simps append_Nil2
  by code_simp

theorem recovery_restores_state_witness:
  "\<exists>g st g' r. anchor_run ledger_ext (\<lambda>_. None) mem_b4 sample_batches (with_store ledger_ext ms_new) = Some g \<and>
     gs_store g = Some st \<and> gsm_recover ledger_ext mem_b4 (with_store ledger_ext st) = (g', Inr r) \<and>
     root_mismatches r = 0 \<and> fmlookup (gleaves g' SubnetId_ROOT) 0 = Some [4] \<and>
     fmlookup (gleaves g' SubnetId_ROOT) high_key = Some [6]"
  using recovery_restores_state [OF sample_recovery_collision_free sample_small, of "\<lambda>_. None"]
    sample_final by fastforce

end
