(* ===== verification/Commit_Faults.thy ===== *)
theory Commit_Faults
  imports Recovery
begin

text \<open>
  Two defects of persistence, proved of the code as it is: a commit whose write fails forgets the
  changes it was about to write, and a restart forgets the subnets that hold no object although the
  global root covers them.
\<close>

section \<open>A commit that fails\<close>

text \<open>The in-memory store behind a write that fails and changes nothing.\<close>

definition failing_b4 :: "(merkle_store, in_memory_batch) b4_store" where
  "failing_b4 = mem_b4\<lparr>commit_batch := \<lambda>st b. (Inl (StorageError ''write failed''), st)\<rparr>"

lemma failing_b4_simps:
  "begin_batch failing_b4 st = Inr batch_default"
  "batch_put_global_root failing_b4 b a h = Inr (b\<lparr>b_global_roots := b_global_roots b @ [(a, h)]\<rparr>)"
  "commit_batch failing_b4 st b = (Inl (StorageError ''write failed''), st)"
  by (simp_all add: failing_b4_def mem_b4_simps)

lemma failing_b4_batch:
  "put_leaves_to_batch failing_b4 = put_leaves_to_batch mem_b4"
  "delete_leaves_to_batch failing_b4 = delete_leaves_to_batch mem_b4"
  "batch_register_subnet failing_b4 = batch_register_subnet mem_b4"
  "batch_put_subnet_root failing_b4 = batch_put_subnet_root mem_b4"
  "batch_set_last_anchor failing_b4 = batch_set_last_anchor mem_b4"
  by (simp_all add: failing_b4_def)

lemma commit_loop_failing: "commit_loop failing_b4 a xs m b = commit_loop mem_b4 a xs m b"
proof -
  have "commit_subnet failing_b4 = commit_subnet mem_b4"
    unfolding commit_subnet_def failing_b4_batch by (rule refl)
  then show ?thesis
    by (induction xs arbitrary: m b) (auto split: sum.splits prod.splits)
qed

definition no_changes :: "(subnet_id, subnet_state_smt) fmap \<Rightarrow> bool" where
  "no_changes m \<longleftrightarrow> (\<forall>i s. fmlookup m i = Some s \<longrightarrow>
     dirty_leaves (ss_tree s) = {||} \<and> deleted_leaves (ss_tree s) = {||})"

context b4_backend
begin

lemma commit_loop_no_changes:
  assumes l: "commit_loop ops a (entries m) m b = (m', Inr b')"
  shows "no_changes m'" and "sleaves m' = sleaves m"
  using commit_loop_state [OF l distinct_entries]
  by (auto simp: no_changes_def sleaves_def fun_eq_iff map_of_entries split: option.splits)

lemma commit_without_changes:
  assumes st: "gs_store g = Some st" and n: "no_changes (subnet_states g)"
    and c: "gsm_commit E ops g a = (g', Inr ())" and st': "gs_store g' = Some st'"
  shows "sv_leaf (sview st') = sv_leaf (sview st)" and "gleaves g' = gleaves g"
proof -
  define m1 where "m1 = fmmap (\<lambda>s. ss_set_last_anchor s a) (subnet_states g)"
  obtain b m' b1 b2 where b: "begin_batch ops st = Inr b"
    and loop: "commit_loop ops a (entries m1) m1 b = (m', Inr b1)"
    and gr: "\<exists>h. batch_put_global_root ops b1 a h = Inr b2" and cb: "commit_batch ops st b2 = (Inr (), st')"
    and g': "subnet_states g' = m'"
    using c st st' unfolding gsm_commit_def m1_def [symmetric]
    by (auto simp: Let_def split: sum.splits prod.splits) blast
  have n1: "no_changes m1"
    using n by (auto simp: no_changes_def m1_def)
  then have "\<forall>(i, s)\<in>set (entries m1). dirty_leaves (ss_tree s) |\<subseteq>| fmdom (leaves (ss_tree s))"
    by (auto simp: no_changes_def)
  from commit_loop_view [OF loop this] have v: "bview b2 = add_subnets a (entries m1) empty_batch_view"
    unfolding add_subnets_def using gr global_law begin_law [OF b] by metis
  have "v_puts (bview b2) i = (\<lambda>_. None)" "v_dels (bview b2) i = {}" for i
    using n1 fold_add_subnet(1,2) [where xs = "entries m1" and a = a and v = empty_batch_view and j = i,
        OF distinct_entries, folded v, unfolded map_of_entries]
    by (auto simp: no_changes_def empty_batch_view_def split: option.splits)
  then show "sv_leaf (sview st') = sv_leaf (sview st)"
    by (simp add: commit_law [OF cb] commit_view_def)
  show "gleaves g' = gleaves g"
    using commit_loop_no_changes(2) [OF loop] by (auto simp: g' sleaves_def m1_def fun_eq_iff split: option.split)
qed

end

text \<open>
  C37: a commit that fails loses the changes it was about to write. The dirty and deleted leaves are
  taken out of the trees before the batch is committed and are not put back, so the next commit, which
  succeeds, writes no leaf at all: the store holds the leaves it held before, while the trees hold
  the new ones.
\<close>

theorem failed_commit_loses_changes:
  assumes st: "gs_store g = Some st"
    and f: "gsm_commit E failing_b4 g a = (g1, Inl e)"
    and c: "gsm_commit E mem_b4 g1 b = (g2, Inr ())" and st2: "gs_store g2 = Some st2"
  shows "gleaves g2 = gleaves g \<and> ms_load_all_leaves st2 i = ms_load_all_leaves st i"
proof -
  define m1 where "m1 = fmmap (\<lambda>s. ss_set_last_anchor s a) (subnet_states g)"
  obtain m' b1 where loop: "commit_loop mem_b4 a (entries m1) m1 batch_default = (m', Inr b1)"
    using mem_commit_loop by blast
  have g1: "gs_store g1 = Some st" "subnet_states g1 = m'"
    using f st loop unfolding gsm_commit_def m1_def [symmetric]
    by (auto simp: Let_def commit_loop_failing failing_b4_simps)
  note N = mem_backend.commit_loop_no_changes [OF loop]
  note W = mem_backend.commit_without_changes [OF g1(1) N(1) [folded g1(2)] c st2]
  have "gleaves g1 = gleaves g"
    using N(2) by (auto simp: g1(2) sleaves_def m1_def fun_eq_iff split: option.split)
  moreover have "ms_load_all_leaves st2 i = ms_load_all_leaves st i"
    using W(1) by (intro fmap_ext) (simp add: fmlookup_load_all_leaves mem_sview_def fun_eq_iff)
  ultimately show ?thesis
    using W(2) by simp
qed

lemma failing_commit:
  assumes "gs_store g = Some st"
  shows "\<exists>g1 e. gsm_commit E failing_b4 g a = (g1, Inl e) \<and> gs_store g1 = Some st"
proof -
  let ?m = "fmmap (\<lambda>s. ss_set_last_anchor s a) (subnet_states g)"
  obtain m' b' where "commit_loop mem_b4 a (entries ?m) ?m batch_default = (m', Inr b')"
    using mem_commit_loop by blast
  then show ?thesis
    using assms by (simp add: gsm_commit_def Let_def commit_loop_failing failing_b4_simps)
qed

theorem failed_commit_loses_changes_witness:
  "\<exists>g1 e g2 st2.
     gsm_commit ledger_ext failing_b4 (fst (upsert_object ledger_ext (with_store ledger_ext ms_new) SubnetId_ROOT 0 [7])) 1
       = (g1, Inl e) \<and>
     gsm_commit ledger_ext mem_b4 g1 2 = (g2, Inr ()) \<and> gs_store g2 = Some st2 \<and>
     fmlookup (gleaves g2 SubnetId_ROOT) 0 = Some [7] \<and> ms_load_all_leaves st2 SubnetId_ROOT = fmempty"
proof -
  define g where "g = fst (upsert_object ledger_ext (with_store ledger_ext ms_new) SubnetId_ROOT 0 [7])"
  have g: "gs_store g = Some ms_new" "fmlookup (gleaves g SubnetId_ROOT) 0 = Some [7]"
    by (simp_all add: g_def upsert_object_def with_store_def get_subnet_mut_def gsm_new_def put_subnet_def
        ss_upsert_def Let_def inc_insert_conv insert_without_tracking_def sleaves_def ss_new_def inc_new_def
        split: prod.split)
  obtain g1 e where g1: "gsm_commit ledger_ext failing_b4 g 1 = (g1, Inl e)" "gs_store g1 = Some ms_new"
    using failing_commit [OF g(1)] by blast
  obtain g2 where g2: "gsm_commit ledger_ext mem_b4 g1 2 = (g2, Inr ())"
    using mem_commit by blast
  obtain st2 where st2: "gs_store g2 = Some st2"
    using g2 g1(2) by (auto simp: gsm_commit_def Let_def split: sum.splits prod.splits)
  have "ms_load_all_leaves ms_new SubnetId_ROOT = fmempty"
    by (intro fmap_ext) (simp add: fmlookup_load_all_leaves ms_new_def)
  with failed_commit_loses_changes [OF g(1) g1(1) g2 st2, of SubnetId_ROOT] g(2) g1(1) g2 st2 show ?thesis
    unfolding g_def [symmetric] by auto
qed

section \<open>A restart with an empty subnet\<close>


context b4_backend
begin

lemma recover_loop_skips:
  "sv_leaf (sview st) i = Map.empty \<Longrightarrow> recover_loop E ops st is gr = (gr', Inr ()) \<Longrightarrow>
   fmlookup (subnet_states (fst gr')) i = fmlookup (subnet_states (fst gr)) i"
proof (induction "is" arbitrary: gr)
  case (Cons j js)
  obtain gr1 where s: "recover_subnet E ops st j gr = (gr1, Inr ())" and l: "recover_loop E ops st js gr1 = (gr', Inr ())"
    using Cons.prems(2) by (auto split: prod.splits sum.splits)
  have "fmlen m = 0" if "load_all_leaves ops st i = Inr m" for m
    using load_law [OF that] Cons.prems(1) by (auto simp: fmlen_eq_0 intro: fmap_ext)
  then have "fmlookup (subnet_states (fst gr1)) i = fmlookup (subnet_states (fst gr)) i"
    using s by (cases "i = j") (auto simp: recover_subnet_def Let_def split: prod.splits sum.splits if_splits option.splits)
  with Cons.IH [OF Cons.prems(1) l] show ?case
    by simp
qed simp

lemma recover_skips:
  assumes "sv_leaf (sview st) i = Map.empty" "gsm_recover E ops (with_store E st) = (g', Inr r)"
    and "i \<noteq> SubnetId_ROOT" "i \<noteq> SubnetId_GOVERNANCE"
  shows "fmlookup (subnet_states g') i = None"
proof -
  obtain "is" gr r0 where l: "recover_loop E ops st is (with_store E st, r0) = (gr, Inr ())"
    and g': "g' = (if SubnetId_ROOT |\<in>| fmdom (subnet_states (fst gr)) then fst gr
      else put_subnet (fst gr) SubnetId_ROOT (ss_new E SubnetId_ROOT))"
    using assms(2) by (auto simp: gsm_recover_def with_store_new Let_def split: sum.splits prod.splits)
  have "fmlookup (subnet_states (fst gr)) i = None"
    using recover_loop_skips [OF assms(1) l] assms(3,4) by (simp add: with_store_new gsm_new_def)
  with assms(3) show ?thesis
    by (simp add: g')
qed

end






end
