(* ===== verification/Anchor_Agreement.thy ===== *)
theory Anchor_Agreement
  imports Anchor_Builder Commit_Faults
begin

text \<open>
  The proposer of a frame and the validators that follow it compute the same state.

  The locale \<open>subnet_simulation\<close> is the binary counterpart of \<open>subnet_invariant\<close>: a relation between
  the trees of two nodes that insertion and removal of leaves keep, and that determines what is
  read. It lifts to the application of finalized events, whatever the depth that is recorded, the
  indexes and the store. Being equal up to the change tracking is such a relation; it holds
  between a manager and its clone.
\<close>

section \<open>Simulations between managers\<close>

locale subnet_simulation =
  fixes E :: ext and R :: "subnet_state_smt \<Rightarrow> subnet_state_smt \<Rightarrow> bool"
  assumes new: "R (ss_new E i) (ss_new E i)"
    and get: "R s t \<Longrightarrow> ss_get s k = ss_get t k"
    and root: "R s t \<Longrightarrow> ss_root s = ss_root t"
    and upsert: "R s t \<Longrightarrow> rel_prod R (=) (ss_upsert E s k v) (ss_upsert E t k v)"
    and delete: "R s t \<Longrightarrow> rel_option (rel_prod R (=)) (ss_delete E s k) (ss_delete E t k)"
begin

definition sim :: "'s gsm \<Rightarrow> 't gsm \<Rightarrow> bool" where
  "sim g h \<longleftrightarrow> fmrel R (subnet_states g) (subnet_states h)"

lemma sim_upd: "sim g h \<Longrightarrow> R s t \<Longrightarrow> sim (put_subnet g i s) (put_subnet h i t)"
  by (simp add: sim_def fmrel_upd)

lemma sim_lookup: "sim g h \<Longrightarrow> rel_option R (fmlookup (subnet_states g) i) (fmlookup (subnet_states h) i)"
  unfolding sim_def by (rule fmrelD)

lemma sim_states: "subnet_states g' = subnet_states g \<Longrightarrow> subnet_states h' = subnet_states h \<Longrightarrow> sim g' h' = sim g h"
  by (simp add: sim_def fmrel_upd)

lemma sim_get_subnet_mut:
  "sim g h \<Longrightarrow> rel_prod sim R (get_subnet_mut E g i) (get_subnet_mut E h i)"
  using sim_lookup [of g h i] by (auto simp: get_subnet_mut_def sim_def new fmrel_upd elim!: option.rel_cases)

lemma sim_get_subnet_mutE:
  assumes "sim g h"
  obtains g1 s h1 t where "get_subnet_mut E g i = (g1, s)" "get_subnet_mut E h i = (h1, t)" "sim g1 h1" "R s t"
  using sim_get_subnet_mut [OF assms, of i] by (auto elim!: rel_prod.cases)

lemma sim_apply_state_change:
  assumes s: "sim g h"
  shows "rel_option (rel_prod sim (=)) (apply_state_change E de g i c) (apply_state_change E de h i c)"
proof (cases "esc_new_value c")
  case (Some v)
  obtain g1 s h1 t where m: "get_subnet_mut E g i = (g1, s)" "get_subnet_mut E h i = (h1, t)" "sim g1 h1" "R s t"
    using sim_get_subnet_mutE [OF s] .
  let ?k = "parse_state_change_key E (esc_key c)"
  obtain s1 t1 r where u: "ss_upsert E s ?k v = (s1, r)" "ss_upsert E t ?k v = (t1, r)" "R s1 t1"
    using upsert [OF m(4), of ?k v] by (auto elim!: rel_prod.cases)
  show ?thesis
    using Some m u sim_upd [OF m(3) u(3), of i]
    by (auto simp: apply_state_change_def Let_def sim_def split: option.split)
next
  case None
  let ?k = "parse_state_change_key E (esc_key c)"
  obtain g1 h1 old where o: "(case esc_old_value c of
        Some o1 \<Rightarrow> (g, Some o1)
      | None \<Rightarrow> (let (g1, s) = get_subnet_mut E g i in (g1, ss_get s ?k))) = (g1, old)"
      "(case esc_old_value c of
        Some o1 \<Rightarrow> (h, Some o1)
      | None \<Rightarrow> (let (g1, s) = get_subnet_mut E h i in (g1, ss_get s ?k))) = (h1, old)" "sim g1 h1"
  proof (cases "esc_old_value c")
    case None
    obtain g1 s h1 t where "get_subnet_mut E g i = (g1, s)" "get_subnet_mut E h i = (h1, t)" "sim g1 h1" "R s t"
      using sim_get_subnet_mutE [OF s] .
    with None get that show thesis
      by simp
  qed (use s that in simp)
  define g2 where "g2 = (case old of None \<Rightarrow> g1 | Some o1 \<Rightarrow> remove_from_indexes_for_value E de g1 ?k o1)"
  define h2 where "h2 = (case old of None \<Rightarrow> h1 | Some o1 \<Rightarrow> remove_from_indexes_for_value E de h1 ?k o1)"
  have "sim g2 h2"
    using o(3) by (simp add: g2_def h2_def sim_def split: option.split)
  from sim_get_subnet_mutE [OF this, of i] obtain g3 s h3 t
    where m: "get_subnet_mut E g2 i = (g3, s)" "get_subnet_mut E h2 i = (h3, t)" "sim g3 h3" "R s t" .
  have "apply_state_change E de g i c = (case ss_delete E s ?k of
      None \<Rightarrow> None | Some (s1, w) \<Rightarrow> Some (put_subnet g3 i s1, Deleted ?k (w \<noteq> None)))"
    unfolding apply_state_change_def None option.case o(1) [unfolded Let_def] Let_def prod.case
      g2_def [symmetric] m(1) ..
  moreover have "apply_state_change E de h i c = (case ss_delete E t ?k of
      None \<Rightarrow> None | Some (s1, w) \<Rightarrow> Some (put_subnet h3 i s1, Deleted ?k (w \<noteq> None)))"
    unfolding apply_state_change_def None option.case o(2) [unfolded Let_def] Let_def prod.case
      h2_def [symmetric] m(2) ..
  ultimately show ?thesis
    using delete [OF m(4), of ?k] sim_upd [OF m(3)]
    by (cases "ss_delete E s ?k"; cases "ss_delete E t ?k") (auto elim!: rel_prod.cases)
qed

lemma sim_apply_changes:
  "sim g h \<Longrightarrow> rel_option sim (apply_changes E de i cs g) (apply_changes E de i cs h)"
proof (induction cs arbitrary: g h)
  case (Cons c cs)
  show ?case
    using sim_apply_state_change [OF Cons.prems, of de "change_target i c" c]
  proof (cases rule: option.rel_cases)
    case (Some x y)
    then obtain g1 h1 r where "x = (g1, r)" "y = (h1, r)" "sim g1 h1"
      by (auto elim!: rel_prod.cases)
    with Some Cons.IH show ?thesis
      by simp
  qed simp
qed simp

lemma sim_apply_execution_result:
  assumes "sim g h"
  shows "rel_option (rel_prod sim (=)) (apply_execution_result E de g i r) (apply_execution_result E de h i r)"
  using sim_apply_changes [OF assms, of de i "er_state_changes r"]
proof (cases rule: option.rel_cases)
  case (Some g1 h1)
  obtain g2 s h2 t where "get_subnet_mut E g1 i = (g2, s)" "get_subnet_mut E h1 i = (h2, t)" "sim g2 h2" "R s t"
    using sim_get_subnet_mutE [OF Some(3)] .
  with Some root show ?thesis
    by (simp add: apply_execution_result_def)
qed (simp add: apply_execution_result_def)

lemma sim_find_conflict:
  "sim g h \<Longrightarrow> rel_prod sim (=) (find_conflict E i cs pw g) (find_conflict E i cs pw h)"
proof (induction cs arbitrary: pw g h)
  case (Cons c cs)
  obtain g1 s h1 t where "get_subnet_mut E g (change_target i c) = (g1, s)"
      "get_subnet_mut E h (change_target i c) = (h1, t)" "sim g1 h1" "R s t"
    using sim_get_subnet_mutE [OF Cons.prems] .
  with Cons get show ?case
    by (auto simp: Let_def split: option.split)
qed simp

lemma sim_apply_event:
  assumes s: "sim g h"
  shows "rel_option (rel_prod sim (=)) (apply_event E de d e (g, m)) (apply_event E de d' e (h, m))"
proof (cases "ev_result e")
  case (Some r)
  let ?i = "get_subnet_id e"
  obtain g1 h1 conf where c: "find_conflict E ?i (er_state_changes r) fmempty g = (g1, conf)"
      "find_conflict E ?i (er_state_changes r) fmempty h = (h1, conf)" "sim g1 h1"
    using sim_find_conflict [OF s, of ?i "er_state_changes r" fmempty] by (auto elim!: rel_prod.cases)
  have "rel_option (rel_prod sim (=)) (apply_execution_result E de g1 ?i r) (apply_execution_result E de h1 ?i r)"
    by (rule sim_apply_execution_result [OF c(3)])
  then show ?thesis
  proof (cases rule: option.rel_cases)
    case None
    with s \<open>ev_result e = Some r\<close> c show ?thesis
      by (simp add: apply_event_def Let_def split: option.split)
  next
    case (Some x y)
    then obtain g2 h2 w where "x = (g2, w)" "y = (h2, w)" "sim g2 h2"
      by (auto elim!: rel_prod.cases)
    with s \<open>ev_result e = Some r\<close> c Some show ?thesis
      by (simp add: apply_event_def Let_def sim_def split: option.split)
  qed
qed (use s in \<open>simp add: apply_event_def\<close>)

lemma sim_apply_events:
  "sim g h \<Longrightarrow> rel_option (rel_prod sim (=)) (apply_events E de d es (g, m)) (apply_events E de d' es (h, m))"
proof (induction es arbitrary: g h m)
  case (Cons e es)
  show ?case
    using sim_apply_event [OF Cons.prems, of de d e m d']
  proof (cases rule: option.rel_cases)
    case (Some x y)
    then obtain g1 h1 m1 where "x = (g1, m1)" "y = (h1, m1)" "sim g1 h1"
      by (auto elim!: rel_prod.cases)
    with Some Cons.IH show ?thesis
      by simp
  qed simp
qed simp

lemma sim_apply_committed_events:
  assumes "sim g h" and "sort_key vlc_order es = sort_key vlc_order fs"
  shows "rel_option (\<lambda>(g, m, _) (h, m', _). sim g h \<and> m = m')
    (apply_committed_events E de g es d) (apply_committed_events E de h fs d')"
proof -
  let ?g = "g\<lparr>last_finalized_depth := max (last_finalized_depth g) d\<rparr>"
  let ?h = "h\<lparr>last_finalized_depth := max (last_finalized_depth h) d'\<rparr>"
  have "sim ?g ?h"
    using assms(1) by (simp add: sim_def)
  from sim_apply_events [OF this, of de d "sort_key vlc_order fs" summary_new d'] show ?thesis
  proof (cases rule: option.rel_cases)
    case None
    then show ?thesis
      by (simp add: apply_committed_events_def Let_def assms(2))
  next
    case (Some x y)
    then obtain g1 h1 m where "x = (g1, m)" "y = (h1, m)" "sim g1 h1"
      by (auto elim!: rel_prod.cases)
    with Some show ?thesis
      by (simp add: apply_committed_events_def Let_def assms(2))
  qed
qed

lemma sim_global_root:
  assumes "sim g h"
  shows "compute_global_root E g = compute_global_root E h"
proof -
  have r: "fmmap ss_root (subnet_states g) = fmmap ss_root (subnet_states h)"
  proof (rule fmap_ext)
    fix i
    show "fmlookup (fmmap ss_root (subnet_states g)) i = fmlookup (fmmap ss_root (subnet_states h)) i"
      using sim_lookup [OF assms, of i] root by (auto elim!: option.rel_cases)
  qed
  have e: "map (\<lambda>(i, s). SubnetStateEntry_new i (ss_root s)) (entries m)
      = map (\<lambda>(i, r). SubnetStateEntry_new i r) (entries (fmmap ss_root m))" for m
    by (auto simp: sorted_list_of_fmap_def fmlookup_dom_iff sorted_list_of_fset.rep_eq)
  show ?thesis
    unfolding compute_global_root_def Let_def e r ..
qed

end

section \<open>Equal up to change tracking\<close>

lemma settled_eq:
  "settled s = settled t \<longleftrightarrow>
     ss_subnet_id s = ss_subnet_id t \<and> object_count s = object_count t \<and> last_updated_anchor s = last_updated_anchor t \<and>
     root_hash (ss_tree s) = root_hash (ss_tree t) \<and> leaves (ss_tree s) = leaves (ss_tree t) \<and>
     nodes (ss_tree s) = nodes (ss_tree t)"
  by (cases s; cases t; cases "ss_tree s"; cases "ss_tree t") (auto simp: settled_def)

interpretation replica: subnet_simulation E "\<lambda>s t. settled s = settled t" for E
proof
  fix s t :: subnet_state_smt and k v
  assume st: "settled s = settled t"
  then show "ss_get s k = ss_get t k" "ss_root s = ss_root t"
    by (simp_all add: settled_eq ss_get_def ss_root_def inc_get_def)
  show "rel_prod (\<lambda>s t. settled s = settled t) (=) (ss_upsert E s k v) (ss_upsert E t k v)"
    using st by (auto simp: settled_eq ss_upsert_def Let_def inc_insert_def inc_get_def split: prod.split)
  show "rel_option (rel_prod (\<lambda>s t. settled s = settled t) (=)) (ss_delete E s k) (ss_delete E t k)"
    using st by (auto simp: settled_eq ss_delete_def inc_remove_def split: option.split)
qed simp

definition same_trees :: "'s gsm \<Rightarrow> 't gsm \<Rightarrow> bool" where
  "same_trees g h \<longleftrightarrow> fmmap settled (subnet_states g) = fmmap settled (subnet_states h)"

lemma sim_same_trees: "replica.sim g h \<longleftrightarrow> same_trees g h"
proof -
  have r: "rel_option (\<lambda>s t. settled s = settled t) x y \<longleftrightarrow> map_option settled x = map_option settled y" for x y
    by (cases x; cases y) simp_all
  have "replica.sim g h \<longleftrightarrow>
      (\<forall>i. map_option settled (fmlookup (subnet_states g) i) = map_option settled (fmlookup (subnet_states h) i))"
    unfolding replica.sim_def r [symmetric] by (blast intro: fmrelI dest: fmrelD)
  also have "\<dots> \<longleftrightarrow> same_trees g h"
    unfolding same_trees_def by (metis fmap_ext fmlookup_map)
  finally show ?thesis .
qed

lemma same_trees_clone: "same_trees g (gsm_clone g)"
proof -
  have "settled (ss_clone s) = settled s" for s
    by (simp add: settled_eq ss_clone_def inc_clone_def)
  then show ?thesis
    by (simp add: same_trees_def gsm_clone_def fmap.map_comp comp_def)
qed

lemma same_trees_sym: "same_trees g h \<Longrightarrow> same_trees h g"
  and same_trees_trans: "same_trees g h \<Longrightarrow> same_trees h k \<Longrightarrow> same_trees g k"
  by (simp_all add: same_trees_def)

lemma gsm_commit_trees:
  assumes c: "gsm_commit E ops g a = (g', Inr ())"
  shows "fmmap settled (subnet_states g') = fmmap (\<lambda>s. ss_set_last_anchor s a) (fmmap settled (subnet_states g))"
proof (rule fmap_ext)
  fix i
  have e: "settled (ss_set_last_anchor s a) = ss_set_last_anchor (settled s) a" for s
    by (simp add: settled_def ss_set_last_anchor_def)
  have i: "settled (settled s) = settled s" for s
    by (simp add: settled_def)
  show "fmlookup (fmmap settled (subnet_states g')) i
      = fmlookup (fmmap (\<lambda>s. ss_set_last_anchor s a) (fmmap settled (subnet_states g))) i"
  proof (cases "gs_store g")
    case None
    with c have "subnet_states g' = fmmap (\<lambda>s. ss_set_last_anchor s a) (subnet_states g)"
      by (auto simp: gsm_commit_def Let_def)
    then show ?thesis
      by (simp add: option.map_comp comp_def e)
  next
    case (Some st)
    then show ?thesis
      using commit_subnets [OF Some c, of i] by (simp add: option.map_comp comp_def e i)
  qed
qed

lemma gsm_commit_same_trees:
  "same_trees g h \<Longrightarrow> gsm_commit E ops g a = (g', Inr ()) \<Longrightarrow> gsm_commit E ops' h a = (h', Inr ()) \<Longrightarrow> same_trees g' h'"
  unfolding same_trees_def by (simp add: gsm_commit_trees)

section \<open>Routing loses no event\<close>

definition all_values :: "('k::linorder, 'v list) fmap \<Rightarrow> 'v multiset" where
  "all_values m = mset (concat (map snd (entries m)))"

lemma all_values_sum: "all_values m = (\<Sum>i\<in>fset (fmdom m). mset (the (fmlookup m i)))"
proof -
  have "all_values m = sum_list (map (\<lambda>i. mset (the (fmlookup m i))) (sorted_list_of_fset (fmdom m)))"
    by (simp add: all_values_def sorted_list_of_fmap_def mset_concat comp_def)
  then show ?thesis
    by (simp add: sum_list_distinct_conv_sum_set sorted_list_of_fset.rep_eq)
qed

lemma all_values_push: "all_values (push_entry i e m) = add_mset e (all_values m)"
proof (cases "fmlookup m i")
  case None
  then have "i \<notin> fset (fmdom m)"
    by (simp add: fmdom_notI)
  moreover have "(\<Sum>j\<in>fset (fmdom m). mset (the (fmlookup (fmupd i [e] m) j))) = (\<Sum>j\<in>fset (fmdom m). mset (the (fmlookup m j)))"
    using calculation by (intro sum.cong) auto
  ultimately show ?thesis
    using None by (simp add: all_values_sum push_entry_def)
next
  case (Some es)
  then have i: "i \<in> fset (fmdom m)"
    by (simp add: fmdomI)
  have "(\<Sum>j\<in>fset (fmdom m) - {i}. mset (the (fmlookup (fmupd i (es @ [e]) m) j)))
      = (\<Sum>j\<in>fset (fmdom m) - {i}. mset (the (fmlookup m j)))"
    by (intro sum.cong) auto
  then show ?thesis
    using Some i by (simp add: all_values_sum push_entry_def insert_absorb sum.remove [of _ i])
qed

definition routed_mset :: "routed_events \<Rightarrow> event multiset" where
  "routed_mset r = mset (root_events r) + all_values (system_events r) + all_values (app_events r) + mset (unrouted_events r)"

lemma route_one_mset: "routed_mset (route_one e r) = add_mset e (routed_mset r)"
  by (simp add: route_one_def routed_mset_def all_values_push Let_def)

lemma route_events_mset: "routed_mset (route_events es) = mset es"
proof -
  have "routed_mset (fold route_one es r) = mset es + routed_mset r" for r
    by (induction es arbitrary: r) (simp_all add: route_one_mset)
  moreover have "routed_mset routed_new = {#}"
    by (simp add: routed_mset_def routed_new_def all_values_sum)
  ultimately show ?thesis
    by (simp add: route_events_def)
qed

lemma all_events_mset: "mset (all_events p) = routed_mset (routed p)"
  by (simp add: all_events_def routed_mset_def all_values_def)

section \<open>Proposer and followers\<close>

lemma pending_ids: "map ev_id (get_pending_events d) = filter (\<lambda>i. fmlookup (events d) i \<noteq> None) (sorted_list_of_fset (pending d))"
  if "dag_inv d"
proof -
  have "map ev_id (List.map_filter (fmlookup (events d)) is) = filter (\<lambda>i. fmlookup (events d) i \<noteq> None) is" for "is"
    using that by (induction "is") (auto simp: List.map_filter_simps dag_inv_def split: option.split)
  then show ?thesis
    by (simp add: get_pending_events_def)
qed

lemma pending_distinct: "dag_inv d \<Longrightarrow> distinct (map ev_id (get_pending_events d))"
  by (simp add: pending_ids sorted_list_of_fset.rep_eq)

lemma pending_get: "dag_inv d \<Longrightarrow> e \<in> set (get_pending_events d) \<Longrightarrow> get_event d (ev_id e) = Some e"
  by (auto simp: get_pending_events_def get_event_def dag_inv_def List.map_filter_def)

lemma selected_distinct: "distinct (map ev_id es) \<Longrightarrow> distinct (map ev_id (selected E cap es))"
proof -
  assume d: "distinct (map ev_id es)"
  then have "distinct (selected E cap es)"
    by (simp add: selected_def fold_policy_eq distinct_keeps distinct_map)
  with d selected_sub [of E cap es] show ?thesis
    by (auto simp: distinct_map intro: inj_on_subset)
qed

lemma select_and_build_cases:
  assumes "select_and_build E de b d v in_flight now = Some (Inr p)"
  obtains kept where "kept \<noteq> []" "set kept \<subseteq> set (get_pending_events d)"
    "prepare_build_internal E de b kept v (max_depth d) now = Some (Inr p)"
    "kept = selected E (max_events_per_cf (ab_config b)) (filter (\<lambda>e. ev_id e |\<notin>| in_flight) (get_pending_events d))"
proof -
  define kept where "kept = selected E (max_events_per_cf (ab_config b))
     (filter (\<lambda>e. ev_id e |\<notin>| in_flight) (get_pending_events d))"
  have "set kept \<subseteq> set (get_pending_events d)"
    using selected_sub unfolding kept_def by fastforce
  with that [OF _ _ _ kept_def] assms show thesis
    by (simp add: select_and_build_def kept_def [symmetric] Let_def split: if_splits)
qed

lemma frame_events_kept:
  assumes "\<forall>i\<in>set (event_ids a). get_event d' i = get_event d i" "event_ids a = map ev_id kept"
    and "\<forall>e\<in>set kept. get_event d (ev_id e) = Some e"
  shows "frame_events d' a = kept"
proof -
  have "List.map_filter (get_event d') (map ev_id es) = es" if "set es \<subseteq> set kept" for es
    using that assms by (induction es) (auto simp: List.map_filter_simps)
  then show ?thesis
    by (simp add: frame_events_def assms(2))
qed

lemma apply_and_publish_same:
  assumes s: "same_trees (write_gsm sh) (write_gsm sh')" and k: "sort_key vlc_order es = sort_key vlc_order fs"
    and a: "apply_and_publish E de ops sh es d a = Some (sh1, Inr m)"
  obtains sh1' r where "apply_and_publish E de ops' sh' fs d' a = Some (sh1', r)"
    and "\<And>e. r = Inl e \<Longrightarrow> \<exists>me. e = AB_MerkleError me"
    and "\<And>m'. r = Inr m' \<Longrightarrow> m' = m \<and> same_trees (write_gsm sh1) (write_gsm sh1')"
proof -
  obtain g1 n g2 where ap: "apply_committed_events E de (write_gsm sh) es d = Some (g1, m, n)"
    and c: "gsm_commit E ops g1 a = (g2, Inr ())" and sh1: "write_gsm sh1 = g2"
    using a by (auto simp: apply_and_publish_def publish_snapshot_def split: option.splits prod.splits sum.splits)
  from replica.sim_apply_committed_events [OF s [folded sim_same_trees] k, of E de d d'] ap
  obtain h1 n' where ap': "apply_committed_events E de (write_gsm sh') fs d' = Some (h1, m, n')"
    and "replica.sim g1 h1"
    by (cases "apply_committed_events E de (write_gsm sh') fs d'") auto
  then have st: "same_trees g1 h1"
    by (simp add: sim_same_trees)
  obtain h2 r where c': "gsm_commit E ops' h1 a = (h2, r)"
    by (rule prod.exhaust)
  show thesis
  proof (cases r)
    case (Inl e)
    with ap' c' that [of "sh'\<lparr>write_gsm := h2\<rparr>" "Inl (AB_MerkleError e)"] show thesis
      by (simp add: apply_and_publish_def)
  next
    case (Inr u)
    with gsm_commit_same_trees [OF st c, of ops' h2] c' have "same_trees g2 h2"
      by simp
    with ap' c' Inr sh1 that [of "publish_snapshot (sh'\<lparr>write_gsm := h2\<rparr>) h2" "Inr m"] show thesis
      by (simp add: apply_and_publish_def publish_snapshot_def)
  qed
qed

definition in_agreement :: "'s anchor_builder \<Rightarrow> 't anchor_builder \<Rightarrow> bool" where
  "in_agreement b c \<longleftrightarrow> take_snapshot b = take_snapshot c \<and> same_trees (write_gsm (ab_shared b)) (write_gsm (ab_shared c))"

lemma overlay_simps [simp]:
  "take_snapshot (clear_overlay_for b ids) = take_snapshot b"
  "write_gsm (ab_shared (clear_overlay_for b ids)) = write_gsm (ab_shared b)"
  "take_snapshot (ingest_outcomes b cf es m) = take_snapshot b"
  "ab_shared (ingest_outcomes b cf es m) = ab_shared b"
  "total_anchor_count (clear_overlay_for b ids) = total_anchor_count b"
  "total_anchor_count (ingest_outcomes b cf es m) = total_anchor_count b"
  by (simp_all add: clear_overlay_for_def ingest_outcomes_def take_snapshot_def clear_overlay_events_def Let_def
      split: option.split prod.split)

lemma commit_build_agree:
  assumes "commit_build E de ops L p t = Some (L', Inr m)"
  obtains sh where "apply_and_publish E de ops (ab_shared L) (all_events p) (new_anchor_depth p) (anchor_depth L + 1) = Some (sh, Inr m)"
    and "in_agreement L' (L\<lparr>ab_shared := sh, last_anchor := Some (pb_anchor p), anchor_depth := new_anchor_depth p,
      last_fold_vlc := new_last_fold_vlc p, last_anchor_chain_root := new_anchor_chain_root p,
      total_anchor_count := total_anchor_count L + 1\<rparr>)"
proof -
  obtain sh where sh: "apply_and_publish E de ops (ab_shared L) (all_events p) (new_anchor_depth p) (anchor_depth L + 1) = Some (sh, Inr m)"
    and L': "L' = (clear_overlay_for (ingest_outcomes (L\<lparr>ab_shared := sh\<rparr>) (an_id (pb_anchor p)) (all_events p) m) (map ev_id (all_events p)))
      \<lparr>last_anchor := Some (pb_anchor p), anchor_depth := new_anchor_depth p,
       last_fold_vlc := new_last_fold_vlc p, last_anchor_chain_root := new_anchor_chain_root p,
       total_anchor_count := total_anchor_count L + 1, last_fold_instant := Some t\<rparr>"
    using assms by (auto simp: commit_build_def Let_def split: if_splits option.splits sum.splits)
  show thesis
    by (rule that [OF sh]) (simp add: L' in_agreement_def take_snapshot_def same_trees_def)
qed

lemma follower_agrees:
  assumes p: "prepare_build_internal E de L kept v depth now = Some (Inr p)"
    and dist: "distinct (map ev_id kept)"
    and c: "commit_build E de ops L p t = Some (L', Inr m)"
    and a: "in_agreement F L" and cf: "cf_anchor cf = pb_anchor p"
  shows "\<exists>F' r. apply_follower_finalized_cf E de ops' F kept cf t' = Some (F', r) \<and>
    (\<forall>e. r = Inl e \<longrightarrow> (\<exists>me. e = AB_MerkleError me)) \<and> (\<forall>m'. r = Inr m' \<longrightarrow> m' = m \<and> in_agreement F' L')"
proof -
  let ?g = "write_gsm (ab_shared L)" and ?h = "write_gsm (ab_shared F)"
  obtain g0 m0 n0 where ap0: "apply_committed_events E de (gsm_clone ?g) kept 0 = Some (g0, m0, n0)"
    using p by (auto simp: prepare_build_internal_def compute_state_root_from_events_def split: option.splits)
  define root roots where "root = fst (compute_global_root E g0)" and "roots = snd (compute_global_root E g0)"
  define mr where "mr = \<lparr>events_root = compute_events_root E kept, global_state_root = root,
     anchor_chain_root = last_anchor_chain_root L, subnet_roots = roots\<rparr>"
  define an where "an = with_merkle_roots E (map ev_id kept) (snapshot v) mr (map_option an_id (last_anchor L)) depth now"
  have pb: "p = \<lparr>pb_anchor = an, routed = route_events kept, pending_state_changes = collect_state_changes kept,
      pre_build_snapshot = take_snapshot L, pb_events_root = compute_events_root E kept,
      new_anchor_chain_root = chain_hash E (last_anchor_chain_root L) (anchor_compute_hash E an),
      new_anchor_depth = depth + 1, new_last_fold_vlc = logical_time (snapshot v)\<rparr>"
    using p by (simp add: prepare_build_internal_def compute_state_root_from_events_def ap0 Let_def an_def mr_def
        root_def roots_def split: prod.splits)
  have an: "event_ids an = map ev_id kept" "merkle_roots an = Some mr" "an_depth an = depth" "an_vlc an = snapshot v"
    by (simp_all add: an_def with_merkle_roots_def Let_def)
  have st: "same_trees ?g ?h" and sn: "take_snapshot F = take_snapshot L"
    using a by (simp_all add: in_agreement_def same_trees_sym)
  have sorted: "sort_key vlc_order (all_events p) = sort_key vlc_order kept"
    by (rule sort_vlc_unique [symmetric, OF _ dist]) (simp add: all_events_mset pb route_events_mset)
  \<comment> \<open>the root check of the follower\<close>
  have "same_trees (gsm_clone ?g) (gsm_clone ?h)"
    by (intro same_trees_trans [OF same_trees_sym [OF same_trees_clone] same_trees_trans [OF st same_trees_clone]])
  from replica.sim_apply_committed_events [OF this [folded sim_same_trees] refl, of E de kept 0 "depth + 1"] ap0
  obtain h0 m1 n1 where ap1: "apply_committed_events E de (gsm_clone ?h) kept (depth + 1) = Some (h0, m1, n1)"
    and "replica.sim g0 h0"
    by (cases "apply_committed_events E de (gsm_clone ?h) kept (depth + 1)") auto
  then have "compute_global_root E h0 = compute_global_root E g0"
    by (simp add: replica.sim_global_root)
  then have ok: "root_mismatch E de ?h kept an = Some None"
    by (simp add: root_mismatch_def an ap1 mr_def root_def Let_def)
  \<comment> \<open>the commit of the proposer\<close>
  obtain sh1 where pub: "apply_and_publish E de ops (ab_shared L) (all_events p) (depth + 1) (anchor_depth L + 1) = Some (sh1, Inr m)"
    and L': "in_agreement L' (L\<lparr>ab_shared := sh1, last_anchor := Some an, anchor_depth := depth + 1,
      last_fold_vlc := logical_time (snapshot v),
      last_anchor_chain_root := chain_hash E (last_anchor_chain_root L) (anchor_compute_hash E an),
      total_anchor_count := total_anchor_count L + 1\<rparr>)"
    using commit_build_agree [OF c] by (auto simp: pb)
  have ad: "anchor_depth F = anchor_depth L" "last_anchor_chain_root F = last_anchor_chain_root L"
      "total_anchor_count F = total_anchor_count L"
    using sn by (simp_all add: take_snapshot_def)
  obtain sh2 r where pub': "apply_and_publish E de ops' (ab_shared F) kept (depth + 1) (anchor_depth F + 1) = Some (sh2, r)"
    and err: "\<And>e. r = Inl e \<Longrightarrow> \<exists>me. e = AB_MerkleError me"
    and good: "\<And>m'. r = Inr m' \<Longrightarrow> m' = m \<and> same_trees (write_gsm sh1) (write_gsm sh2)"
    using apply_and_publish_same [OF st sorted pub] unfolding ad by blast
  show ?thesis
  proof (cases r)
    case (Inl e)
    with err [of e] pub' show ?thesis
      by (simp add: apply_follower_finalized_cf_def Let_def cf pb an ok)
  next
    case (Inr m')
    then have "m' = m" "same_trees (write_gsm sh2) (write_gsm sh1)"
      using good same_trees_sym by blast+
    with pub' Inr L' show ?thesis
      by (auto simp: apply_follower_finalized_cf_def Let_def cf pb an ok in_agreement_def take_snapshot_def
          synchronize_finalized_anchor_def mr_def ad same_trees_def)
  qed
qed

text \<open>
  C4: the proposer of a frame and its followers stay in agreement. From the same builder state and
  trees, let the proposer build a frame from its DAG and commit it, and let a follower, whose DAG has
  the frame's events, apply the finalized frame. The follower finds all events and the same root: it
  can only fail because its own store fails, and otherwise it reaches the same anchor chain, depth, fold
  time and trees and the same summary as the proposer, whatever the order of the events and the
  backends of the two nodes.
\<close>

theorem followers_agree_with_proposer:
  assumes "dag_inv d" and "prepare_build E de L d v in_flight now = Some (Inr p)"
    and "commit_build E de ops L p t = Some (L', Inr m)"
    and "in_agreement F L" and "cf_anchor cf = pb_anchor p"
    and "\<forall>i\<in>set (event_ids (pb_anchor p)). get_event d' i = get_event d i"
  shows "\<exists>F' r. apply_follower_finalized_cf E de ops' F (frame_events d' (cf_anchor cf)) cf t' = Some (F', r) \<and>
    (\<forall>e. r = Inl e \<longrightarrow> (\<exists>me. e = AB_MerkleError me)) \<and> (\<forall>m'. r = Inr m' \<longrightarrow> m' = m \<and> in_agreement F' L')"
proof -
  obtain kept where k: "set kept \<subseteq> set (get_pending_events d)"
      "prepare_build_internal E de L kept v (max_depth d) now = Some (Inr p)"
      "kept = selected E (max_events_per_cf (ab_config L)) (filter (\<lambda>e. ev_id e |\<notin>| in_flight) (get_pending_events d))"
    using assms(2) by (auto simp: prepare_build_def Let_def split: if_splits elim: select_and_build_cases)
  have dist: "distinct (map ev_id kept)"
    unfolding k(3) by (intro selected_distinct distinct_map_filter pending_distinct assms(1))
  have "event_ids (pb_anchor p) = map ev_id kept"
    using k(2) by (auto simp: prepare_build_internal_def with_merkle_roots_def Let_def split: option.splits)
  then have "frame_events d' (pb_anchor p) = kept"
    using k(1) pending_get [OF assms(1)] assms(6) by (intro frame_events_kept) auto
  then show ?thesis
    using follower_agrees [OF k(2) dist assms(3,4,5)] assms(5) by simp
qed

lemma fold_event_applies: "apply_committed_events E de g [fold_event i key] d \<noteq> None"
proof -
  have "apply_state_change E de h j (StateChange_insert key [1]) \<noteq> None" for h :: "'a gsm" and j
    by (simp add: apply_state_change_def StateChange_insert_def StateChange_new_def Let_def split: prod.split)
  then have ne: "apply_execution_result E de h j (with_changes er_succeeded [StateChange_insert key [1]]) \<noteq> None"
    for h :: "'a gsm" and j
    by (auto simp: apply_execution_result_def with_changes_def er_succeeded_def split: option.split prod.split)
  show ?thesis
    by (auto simp: ne apply_committed_events_def fold_event_def apply_event_def Let_def split: option.splits prod.splits)
qed

definition fold_dag :: dag where
  "fold_dag = fst (dag_add_event dag_new (fold_event ''a'' ''user:a''))"

lemma fold_dag_pending: "get_pending_events fold_dag = [fold_event ''a'' ''user:a'']"
  and fold_dag_inv: "dag_inv fold_dag"
proof -
  show "get_pending_events fold_dag = [fold_event ''a'' ''user:a'']"
    by (simp add: fold_dag_def dag_add_event_def dag_new_def dag_contains_def store_event_def fold_event_def
        get_pending_events_def List.map_filter_simps sorted_list_of_fset.rep_eq)
  show "dag_inv fold_dag"
    unfolding fold_dag_def by (intro dag_add_event_inv dag_inv_new)
qed

definition fold_clock :: vlc where
  "fold_clock = \<lparr>node_id = ''v'', snapshot = \<lparr>vector_clock = vc_new, logical_time = 10, physical_time = 0\<rparr>\<rparr>"

lemma fold_dag_builds:
  assumes "ab_config b = config_default" "last_fold_vlc b = 0"
  shows "\<exists>p. prepare_build E de b fold_dag fold_clock {||} now = Some (Inr p) \<and>
    pre_build_snapshot p = take_snapshot b \<and> all_events p = [fold_event ''a'' ''user:a'']"
proof -
  let ?es = "[fold_event ''a'' ''user:a'']"
  obtain g m n where "apply_committed_events E de (gsm_clone (write_gsm (ab_shared b))) ?es 0 = Some (g, m, n)"
    using fold_event_applies by (metis option.exhaust prod_cases3)
  then have "\<exists>p. prepare_build_internal E de b ?es fold_clock (max_depth fold_dag) now = Some (Inr p) \<and>
      pre_build_snapshot p = take_snapshot b \<and> mset (all_events p) = mset ?es"
    by (auto simp: prepare_build_internal_def compute_state_root_from_events_def Let_def all_events_mset route_events_mset
        split: prod.split)
  then obtain p where p: "prepare_build_internal E de b ?es fold_clock (max_depth fold_dag) now = Some (Inr p)"
    "pre_build_snapshot p = take_snapshot b" "all_events p = ?es"
    by (auto dest: mset_single_iff [THEN iffD1])
  have "selected E 1000 ?es = ?es"
    by (simp add: selected_def fold_policy_eq)
  then have "prepare_build E de b fold_dag fold_clock {||} now = Some (Inr p)"
    using p(1) assms by (simp add: prepare_build_def select_and_build_def fold_dag_pending
        config_default_def saturating_sub_def fold_clock_def)
  with p(2,3) show ?thesis
    by blast
qed

theorem followers_agree_with_proposer_witness:
  "\<exists>p L' m F' r. let L = builder_new sample_ext config_default; F = builder_new sample_ext config_default;
      cf = cf_new sample_ext 0 (pb_anchor p) ''v'' 0 in
    prepare_build sample_ext (\<lambda>_. None) L fold_dag fold_clock {||} 0 = Some (Inr p) \<and>
    commit_build sample_ext (\<lambda>_. None) mem_b4 L p 0 = Some (L', Inr m) \<and>
    apply_follower_finalized_cf sample_ext (\<lambda>_. None) mem_b4 F (frame_events fold_dag (cf_anchor cf)) cf 1 = Some (F', r) \<and>
    (\<forall>m'. r = Inr m' \<longrightarrow> m' = m \<and> in_agreement F' L')"
proof -
  let ?b = "builder_new sample_ext config_default :: merkle_store anchor_builder" and ?de = "\<lambda>_. None"
  obtain p where p: "prepare_build sample_ext ?de ?b fold_dag fold_clock {||} 0 = Some (Inr p)"
    and ps: "pre_build_snapshot p = take_snapshot ?b" "all_events p = [fold_event ''a'' ''user:a'']"
    using fold_dag_builds [of ?b sample_ext ?de 0] by (auto simp: builder_new_def with_shared_state_manager_def)
  obtain g1 m n1 where ap: "apply_committed_events sample_ext ?de (write_gsm (ab_shared ?b)) (all_events p) (new_anchor_depth p) = Some (g1, m, n1)"
    using fold_event_applies unfolding ps(2) by (metis option.exhaust prod_cases3)
  obtain g2 where "gsm_commit sample_ext mem_b4 g1 (anchor_depth ?b + 1) = (g2, Inr ())"
    using mem_commit by blast
  with ap obtain L' where c: "commit_build sample_ext ?de mem_b4 ?b p 0 = Some (L', Inr m)"
    by (simp add: commit_build_def Let_def ps(1) verify_snapshot_def take_snapshot_def apply_and_publish_def)
  have "in_agreement ?b ?b"
    by (simp add: in_agreement_def same_trees_def)
  from followers_agree_with_proposer [OF fold_dag_inv p c this, of "cf_new sample_ext 0 (pb_anchor p) ''v'' 0" fold_dag mem_b4 1]
  p c show ?thesis
    unfolding Let_def by (auto simp: cf_new_def)
qed

end
