(* ===== verification/Consensus_Manager.thy ===== *)
theory Consensus_Manager
  imports Anchor_Agreement
begin

text \<open>
  The consensus manager of \<^verbatim>\<open>consensus/src/folder.rs\<close>: pending frames with their builds, deferred events
  and early votes, the decision on a frame with the apply of its state, the garbage collection of
  finalized frames and the timeouts. Wall clock and monotonic clock are the arguments \<open>now\<close> and
  \<open>instant\<close>; the outer \<open>None\<close> is a panic inside the state trees. The reason of an apply failure is kept
  as the error value, of which the code stores the text. An invariant holds after every sequence of
  calls, and the decision is characterised branch by branch.
\<close>

section \<open>Data\<close>

datatype cf_decision = DFinalize | DReject | DTimeout

datatype apply_failure_role = LeaderCommitError | LeaderFollowerFallback | FollowerApply

record apply_failure =
  af_cf_id :: string
  af_anchor_id :: string
  af_anchor_depth :: u64
  af_role :: apply_failure_role
  af_reason :: anchor_build_error

datatype cf_lifecycle_outcome =
    LPending
  | LFinalized string
  | LApplyFailed apply_failure
  | LRejected string
  | LTimedOut string

record anchor_build_result =
  br_anchor :: anchor
  br_state_summary :: state_apply_summary
  br_routed_events :: routed_events

record 's consensus_manager =
  cm_config :: consensus_config
  cm_builder :: "'s anchor_builder"
  pending_cfs :: "(string, consensus_frame) fmap"
  pending_builds :: "(string, pending_anchor_build) fmap"
  pending_cf_events :: "(string, event list) fmap"
  buffered_votes :: "(string, vote list) fmap"
  finalized_cfs :: "consensus_frame list"
  persisted_anchor_ids :: "string fset"
  local_validator_id :: string
  last_build_result :: "anchor_build_result option"
  last_apply_failure :: "apply_failure option"

definition manager_new :: "ext \<Rightarrow> consensus_config \<Rightarrow> string \<Rightarrow> 's consensus_manager" where
  "manager_new E c v =
     \<lparr>cm_config = c, cm_builder = builder_new E c, pending_cfs = fmempty, pending_builds = fmempty,
      pending_cf_events = fmempty, buffered_votes = fmempty, finalized_cfs = [], persisted_anchor_ids = {||},
      local_validator_id = v, last_build_result = None, last_apply_failure = None\<rparr>"

definition manager_with_shared :: "consensus_config \<Rightarrow> string \<Rightarrow> 's shared_state \<Rightarrow> 's consensus_manager" where
  "manager_with_shared c v sh =
     \<lparr>cm_config = c, cm_builder = with_shared_state_manager c sh, pending_cfs = fmempty, pending_builds = fmempty,
      pending_cf_events = fmempty, buffered_votes = fmempty, finalized_cfs = [], persisted_anchor_ids = {||},
      local_validator_id = v, last_build_result = None, last_apply_failure = None\<rparr>"

section \<open>Proposing\<close>

definition can_start_new_pending_build :: "'s consensus_manager \<Rightarrow> bool" where
  "can_start_new_pending_build m \<longleftrightarrow> fmlen (pending_builds m) = 0"

definition collect_in_flight_event_ids :: "'s consensus_manager \<Rightarrow> event_id fset" where
  "collect_in_flight_event_ids m =
     fset_of_list (concat (map (\<lambda>(_, p). event_ids (pb_anchor p)) (entries (pending_builds m)))
       @ concat (map (\<lambda>(_, es). map ev_id es) (entries (pending_cf_events m))))"

definition finalize_pending_build ::
  "ext \<Rightarrow> 's consensus_manager \<Rightarrow> pending_anchor_build \<Rightarrow> u64 \<Rightarrow> u64 \<Rightarrow> 's consensus_manager \<times> consensus_frame" where
  "finalize_pending_build E m p rnd now =
     (let c = cf_new E rnd (pb_anchor p) (local_validator_id m) now
      in (m\<lparr>pending_builds := fmupd (cf_id c) p (pending_builds m),
            pending_cfs := fmupd (cf_id c) c (pending_cfs m)\<rparr>, c))"

definition try_create_cf ::
  "ext \<Rightarrow> (bytes \<Rightarrow> object_envelope option) \<Rightarrow> 's consensus_manager \<Rightarrow> dag \<Rightarrow> vlc \<Rightarrow> u64 \<Rightarrow> u64 \<Rightarrow> u64
   \<Rightarrow> ('s consensus_manager \<times> consensus_frame option) option" where
  "try_create_cf E de m d v rnd now now' =
     (if \<not> can_start_new_pending_build m then Some (m, None)
      else case prepare_build E de (cm_builder m) d v (collect_in_flight_event_ids m) now of
             None \<Rightarrow> None
           | Some (Inl _) \<Rightarrow> Some (m, None)
           | Some (Inr p) \<Rightarrow> (let (m1, c) = finalize_pending_build E m p rnd now' in Some (m1, Some c)))"

definition try_create_cf_heartbeat ::
  "ext \<Rightarrow> (bytes \<Rightarrow> object_envelope option) \<Rightarrow> 's consensus_manager \<Rightarrow> dag \<Rightarrow> vlc \<Rightarrow> u64 \<Rightarrow> u64 \<Rightarrow> u64 \<Rightarrow> u64 \<Rightarrow> u64
   \<Rightarrow> ('s consensus_manager \<times> consensus_frame option) option" where
  "try_create_cf_heartbeat E de m d v interval rnd instant now now' =
     (if \<not> can_start_new_pending_build m then Some (m, None)
      else case prepare_build_heartbeat E de (cm_builder m) d v interval (collect_in_flight_event_ids m) instant now of
             None \<Rightarrow> None
           | Some (Inl _) \<Rightarrow> Some (m, None)
           | Some (Inr p) \<Rightarrow> (let (m1, c) = finalize_pending_build E m p rnd now' in Some (m1, Some c)))"

section \<open>Frames and votes\<close>

definition is_finalized_cf :: "'s consensus_manager \<Rightarrow> string \<Rightarrow> bool" where
  "is_finalized_cf m i \<longleftrightarrow> list_ex (\<lambda>c. cf_id c = i) (finalized_cfs m)"

definition has_cf :: "'s consensus_manager \<Rightarrow> string \<Rightarrow> bool" where
  "has_cf m i \<longleftrightarrow> fmlookup (pending_cfs m) i \<noteq> None \<or> list_ex (\<lambda>c. cf_id c = i) (finalized_cfs m)"

text \<open>A validator's first vote counts.\<close>

definition add_new_vote :: "vote \<Rightarrow> consensus_frame \<Rightarrow> consensus_frame" where
  "add_new_vote v c = (if fmlookup (votes c) (validator_id v) \<noteq> None then c else add_vote c v)"

definition receive_cf :: "'s consensus_manager \<Rightarrow> consensus_frame \<Rightarrow> 's consensus_manager" where
  "receive_cf m c =
     (let i = cf_id c
      in if fmlookup (pending_cfs m) i \<noteq> None then m
         else case fmlookup (buffered_votes m) i of
                None \<Rightarrow> m\<lparr>pending_cfs := fmupd i c (pending_cfs m)\<rparr>
              | Some vs \<Rightarrow> m\<lparr>pending_cfs := fmupd i (fold add_new_vote vs c) (pending_cfs m),
                             buffered_votes := fmdrop i (buffered_votes m)\<rparr>)"

definition vote_for_cf ::
  "ed25519 \<Rightarrow> 's consensus_manager \<Rightarrow> string \<Rightarrow> bool \<Rightarrow> bytes option \<Rightarrow> u64 \<Rightarrow> 's consensus_manager \<times> vote option" where
  "vote_for_cf S m i b key now =
     (case fmlookup (pending_cfs m) i of
        None \<Rightarrow> (m, None)
      | Some c \<Rightarrow>
          if fmlookup (votes c) (local_validator_id m) \<noteq> None then (m, None)
          else (let v0 = vote_new (local_validator_id m) i b now;
                    v = (case key of None \<Rightarrow> v0 | Some k \<Rightarrow> fst (vote_sign S v0 k))
                in (m\<lparr>pending_cfs := fmupd i (add_vote c v) (pending_cfs m)\<rparr>, Some v)))"

section \<open>The decision on a frame\<close>

fun gc_retain :: "nat \<Rightarrow> string fset \<Rightarrow> consensus_frame list \<Rightarrow> consensus_frame list \<times> string list" where
  "gc_retain excess saved [] = ([], [])"
| "gc_retain excess saved (c # cs) =
     (if excess = 0 then (c # cs, [])
      else if an_id (cf_anchor c) |\<in>| saved
      then (let (kept, ids) = gc_retain (excess - 1) saved cs in (kept, an_id (cf_anchor c) # ids))
      else (let (kept, ids) = gc_retain excess saved cs in (c # kept, ids)))"

definition MAX_FINALIZED_CFS :: nat where
  "MAX_FINALIZED_CFS = 1000"

definition gc_finalized_cfs :: "'s consensus_manager \<Rightarrow> 's consensus_manager" where
  "gc_finalized_cfs m =
     (if length (finalized_cfs m) \<le> MAX_FINALIZED_CFS then m
      else let (kept, ids) = gc_retain (length (finalized_cfs m) - MAX_FINALIZED_CFS)
                               (persisted_anchor_ids m) (finalized_cfs m)
           in m\<lparr>finalized_cfs := kept, persisted_anchor_ids := persisted_anchor_ids m |-| fset_of_list ids\<rparr>)"

definition decision :: "consensus_config \<Rightarrow> consensus_frame \<Rightarrow> u64 \<Rightarrow> cf_decision option" where
  "decision cfg c now =
     (if check_quorum c (validator_count cfg) then Some DFinalize
      else if check_rejection c (validator_count cfg) then Some DReject
      else if is_timeout c (cf_timeout_ms cfg) now then Some DTimeout
      else None)"

definition failure_of :: "string \<Rightarrow> consensus_frame \<Rightarrow> apply_failure_role \<Rightarrow> anchor_build_error \<Rightarrow> apply_failure" where
  "failure_of i c role e =
     \<lparr>af_cf_id = i, af_anchor_id = an_id (cf_anchor c), af_anchor_depth = an_depth (cf_anchor c),
      af_role = role, af_reason = e\<rparr>"

text \<open>The apply of a frame at quorum, with the pending frame already removed: proposer, fallback, follower.\<close>

definition follower_apply ::
  "ext \<Rightarrow> (bytes \<Rightarrow> object_envelope option) \<Rightarrow> ('s, 'b) b4_store \<Rightarrow> 's consensus_manager \<Rightarrow> string \<Rightarrow> consensus_frame
   \<Rightarrow> event list \<Rightarrow> apply_failure_role \<Rightarrow> u64 \<Rightarrow> ('s consensus_manager \<times> (apply_failure + unit)) option" where
  "follower_apply E de ops m i c es role instant =
     (case apply_follower_finalized_cf E de ops (cm_builder m) es c instant of
        None \<Rightarrow> None
      | Some (b, Inr _) \<Rightarrow> Some (m\<lparr>cm_builder := b\<rparr>, Inr ())
      | Some (b, Inl e) \<Rightarrow> Some (m\<lparr>cm_builder := b\<rparr>, Inl (failure_of i c role e)))"

definition apply_outcome ::
  "ext \<Rightarrow> (bytes \<Rightarrow> object_envelope option) \<Rightarrow> ('s, 'b) b4_store \<Rightarrow> 's consensus_manager \<Rightarrow> string \<Rightarrow> consensus_frame
   \<Rightarrow> u64 \<Rightarrow> ('s consensus_manager \<times> (apply_failure + unit)) option" where
  "apply_outcome E de ops m i c instant =
     (let m1 = m\<lparr>pending_builds := fmdrop i (pending_builds m), pending_cf_events := fmdrop i (pending_cf_events m)\<rparr>
      in case fmlookup (pending_builds m) i of
           Some p \<Rightarrow>
             (case commit_build E de ops (cm_builder m) p instant of
                None \<Rightarrow> None
              | Some (b, Inr s) \<Rightarrow>
                  Some (m1\<lparr>cm_builder := b,
                          last_build_result := Some \<lparr>br_anchor = cf_anchor c, br_state_summary = s, br_routed_events = routed p\<rparr>\<rparr>,
                        Inr ())
              | Some (b, Inl (SnapshotMismatch _ _)) \<Rightarrow>
                  follower_apply E de ops (m1\<lparr>cm_builder := b\<rparr>) i c (all_events p) LeaderFollowerFallback instant
              | Some (b, Inl e) \<Rightarrow> Some (m1\<lparr>cm_builder := b\<rparr>, Inl (failure_of i c LeaderCommitError e)))
         | None \<Rightarrow>
             follower_apply E de ops m1 i c
               (case fmlookup (pending_cf_events m) i of None \<Rightarrow> [] | Some es \<Rightarrow> es) FollowerApply instant)"

definition discard :: "'s consensus_manager \<Rightarrow> string \<Rightarrow> 's consensus_manager" where
  "discard m i = m\<lparr>pending_cfs := fmdrop i (pending_cfs m), pending_builds := fmdrop i (pending_builds m),
     pending_cf_events := fmdrop i (pending_cf_events m)\<rparr>"

definition classify_finalization ::
  "ext \<Rightarrow> (bytes \<Rightarrow> object_envelope option) \<Rightarrow> ('s, 'b) b4_store \<Rightarrow> 's consensus_manager \<Rightarrow> string \<Rightarrow> u64 \<Rightarrow> u64
   \<Rightarrow> ('s consensus_manager \<times> cf_lifecycle_outcome) option" where
  "classify_finalization E de ops m i now instant =
     (case fmlookup (pending_cfs m) i of
        None \<Rightarrow> Some (m, LPending)
      | Some c0 \<Rightarrow>
          (case decision (cm_config m) c0 now of
             Some DFinalize \<Rightarrow>
               (let c = cf_finalize c0 now
                in case apply_outcome E de ops (m\<lparr>pending_cfs := fmdrop i (pending_cfs m)\<rparr>) i c instant of
                     None \<Rightarrow> None
                   | Some (m1, Inr _) \<Rightarrow>
                       Some (gc_finalized_cfs (m1\<lparr>last_apply_failure := None, finalized_cfs := finalized_cfs m1 @ [c]\<rparr>),
                             LFinalized i)
                   | Some (m1, Inl f) \<Rightarrow> Some (m1\<lparr>last_apply_failure := Some f\<rparr>, LApplyFailed f))
           | Some DReject \<Rightarrow> Some (discard m i, LRejected i)
           | Some DTimeout \<Rightarrow> Some (discard m i, LTimedOut i)
           | None \<Rightarrow> Some (m, LPending)))"

text \<open>
  The code goes through \<open>cf.votes.values()\<close> of a hash map in no fixed order, the model in the order of the
  keys. The order matters only when two votes of the map name the same voter, which \<open>keyed\<close> frames exclude.
\<close>

definition receive_finalized_cf ::
  "ext \<Rightarrow> (bytes \<Rightarrow> object_envelope option) \<Rightarrow> ('s, 'b) b4_store \<Rightarrow> 's consensus_manager \<Rightarrow> consensus_frame \<Rightarrow> u64 \<Rightarrow> u64
   \<Rightarrow> ('s consensus_manager \<times> cf_lifecycle_outcome) option" where
  "receive_finalized_cf E de ops m c now instant =
     (let i = cf_id c
      in if is_finalized_cf m i then Some (m, LPending)
         else classify_finalization E de ops
                (case fmlookup (pending_cfs m) i of
                   Some c0 \<Rightarrow> m\<lparr>pending_cfs := fmupd i (fold add_new_vote (map snd (entries (votes c))) c0) (pending_cfs m)\<rparr>
                 | None \<Rightarrow> receive_cf m c) i now instant)"

definition receive_vote ::
  "ext \<Rightarrow> (bytes \<Rightarrow> object_envelope option) \<Rightarrow> ('s, 'b) b4_store \<Rightarrow> 's consensus_manager \<Rightarrow> vote \<Rightarrow> u64 \<Rightarrow> u64
   \<Rightarrow> ('s consensus_manager \<times> cf_lifecycle_outcome) option" where
  "receive_vote E de ops m v now instant =
     (let i = vt_cf_id v
      in case fmlookup (pending_cfs m) i of
           Some c \<Rightarrow>
             if fmlookup (votes c) (validator_id v) \<noteq> None then Some (m, LPending)
             else classify_finalization E de ops (m\<lparr>pending_cfs := fmupd i (add_vote c v) (pending_cfs m)\<rparr>) i now instant
         | None \<Rightarrow>
             Some (m\<lparr>buffered_votes :=
                      fmupd i ((case fmlookup (buffered_votes m) i of None \<Rightarrow> [] | Some vs \<Rightarrow> vs) @ [v]) (buffered_votes m)\<rparr>,
                   LPending))"

section \<open>Maintenance\<close>

definition mark_anchor_persisted :: "'s consensus_manager \<Rightarrow> string \<Rightarrow> 's consensus_manager" where
  "mark_anchor_persisted m a = m\<lparr>persisted_anchor_ids := finsert a (persisted_anchor_ids m)\<rparr>"

definition cleanup_one :: "string \<Rightarrow> 's consensus_manager \<Rightarrow> 's consensus_manager" where
  "cleanup_one i m =
     (let m1 = (if fmlookup (pending_cfs m) i \<noteq> None
                then (discard m i)\<lparr>buffered_votes := fmdrop i (buffered_votes m)\<rparr> else m)
      in case last_apply_failure m1 of
           Some f \<Rightarrow> if af_cf_id f = i then m1\<lparr>last_apply_failure := None\<rparr> else m1
         | None \<Rightarrow> m1)"

definition cleanup_timeout_cfs :: "'s consensus_manager \<Rightarrow> u64 \<Rightarrow> 's consensus_manager \<times> nat" where
  "cleanup_timeout_cfs m now =
     (let ids = map fst (filter (\<lambda>(_, c). is_timeout c (cf_timeout_ms (cm_config m)) now) (entries (pending_cfs m)))
      in (fold cleanup_one ids m, length ids))"

definition update_validator_count :: "'s consensus_manager \<Rightarrow> u64 \<Rightarrow> 's consensus_manager" where
  "update_validator_count m n = m\<lparr>cm_config := (cm_config m)\<lparr>validator_count := n\<rparr>\<rparr>"

definition apply_cf_state_changes :: "'s consensus_manager \<Rightarrow> dag \<Rightarrow> consensus_frame \<Rightarrow> 's consensus_manager" where
  "apply_cf_state_changes m d c =
     m\<lparr>pending_cf_events := fmupd (cf_id c) (frame_events d (cf_anchor c)) (pending_cf_events m)\<rparr>"

definition last_finalized_cf :: "'s consensus_manager \<Rightarrow> consensus_frame option" where
  "last_finalized_cf m = (if finalized_cfs m = [] then None else Some (last (finalized_cfs m)))"

definition verify_cf_merkle_roots :: "consensus_frame \<Rightarrow> bool" where
  "verify_cf_merkle_roots c =
     (case merkle_roots (cf_anchor c) of
        None \<Rightarrow> True
      | Some r \<Rightarrow>
          \<not> (event_ids (cf_anchor c) = [] \<and> events_root r \<noteq> 0)
          \<and> \<not> (global_state_root r = 0 \<and> subnet_roots r \<noteq> fmempty)
          \<and> (subnet_roots r = fmempty \<or> fmlookup (subnet_roots r) SubnetId_ROOT \<noteq> None))"

section \<open>The well-formedness of the manager\<close>

text \<open>The calls the engine makes, in any order.\<close>

datatype manager_op =
    OpCreate dag vlc u64 u64 u64
  | OpHeartbeat dag vlc u64 u64 u64 u64 u64
  | OpReceive consensus_frame
  | OpReceiveFinalized consensus_frame u64 u64
  | OpVoteFor string bool "bytes option" u64
  | OpReceiveVote vote u64 u64
  | OpClassify string u64 u64
  | OpPersisted string
  | OpCleanup u64
  | OpCount u64
  | OpCollect dag consensus_frame

fun manager_step ::
  "ext \<Rightarrow> ed25519 \<Rightarrow> (bytes \<Rightarrow> object_envelope option) \<Rightarrow> ('s, 'b) b4_store \<Rightarrow> manager_op \<Rightarrow> 's consensus_manager
   \<Rightarrow> 's consensus_manager option" where
  "manager_step E S de ops (OpCreate d v r now now') m = map_option fst (try_create_cf E de m d v r now now')"
| "manager_step E S de ops (OpHeartbeat d v iv r instant now now') m =
     map_option fst (try_create_cf_heartbeat E de m d v iv r instant now now')"
| "manager_step E S de ops (OpReceive c) m = Some (receive_cf m c)"
| "manager_step E S de ops (OpReceiveFinalized c now instant) m =
     map_option fst (receive_finalized_cf E de ops m c now instant)"
| "manager_step E S de ops (OpVoteFor i b key now) m = Some (fst (vote_for_cf S m i b key now))"
| "manager_step E S de ops (OpReceiveVote v now instant) m = map_option fst (receive_vote E de ops m v now instant)"
| "manager_step E S de ops (OpClassify i now instant) m =
     map_option fst (classify_finalization E de ops m i now instant)"
| "manager_step E S de ops (OpPersisted a) m = Some (mark_anchor_persisted m a)"
| "manager_step E S de ops (OpCleanup now) m = Some (fst (cleanup_timeout_cfs m now))"
| "manager_step E S de ops (OpCount n) m = Some (update_validator_count m n)"
| "manager_step E S de ops (OpCollect d c) m = Some (apply_cf_state_changes m d c)"

fun manager_run ::
  "ext \<Rightarrow> ed25519 \<Rightarrow> (bytes \<Rightarrow> object_envelope option) \<Rightarrow> ('s, 'b) b4_store \<Rightarrow> manager_op list \<Rightarrow> 's consensus_manager
   \<Rightarrow> 's consensus_manager option" where
  "manager_run E S de ops [] m = Some m"
| "manager_run E S de ops (x # xs) m =
     (case manager_step E S de ops x m of None \<Rightarrow> None | Some m1 \<Rightarrow> manager_run E S de ops xs m1)"

text \<open>The votes of a frame are votes for that frame, filed under their validators.\<close>

definition keyed :: "consensus_frame \<Rightarrow> bool" where
  "keyed c \<longleftrightarrow> fmpred (\<lambda>i v. validator_id v = i \<and> vt_cf_id v = cf_id c) (votes c)"

fun op_keyed :: "manager_op \<Rightarrow> bool" where
  "op_keyed (OpReceive c) = keyed c"
| "op_keyed (OpReceiveFinalized c _ _) = keyed c"
| "op_keyed _ = True"

fun op_count :: "manager_op \<Rightarrow> u64 option" where
  "op_count (OpCount n) = Some n"
| "op_count _ = None"

text \<open>A build fits the frame it is stored with.\<close>

definition build_fits :: "consensus_frame \<Rightarrow> pending_anchor_build \<Rightarrow> bool" where
  "build_fits c p \<longleftrightarrow> pb_anchor p = cf_anchor c \<and> new_anchor_depth p = an_depth (cf_anchor c) + 1
     \<and> new_last_fold_vlc p = logical_time (an_vlc (cf_anchor c))"

definition builds_ok :: "'s consensus_manager \<Rightarrow> bool" where
  "builds_ok m \<longleftrightarrow> fmlen (pending_builds m) \<le> 1 \<and>
     (\<forall>i p. fmlookup (pending_builds m) i = Some p \<longrightarrow> (\<exists>c. fmlookup (pending_cfs m) i = Some c \<and> build_fits c p))"

definition frames_ok :: "'s consensus_manager \<Rightarrow> bool" where
  "frames_ok m \<longleftrightarrow> fmpred (\<lambda>i c. cf_id c = i \<and> keyed c) (pending_cfs m) \<and>
     fmpred (\<lambda>i vs. \<forall>v\<in>set vs. vt_cf_id v = i) (buffered_votes m)"

text \<open>Every finalized frame had a quorum for a validator count the manager was configured with.\<close>

definition finalized_ok :: "u64 set \<Rightarrow> 's consensus_manager \<Rightarrow> bool" where
  "finalized_ok N m \<longleftrightarrow> validator_count (cm_config m) \<in> N \<and>
     (\<forall>c\<in>set (finalized_cfs m). keyed c \<and> cf_stat c = CF_Finalized \<and> (\<exists>n\<in>N. check_quorum c n))"

definition manager_ok :: "u64 set \<Rightarrow> 's consensus_manager \<Rightarrow> bool" where
  "manager_ok N m \<longleftrightarrow> builds_ok m \<and> frames_ok m \<and> finalized_ok N m"

subsection \<open>Votes\<close>

lemma add_vote_simps [simp]:
  "cf_id (add_vote c v) = cf_id c" "cf_anchor (add_vote c v) = cf_anchor c"
  "cf_id (add_new_vote v c) = cf_id c" "cf_anchor (add_new_vote v c) = cf_anchor c"
  by (simp_all add: add_vote_def add_new_vote_def)

lemma fold_add_new_vote [simp]:
  "cf_id (fold add_new_vote vs c) = cf_id c" "cf_anchor (fold add_new_vote vs c) = cf_anchor c"
  by (induction vs arbitrary: c) simp_all

lemma keyed_add_vote: "keyed c \<Longrightarrow> vt_cf_id v = cf_id c \<Longrightarrow> keyed (add_vote c v)"
  by (auto simp: keyed_def add_vote_def intro: fmpred_upd)

lemma keyed_fold: "keyed c \<Longrightarrow> \<forall>v\<in>set vs. vt_cf_id v = cf_id c \<Longrightarrow> keyed (fold add_new_vote vs c)"
  by (induction vs arbitrary: c) (simp_all add: add_new_vote_def keyed_add_vote)

lemma build_fits_cong: "cf_anchor c = cf_anchor c' \<Longrightarrow> build_fits c p = build_fits c' p"
  by (simp add: build_fits_def)

lemma vote_sign_simps [simp]:
  "vt_cf_id (fst (vote_sign S v k)) = vt_cf_id v" "validator_id (fst (vote_sign S v k)) = validator_id v"
  by (simp_all add: vote_sign_def)

subsection \<open>Frames\<close>

lemma pending_okD: "frames_ok m \<Longrightarrow> fmlookup (pending_cfs m) i = Some c \<Longrightarrow> cf_id c = i \<and> keyed c"
  unfolding frames_ok_def by (blast dest: fmpredD)

text \<open>Replacing or adding a frame that keeps the anchor.\<close>

lemma put_frame_ok:
  assumes m: "manager_ok N m" and c: "cf_id c = i" "keyed c"
    and a: "\<And>c0. fmlookup (pending_cfs m) i = Some c0 \<Longrightarrow> cf_anchor c0 = cf_anchor c"
  shows "manager_ok N (m\<lparr>pending_cfs := fmupd i c (pending_cfs m)\<rparr>)"
proof -
  have "\<exists>c'. fmlookup (fmupd i c (pending_cfs m)) j = Some c' \<and> build_fits c' p"
    if p: "fmlookup (pending_builds m) j = Some p" for j p
  proof -
    obtain c0 where "fmlookup (pending_cfs m) j = Some c0" "build_fits c0 p"
      using m p unfolding manager_ok_def builds_ok_def by blast
    then show ?thesis
      using a [of c0] build_fits_cong [of c0 c p] by (cases "j = i") auto
  qed
  then have "builds_ok (m\<lparr>pending_cfs := fmupd i c (pending_cfs m)\<rparr>)"
    using m by (simp add: manager_ok_def builds_ok_def)
  moreover have "frames_ok (m\<lparr>pending_cfs := fmupd i c (pending_cfs m)\<rparr>)"
    using m c by (simp add: manager_ok_def frames_ok_def fmpred_upd)
  ultimately show ?thesis
    using m by (simp add: manager_ok_def finalized_ok_def)
qed

lemma buffer_ok:
  "manager_ok N m \<Longrightarrow> fmpred (\<lambda>i vs. \<forall>v\<in>set vs. vt_cf_id v = i) b \<Longrightarrow> manager_ok N (m\<lparr>buffered_votes := b\<rparr>)"
  by (simp add: manager_ok_def builds_ok_def frames_ok_def finalized_ok_def)

lemma fmpred_buffered: "manager_ok N m \<Longrightarrow> fmpred (\<lambda>i vs. \<forall>v\<in>set vs. vt_cf_id v = i) (buffered_votes m)"
  by (simp add: manager_ok_def frames_ok_def)

lemma receive_cf_ok: "manager_ok N m \<Longrightarrow> keyed c \<Longrightarrow> manager_ok N (receive_cf m c)"
proof (cases "fmlookup (pending_cfs m) (cf_id c)")
  case None
  assume m: "manager_ok N m" and k: "keyed c"
  show ?thesis
  proof (cases "fmlookup (buffered_votes m) (cf_id c)")
    case (Some vs)
    then have "keyed (fold add_new_vote vs c)"
      using fmpred_buffered [OF m] k by (intro keyed_fold) (auto dest: fmpredD)
    moreover have "fmpred (\<lambda>i vs. \<forall>v\<in>set vs. vt_cf_id v = i) (fmdrop (cf_id c) (buffered_votes m))"
      using fmpred_buffered [OF m] by (rule fmpred_drop)
    ultimately show ?thesis
      using buffer_ok [OF put_frame_ok [OF m, of "fold add_new_vote vs c" "cf_id c"]] None Some
      by (simp add: receive_cf_def Let_def)
  qed (use None m k put_frame_ok [OF m, of c "cf_id c"] in \<open>simp add: receive_cf_def Let_def\<close>)
qed (simp add: receive_cf_def Let_def)

lemma fmlen_drop_le: "fmlen (fmdrop i b) \<le> fmlen b"
  by (intro fcard_mono) auto

lemma drop_build_ok:
  assumes "manager_ok N m"
  shows "manager_ok N (m\<lparr>pending_cfs := fmdrop i (pending_cfs m), pending_builds := fmdrop i (pending_builds m), pending_cf_events := e\<rparr>)"
proof -
  have "fmlen (fmdrop i (pending_builds m)) \<le> 1"
    using assms fmlen_drop_le [of i "pending_builds m"] by (simp add: manager_ok_def builds_ok_def)
  moreover have "\<exists>c. fmlookup (fmdrop i (pending_cfs m)) j = Some c \<and> build_fits c p"
    if "fmlookup (fmdrop i (pending_builds m)) j = Some p" for j p
    using that assms by (auto simp: manager_ok_def builds_ok_def split: if_splits)
  ultimately show ?thesis
    using assms by (simp add: manager_ok_def builds_ok_def frames_ok_def finalized_ok_def fmpred_drop)
qed

lemma discard_ok: "manager_ok N m \<Longrightarrow> manager_ok N (discard m i)"
  by (simp add: discard_def drop_build_ok)

subsection \<open>The apply of a frame\<close>

text \<open>The snapshot of the builder after a finalized anchor.\<close>

definition advanced :: "builder_state_snapshot \<Rightarrow> anchor \<Rightarrow> hash_value \<Rightarrow> builder_state_snapshot" where
  "advanced s a root = \<lparr>bs_last_anchor_id = Some (an_id a), bs_anchor_depth = an_depth a + 1,
     bs_last_fold_vlc = logical_time (an_vlc a), bs_last_anchor_chain_root = root,
     bs_total_anchor_count = bs_total_anchor_count s + 1\<rparr>"

definition one_anchor :: "'s anchor_builder \<Rightarrow> anchor \<Rightarrow> 's anchor_builder \<Rightarrow> bool" where
  "one_anchor b a b' \<longleftrightarrow> (\<exists>root. take_snapshot b' = advanced (take_snapshot b) a root)"

text \<open>All or nothing, as far as the anchor chain goes.\<close>

definition settles :: "'s anchor_builder \<Rightarrow> anchor \<Rightarrow> 'e + 'x \<Rightarrow> 's anchor_builder \<Rightarrow> bool" where
  "settles b a r b' \<longleftrightarrow> (case r of Inl _ \<Rightarrow> take_snapshot b' = take_snapshot b | Inr _ \<Rightarrow> one_anchor b a b')"

lemma settles_simps [simp]:
  "settles b a (Inl e) b' \<longleftrightarrow> take_snapshot b' = take_snapshot b" "settles b a (Inr x) b' \<longleftrightarrow> one_anchor b a b'"
  by (simp_all add: settles_def)

lemma commit_build_snapshot:
  assumes "commit_build E de ops b p t = Some (b', r)" and "build_fits c p"
  shows "settles b (cf_anchor c) r b'"
proof (cases r)
  case (Inl e)
  then show ?thesis
    using assms(1) by (auto simp: commit_build_def Let_def take_snapshot_def clear_overlay_for_def
        split: if_splits option.splits sum.splits)
next
  case (Inr m)
  then obtain sh where "in_agreement b' (b\<lparr>ab_shared := sh, last_anchor := Some (pb_anchor p), anchor_depth := new_anchor_depth p,
      last_fold_vlc := new_last_fold_vlc p, last_anchor_chain_root := new_anchor_chain_root p,
      total_anchor_count := total_anchor_count b + 1\<rparr>)"
    using commit_build_agree [of E de ops b p t b' m] assms(1) by blast
  then show ?thesis
    using assms(2) by (simp add: Inr in_agreement_def one_anchor_def advanced_def take_snapshot_def build_fits_def)
qed

lemma synchronize_snapshot: "one_anchor b a (synchronize_finalized_anchor E b a t)"
  by (cases "merkle_roots a")
    (simp_all add: one_anchor_def advanced_def take_snapshot_def synchronize_finalized_anchor_def)

lemma one_anchor_cong: "take_snapshot b = take_snapshot b0 \<Longrightarrow> one_anchor b a b' = one_anchor b0 a b'"
  by (simp add: one_anchor_def)

lemma settles_cong: "take_snapshot b = take_snapshot b0 \<Longrightarrow> settles b a r b' = settles b0 a r b'"
  by (cases r) (simp_all add: one_anchor_def)

lemma with_shared_snapshot [simp]: "take_snapshot (b\<lparr>ab_shared := sh\<rparr>) = take_snapshot b"
  by (simp add: take_snapshot_def)

lemma follower_snapshot:
  assumes "apply_follower_finalized_cf E de ops b es c t = Some (b', r)"
  shows "settles b (cf_anchor c) r b'"
proof (cases r)
  case (Inl e)
  then show ?thesis
    using assms by (auto simp: apply_follower_finalized_cf_def Let_def split: if_splits option.splits sum.splits)
next
  case (Inr s)
  then obtain sh where "b' = synchronize_finalized_anchor E
      (clear_overlay_for (ingest_outcomes (b\<lparr>ab_shared := sh\<rparr>) (an_id (cf_anchor c)) es s) (map ev_id es)) (cf_anchor c) t"
    using assms by (auto simp: apply_follower_finalized_cf_def Let_def split: if_splits option.splits sum.splits)
  then show ?thesis
    using synchronize_snapshot one_anchor_cong by (metis Inr overlay_simps(1,3) settles_simps(2) with_shared_snapshot)
qed

lemma follower_apply_cases:
  assumes "follower_apply E de ops m i c es role t = Some (m1, r)"
  shows "\<exists>b. m1 = m\<lparr>cm_builder := b\<rparr> \<and>
    settles (cm_builder m) (cf_anchor c) r b"
proof -
  obtain b s where f: "apply_follower_finalized_cf E de ops (cm_builder m) es c t = Some (b, s)"
    using assms by (auto simp: follower_apply_def split: option.splits)
  with assms have "m1 = m\<lparr>cm_builder := b\<rparr>" "r = (case s of Inl e \<Rightarrow> Inl (failure_of i c role e) | Inr _ \<Rightarrow> Inr ())"
    by (auto simp: follower_apply_def split: sum.splits)
  with follower_snapshot [OF f] show ?thesis
    by (auto split: sum.splits)
qed

lemma apply_outcome_cases:
  assumes "apply_outcome E de ops m i c t = Some (m1, r)"
    and fits: "\<And>p. fmlookup (pending_builds m) i = Some p \<Longrightarrow> build_fits c p"
  shows "\<exists>b l. m1 = m\<lparr>pending_builds := fmdrop i (pending_builds m), pending_cf_events := fmdrop i (pending_cf_events m),
      cm_builder := b, last_build_result := l\<rparr> \<and>
    settles (cm_builder m) (cf_anchor c) r b"
proof (cases "fmlookup (pending_builds m) i")
  case None
  let ?m1 = "m\<lparr>pending_builds := fmdrop i (pending_builds m), pending_cf_events := fmdrop i (pending_cf_events m)\<rparr>"
  have "follower_apply E de ops ?m1 i c (case fmlookup (pending_cf_events m) i of None \<Rightarrow> [] | Some es \<Rightarrow> es) FollowerApply t = Some (m1, r)"
    using assms(1) None by (simp add: apply_outcome_def Let_def)
  from follower_apply_cases [OF this] obtain b where b: "m1 = ?m1\<lparr>cm_builder := b\<rparr>"
    "settles (cm_builder m) (cf_anchor c) r b"
    by auto
  then show ?thesis
    by (intro exI [of _ b] exI [of _ "last_build_result m"]) simp
next
  case (Some p)
  let ?m1 = "m\<lparr>pending_builds := fmdrop i (pending_builds m), pending_cf_events := fmdrop i (pending_cf_events m)\<rparr>"
  obtain b s where cb: "commit_build E de ops (cm_builder m) p t = Some (b, s)"
    using assms(1) Some by (auto simp: apply_outcome_def Let_def split: option.splits)
  note snap = commit_build_snapshot [OF cb fits [OF Some]]
  show ?thesis
  proof (cases s)
    case (Inr x)
    then have "m1 = ?m1\<lparr>cm_builder := b, last_build_result :=
        Some \<lparr>br_anchor = cf_anchor c, br_state_summary = x, br_routed_events = routed p\<rparr>\<rparr>" "r = Inr ()"
      using assms(1) Some cb by (simp_all add: apply_outcome_def Let_def)
    with snap Inr show ?thesis
      by (intro exI [of _ b] exI [of _ "Some \<lparr>br_anchor = cf_anchor c, br_state_summary = x, br_routed_events = routed p\<rparr>"]) simp
  next
    case (Inl e)
    show ?thesis
    proof (cases "\<exists>x y. e = SnapshotMismatch x y")
      case True
      then have "follower_apply E de ops (?m1\<lparr>cm_builder := b\<rparr>) i c (all_events p) LeaderFollowerFallback t = Some (m1, r)"
        using assms(1) Some cb Inl by (auto simp: apply_outcome_def Let_def)
      from follower_apply_cases [OF this] obtain b' where b': "m1 = ?m1\<lparr>cm_builder := b'\<rparr>" "settles b (cf_anchor c) r b'"
        by auto
      with settles_cong [of b "cm_builder m" "cf_anchor c" r b'] snap Inl show ?thesis
        by (intro exI [of _ b'] exI [of _ "last_build_result m"]) simp
    next
      case False
      then have "m1 = ?m1\<lparr>cm_builder := b\<rparr>" "r = Inl (failure_of i c LeaderCommitError e)"
        using assms(1) Some cb Inl by (simp_all add: apply_outcome_def Let_def split: anchor_build_error.splits)
      with snap Inl show ?thesis
        by (intro exI [of _ b] exI [of _ "last_build_result m"]) simp
    qed
  qed
qed

subsection \<open>Finalized frames and their collection\<close>

lemma gc_retain_subset: "set (fst (gc_retain k ps cs)) \<subseteq> set cs"
  by (induction k ps cs rule: gc_retain.induct) (auto split: prod.splits)

lemma gc_retain_keeps: "c \<in> set cs \<Longrightarrow> an_id (cf_anchor c) |\<notin>| ps \<Longrightarrow> c \<in> set (fst (gc_retain k ps cs))"
  by (induction k ps cs rule: gc_retain.induct) (auto split: prod.splits)

lemma gc_retain_length:
  "length cs \<le> length (fst (gc_retain k ps cs)) + k"
  by (induction k ps cs rule: gc_retain.induct) (auto split: prod.splits)

lemma gc_finalized_cases: "\<exists>cs ps. gc_finalized_cfs m = m\<lparr>finalized_cfs := cs, persisted_anchor_ids := ps\<rparr> \<and>
   set cs \<subseteq> set (finalized_cfs m) \<and>
   (\<forall>c\<in>set (finalized_cfs m). an_id (cf_anchor c) |\<notin>| persisted_anchor_ids m \<longrightarrow> c \<in> set cs) \<and>
   min (length (finalized_cfs m)) MAX_FINALIZED_CFS \<le> length cs"
proof (cases "length (finalized_cfs m) \<le> MAX_FINALIZED_CFS")
  case True
  then show ?thesis
    by (intro exI [of _ "finalized_cfs m"] exI [of _ "persisted_anchor_ids m"]) (simp add: gc_finalized_cfs_def)
next
  case False
  let ?k = "length (finalized_cfs m) - MAX_FINALIZED_CFS"
  obtain cs ids where g: "gc_retain ?k (persisted_anchor_ids m) (finalized_cfs m) = (cs, ids)"
    by (rule prod.exhaust)
  have "set cs \<subseteq> set (finalized_cfs m)" "MAX_FINALIZED_CFS \<le> length cs"
    using gc_retain_subset [of ?k "persisted_anchor_ids m" "finalized_cfs m"]
      gc_retain_length [of "finalized_cfs m" ?k "persisted_anchor_ids m"] False by (simp_all add: g)
  moreover have "\<forall>c\<in>set (finalized_cfs m). an_id (cf_anchor c) |\<notin>| persisted_anchor_ids m \<longrightarrow> c \<in> set cs"
    using gc_retain_keeps [of _ "finalized_cfs m" "persisted_anchor_ids m" ?k] by (simp add: g)
  ultimately show ?thesis
    using False by (intro exI [of _ cs] exI [of _ "persisted_anchor_ids m |-| fset_of_list ids"])
      (simp add: gc_finalized_cfs_def g)
qed

subsection \<open>The decision\<close>

definition removed_frame :: "'s consensus_manager \<Rightarrow> string \<Rightarrow> 's consensus_manager \<Rightarrow> bool" where
  "removed_frame m i m' \<longleftrightarrow> pending_cfs m' = fmdrop i (pending_cfs m) \<and> pending_builds m' = fmdrop i (pending_builds m) \<and>
     pending_cf_events m' = fmdrop i (pending_cf_events m) \<and> buffered_votes m' = buffered_votes m \<and> cm_config m' = cm_config m"

lemma removed_frame_ok:
  assumes "manager_ok N m" "removed_frame m i m'" "finalized_ok N m'"
  shows "manager_ok N m'"
  using drop_build_ok [OF assms(1), where i = i and e = "pending_cf_events m'"] assms(2,3)
  by (simp add: removed_frame_def manager_ok_def builds_ok_def frames_ok_def)

lemma classify_quorum:
  assumes m: "manager_ok N m" and c: "fmlookup (pending_cfs m) i = Some c"
    and q: "check_quorum c (validator_count (cm_config m))"
    and r: "classify_finalization E de ops m i now t = Some (m', out)"
  shows "removed_frame m i m' \<and>
    (out = LFinalized i \<and> one_anchor (cm_builder m) (cf_anchor c) (cm_builder m') \<and>
       set (finalized_cfs m') \<subseteq> insert (cf_finalize c now) (set (finalized_cfs m)) \<and>
       (\<forall>f\<in>insert (cf_finalize c now) (set (finalized_cfs m)). an_id (cf_anchor f) |\<notin>| persisted_anchor_ids m \<longrightarrow> f \<in> set (finalized_cfs m'))
     \<or> (\<exists>f. out = LApplyFailed f \<and> take_snapshot (cm_builder m') = take_snapshot (cm_builder m) \<and> finalized_cfs m' = finalized_cfs m))"
proof -
  let ?m = "m\<lparr>pending_cfs := fmdrop i (pending_cfs m)\<rparr>" and ?c = "cf_finalize c now"
  have cf: "cf_anchor ?c = cf_anchor c"
    by (simp add: cf_finalize_def)
  have fits: "build_fits ?c p" if "fmlookup (pending_builds ?m) i = Some p" for p
  proof -
    have "build_fits c p"
      using m c that by (fastforce simp: manager_ok_def builds_ok_def)
    then show ?thesis
      using build_fits_cong [OF cf] by simp
  qed
  obtain m1 o1 where o: "apply_outcome E de ops ?m i ?c t = Some (m1, o1)"
    using r c q by (auto simp: classify_finalization_def decision_def Let_def split: option.splits)
  from apply_outcome_cases [OF o fits] obtain b l where
    m1: "m1 = m\<lparr>pending_cfs := fmdrop i (pending_cfs m), pending_builds := fmdrop i (pending_builds m),
        pending_cf_events := fmdrop i (pending_cf_events m), cm_builder := b, last_build_result := l\<rparr>"
    and s: "settles (cm_builder m) (cf_anchor c) o1 b"
    by (auto simp: cf)
  show ?thesis
  proof (cases o1)
    case (Inl f)
    then have "m' = m1\<lparr>last_apply_failure := Some f\<rparr>" "out = LApplyFailed f"
      using r c q o by (simp_all add: classify_finalization_def decision_def Let_def)
    then show ?thesis
      using s Inl by (simp add: m1 removed_frame_def)
  next
    case (Inr u)
    let ?m2 = "m1\<lparr>last_apply_failure := None, finalized_cfs := finalized_cfs m1 @ [?c]\<rparr>"
    have out: "m' = gc_finalized_cfs ?m2" "out = LFinalized i"
      using r c q o Inr by (simp_all add: classify_finalization_def decision_def Let_def)
    obtain cs ps where g: "gc_finalized_cfs ?m2 = ?m2\<lparr>finalized_cfs := cs, persisted_anchor_ids := ps\<rparr>"
      and cs: "set cs \<subseteq> insert ?c (set (finalized_cfs m))"
        "\<forall>f\<in>insert ?c (set (finalized_cfs m)). an_id (cf_anchor f) |\<notin>| persisted_anchor_ids m \<longrightarrow> f \<in> set cs"
      using gc_finalized_cases [of ?m2] by (auto simp: m1)
    have m': "m' = ?m2\<lparr>finalized_cfs := cs, persisted_anchor_ids := ps\<rparr>"
      unfolding out(1) by (rule g)
    have "one_anchor (cm_builder m) (cf_anchor c) (cm_builder m')"
      using s Inr by (simp add: m' m1)
    moreover have "removed_frame m i m'" "finalized_cfs m' = cs"
      by (simp_all add: m' m1 removed_frame_def)
    ultimately show ?thesis
      using cs out(2) by simp
  qed
qed

text \<open>
  C5: finalization is all or nothing for the anchor chain. From a well-formed manager, a frame with a
  quorum is either finalized, and then the builder advances by exactly that anchor, the frame is recorded
  and no finalized frame that is not persisted yet is dropped, or its apply failed and the chain and
  the finalized frames stay as they are. A frame is rejected or timed out only without a quorum, which
  leaves chain and finalized frames alone too. In all four cases the frame, its build and its events are
  gone, so its events can be folded again; without a decision nothing changes.
\<close>

theorem finalization_all_or_nothing:
  assumes m: "manager_ok N m" and r: "classify_finalization E de ops m i now t = Some (m', out)"
  shows "(out = LPending \<longrightarrow> m' = m) \<and> (out \<noteq> LPending \<longrightarrow> removed_frame m i m') \<and>
    (if (\<exists>j. out = LFinalized j)
     then \<exists>c. out = LFinalized i \<and> fmlookup (pending_cfs m) i = Some c \<and> check_quorum c (validator_count (cm_config m)) \<and>
       one_anchor (cm_builder m) (cf_anchor c) (cm_builder m') \<and>
       set (finalized_cfs m') \<subseteq> insert (cf_finalize c now) (set (finalized_cfs m)) \<and>
       (\<forall>f\<in>insert (cf_finalize c now) (set (finalized_cfs m)).
          an_id (cf_anchor f) |\<notin>| persisted_anchor_ids m \<longrightarrow> f \<in> set (finalized_cfs m'))
     else take_snapshot (cm_builder m') = take_snapshot (cm_builder m) \<and> finalized_cfs m' = finalized_cfs m \<and>
       (\<forall>c. (\<nexists>f. out = LApplyFailed f) \<and> fmlookup (pending_cfs m) i = Some c \<longrightarrow>
          \<not> check_quorum c (validator_count (cm_config m))))"
proof (cases "fmlookup (pending_cfs m) i")
  case None
  then show ?thesis
    using r by (auto simp: classify_finalization_def)
next
  case (Some c)
  show ?thesis
  proof (cases "check_quorum c (validator_count (cm_config m))")
    case True
    from classify_quorum [OF m Some True r] show ?thesis
      using Some True by auto
  next
    case False
    consider "m' = discard m i" "out = LRejected i" | "m' = discard m i" "out = LTimedOut i" | "m' = m" "out = LPending"
      using r Some False by (auto simp: classify_finalization_def decision_def split: if_splits)
    then show ?thesis
      using Some False by cases (simp_all add: discard_def removed_frame_def)
  qed
qed

subsection \<open>Every call keeps the manager well-formed\<close>

lemma finalize_simps:
  "keyed (cf_finalize c now) = keyed c" "cf_stat (cf_finalize c now) = CF_Finalized"
  "check_quorum (cf_finalize c now) n = check_quorum c n"
  by (simp_all add: cf_finalize_def keyed_def check_quorum_def approve_count_def)

lemma classify_ok:
  assumes m: "manager_ok N m" and r: "classify_finalization E de ops m i now t = Some (m', out)"
  shows "manager_ok N m'"
proof (cases "fmlookup (pending_cfs m) i")
  case (Some c)
  show ?thesis
  proof (cases "check_quorum c (validator_count (cm_config m))")
    case True
    from classify_quorum [OF m Some True r] have rm: "removed_frame m i m'"
      and fs: "set (finalized_cfs m') \<subseteq> insert (cf_finalize c now) (set (finalized_cfs m))"
      by auto
    have "keyed c"
      using m Some pending_okD by (auto simp: manager_ok_def)
    then have "finalized_ok N m'"
      using m rm fs True by (fastforce simp: manager_ok_def finalized_ok_def removed_frame_def finalize_simps)
    then show ?thesis
      by (rule removed_frame_ok [OF m rm])
  next
    case False
    then have "m' = discard m i \<or> m' = m"
      using r Some by (auto simp: classify_finalization_def decision_def split: if_splits)
    then show ?thesis
      using m discard_ok by blast
  qed
qed (use m r in \<open>simp add: classify_finalization_def\<close>)

lemma build_internal_fits:
  "prepare_build_internal E de b es v dp now = Some (Inr p) \<Longrightarrow>
     new_anchor_depth p = an_depth (pb_anchor p) + 1 \<and> new_last_fold_vlc p = logical_time (an_vlc (pb_anchor p))"
  by (auto simp: prepare_build_internal_def with_merkle_roots_def Let_def split: option.splits)

lemma prepare_fits:
  "prepare_build E de b d v fl now = Some (Inr p) \<Longrightarrow>
     new_anchor_depth p = an_depth (pb_anchor p) + 1 \<and> new_last_fold_vlc p = logical_time (an_vlc (pb_anchor p))"
  "prepare_build_heartbeat E de b d v iv fl t now = Some (Inr p) \<Longrightarrow>
     new_anchor_depth p = an_depth (pb_anchor p) + 1 \<and> new_last_fold_vlc p = logical_time (an_vlc (pb_anchor p))"
  by (auto simp: prepare_build_def prepare_build_heartbeat_def select_and_build_def Let_def
      dest: build_internal_fits split: if_splits)

lemma new_build_ok:
  assumes m: "manager_ok N m" and e: "can_start_new_pending_build m"
    and p: "new_anchor_depth p = an_depth (pb_anchor p) + 1 \<and> new_last_fold_vlc p = logical_time (an_vlc (pb_anchor p))"
  shows "manager_ok N (fst (finalize_pending_build E m p rnd now))"
proof -
  let ?c = "cf_new E rnd (pb_anchor p) (local_validator_id m) now"
  have empty: "pending_builds m = fmempty"
    using e fmdom_ne [of "pending_builds m"] by (auto simp: can_start_new_pending_build_def)
  have "keyed ?c" "build_fits ?c p"
    using p by (simp_all add: cf_new_def keyed_def build_fits_def)
  then show ?thesis
    using m by (auto simp: finalize_pending_build_def Let_def manager_ok_def builds_ok_def frames_ok_def finalized_ok_def
        empty fcard_finsert_disjoint intro: fmpred_upd)
qed

lemma create_ok:
  "manager_ok N m \<Longrightarrow> try_create_cf E de m d v rnd now now' = Some (m', out) \<Longrightarrow> manager_ok N m'"
  "manager_ok N m \<Longrightarrow> try_create_cf_heartbeat E de m d v iv rnd t now now' = Some (m', out) \<Longrightarrow> manager_ok N m'"
  using new_build_ok [of N m _ E rnd now']
  by (fastforce simp: try_create_cf_def try_create_cf_heartbeat_def dest: prepare_fits
      split: if_splits option.splits sum.splits prod.splits)+

lemma cleanup_ok: "manager_ok N m \<Longrightarrow> manager_ok N (fold cleanup_one is m)"
proof (induction "is" arbitrary: m)
  case (Cons i "is")
  have failure: "manager_ok N (m\<lparr>last_apply_failure := f\<rparr>) = manager_ok N m" for m :: "'a consensus_manager" and f
    by (simp add: manager_ok_def builds_ok_def frames_ok_def finalized_ok_def)
  have "manager_ok N ((discard m i)\<lparr>buffered_votes := fmdrop i (buffered_votes m)\<rparr>)"
    using Cons.prems by (intro buffer_ok discard_ok fmpred_drop fmpred_buffered)
  with Cons show ?case
    by (auto simp: cleanup_one_def Let_def failure split: option.splits)
qed simp

lemma merged_votes_ok:
  assumes m: "manager_ok N m" and c0: "fmlookup (pending_cfs m) (cf_id c) = Some c0" and k: "keyed c"
  shows "manager_ok N (m\<lparr>pending_cfs := fmupd (cf_id c) (fold add_new_vote (map snd (entries (votes c))) c0) (pending_cfs m)\<rparr>)"
proof (rule put_frame_ok [OF m])
  have c: "cf_id c0 = cf_id c" "keyed c0"
    using m c0 pending_okD by (auto simp: manager_ok_def)
  then show "keyed (fold add_new_vote (map snd (entries (votes c))) c0)"
    using k by (intro keyed_fold) (auto simp: keyed_def dest: fmpredD)
qed (use m c0 pending_okD in \<open>auto simp: manager_ok_def\<close>)

lemma receive_vote_ok:
  assumes m: "manager_ok N m" and r: "receive_vote E de ops m v now t = Some (m', out)"
  shows "manager_ok N m'"
proof (cases "fmlookup (pending_cfs m) (vt_cf_id v)")
  case None
  have "manager_ok N (m\<lparr>buffered_votes := fmupd (vt_cf_id v)
      ((case fmlookup (buffered_votes m) (vt_cf_id v) of None \<Rightarrow> [] | Some vs \<Rightarrow> vs) @ [v]) (buffered_votes m)\<rparr>)"
    using fmpred_buffered [OF m] by (intro buffer_ok [OF m] fmpred_upd)
      (cases "fmlookup (buffered_votes m) (vt_cf_id v)"; auto dest: fmpredD)+
  with None r show ?thesis
    by (auto simp: receive_vote_def Let_def)
next
  case (Some c)
  have c: "cf_id c = vt_cf_id v" "keyed c"
    using m Some pending_okD by (auto simp: manager_ok_def)
  have "manager_ok N (m\<lparr>pending_cfs := fmupd (vt_cf_id v) (add_vote c v) (pending_cfs m)\<rparr>)"
    using Some c by (intro put_frame_ok [OF m]) (auto simp: keyed_add_vote)
  with Some r m classify_ok show ?thesis
    by (fastforce simp: receive_vote_def Let_def split: if_splits)
qed

lemma vote_for_ok:
  assumes m: "manager_ok N m"
  shows "manager_ok N (fst (vote_for_cf S m i b key now))"
proof (cases "fmlookup (pending_cfs m) i")
  case (Some c)
  let ?v = "case key of None \<Rightarrow> vote_new (local_validator_id m) i b now | Some k \<Rightarrow> fst (vote_sign S (vote_new (local_validator_id m) i b now) k)"
  have c: "cf_id c = i" "keyed c"
    using m Some pending_okD by (auto simp: manager_ok_def)
  then have "keyed (add_vote c ?v)"
    by (intro keyed_add_vote) (simp_all add: vote_new_def split: option.split)
  then have "manager_ok N (m\<lparr>pending_cfs := fmupd i (add_vote c ?v) (pending_cfs m)\<rparr>)"
    using Some c by (intro put_frame_ok [OF m]) simp_all
  with m Some show ?thesis
    by (simp add: vote_for_cf_def Let_def)
qed (simp add: vote_for_cf_def m)

lemma receive_finalized_ok:
  assumes m: "manager_ok N m" and k: "keyed c" and r: "receive_finalized_cf E de ops m c now t = Some (m', out)"
  shows "manager_ok N m'"
  using r merged_votes_ok [OF m _ k] receive_cf_ok [OF m k] m classify_ok
  by (fastforce simp: receive_finalized_cf_def Let_def split: if_splits option.splits)

lemma manager_step_ok:
  assumes "manager_ok N m" "manager_step E S de ops x m = Some m'" "op_keyed x" "\<And>n. op_count x = Some n \<Longrightarrow> n \<in> N"
  shows "manager_ok N m'"
proof (cases x)
  case (OpPersisted a)
  with assms show ?thesis
    by (auto simp: mark_anchor_persisted_def manager_ok_def builds_ok_def frames_ok_def finalized_ok_def)
next
  case (OpCollect d c)
  with assms show ?thesis
    by (auto simp: apply_cf_state_changes_def manager_ok_def builds_ok_def frames_ok_def finalized_ok_def)
next
  case (OpCount n)
  with assms show ?thesis
    by (auto simp: update_validator_count_def manager_ok_def builds_ok_def frames_ok_def finalized_ok_def)
qed (use assms create_ok classify_ok receive_cf_ok receive_finalized_ok receive_vote_ok vote_for_ok cleanup_ok
      in \<open>auto simp: cleanup_timeout_cfs_def Let_def\<close>)

lemma manager_run_ok:
  assumes "manager_ok N m" "manager_run E S de ops xs m = Some m'" "list_all op_keyed xs" "set (List.map_filter op_count xs) \<subseteq> N"
  shows "manager_ok N m'"
  using assms
proof (induction xs arbitrary: m)
  case (Cons x xs)
  then obtain m1 where m1: "manager_step E S de ops x m = Some m1" "manager_run E S de ops xs m1 = Some m'"
    by (auto split: option.splits)
  have "n \<in> N" if "op_count x = Some n" for n
    using Cons.prems(4) that by (simp add: List.map_filter_simps)
  then have "manager_ok N m1"
    using manager_step_ok [OF Cons.prems(1) m1(1)] Cons.prems(3) by simp
  moreover have "set (List.map_filter op_count xs) \<subseteq> N"
    using Cons.prems(4) by (auto simp: List.map_filter_simps split: option.splits)
  ultimately show ?case
    using Cons.IH m1(2) Cons.prems(3) by simp
qed simp

text \<open>
  C13: after any sequence of calls on a new manager, in any order and with any clocks, whose received frames
  file their votes under the voters, the manager is well-formed: at most one build is open, each
  build belongs to a pending frame with its anchor, frames, votes and early votes are filed under
  their own identifiers, and every finalized frame has a quorum of votes of its validators.
\<close>

theorem manager_well_formed:
  assumes "manager_run E S de ops xs (manager_new E cfg v) = Some m" and "list_all op_keyed xs"
  shows "manager_ok (insert (validator_count cfg) (set (List.map_filter op_count xs))) m"
  using assms by (intro manager_run_ok [of _ "manager_new E cfg v" E S de ops xs m])
    (auto simp: manager_new_def manager_ok_def builds_ok_def frames_ok_def finalized_ok_def fcard_fempty)

subsection \<open>A frame without events\<close>

lemma empty_frame_applies:
  assumes "event_ids (cf_anchor c) = []" "merkle_roots (cf_anchor c) = None"
  shows "\<exists>b s. apply_follower_finalized_cf E de mem_b4 b0 [] c t = Some (b, Inr s)"
proof -
  obtain g where "gsm_commit E mem_b4 ((write_gsm (ab_shared b0))\<lparr>last_finalized_depth :=
      max (last_finalized_depth (write_gsm (ab_shared b0))) (an_depth (cf_anchor c) + 1)\<rparr>) (anchor_depth b0 + 1) = (g, Inr ())"
    using mem_commit by blast
  then show ?thesis
    using assms by (simp add: apply_follower_finalized_cf_def Let_def root_mismatch_def apply_and_publish_def apply_committed_events_def)
qed

lemma empty_frame_finalizes:
  assumes "fmlookup (pending_cfs m) i = Some c" "fmlookup (pending_builds m) i = None"
    and "fmlookup (pending_cf_events m) i = None \<or> fmlookup (pending_cf_events m) i = Some []"
    and "event_ids (cf_anchor c) = []" "merkle_roots (cf_anchor c) = None"
    and "check_quorum c (validator_count (cm_config m))"
  shows "\<exists>m'. classify_finalization E de mem_b4 m i now t = Some (m', LFinalized i)"
proof -
  obtain b s where "apply_follower_finalized_cf E de mem_b4 (cm_builder m) [] (cf_finalize c now) t = Some (b, Inr s)"
    using empty_frame_applies [of "cf_finalize c now" E de "cm_builder m" t] assms(4,5) by (auto simp: cf_finalize_def)
  then have "\<exists>m1. apply_outcome E de mem_b4 (m\<lparr>pending_cfs := fmdrop i (pending_cfs m)\<rparr>) i (cf_finalize c now) t = Some (m1, Inr ())"
    using assms(2,3) by (auto simp: apply_outcome_def follower_apply_def Let_def)
  with assms(1,6) show ?thesis
    by (auto simp: classify_finalization_def decision_def Let_def)
qed

definition empty_frame :: consensus_frame where
  "empty_frame = cf_new sample_ext 0 (anchor_new sample_ext [] (vlc_new 0) [] None 0 0) ''p'' 0"

definition approved_by :: "consensus_frame \<Rightarrow> string list \<Rightarrow> consensus_frame" where
  "approved_by c vs = fold (\<lambda>v c. add_vote c (vote_new v (cf_id c) True 0)) vs c"

definition waiting :: "merkle_store consensus_manager" where
  "waiting = receive_cf (manager_new sample_ext (config_default\<lparr>validator_count := 1\<rparr>) ''v'') (approved_by empty_frame [''v''])"

lemma waiting_simps:
  "fmlookup (pending_cfs waiting) (cf_id empty_frame) = Some (approved_by empty_frame [''v''])"
  "pending_builds waiting = fmempty" "pending_cf_events waiting = fmempty" "validator_count (cm_config waiting) = 1"
  by (simp_all add: waiting_def receive_cf_def manager_new_def Let_def approved_by_def)

lemma empty_frame_simps:
  "event_ids (cf_anchor (approved_by empty_frame [''v''])) = []" "merkle_roots (cf_anchor (approved_by empty_frame [''v''])) = None"
  "check_quorum (approved_by empty_frame [''v'']) 1" "keyed (approved_by empty_frame [''v''])"
proof -
  show "event_ids (cf_anchor (approved_by empty_frame [''v''])) = []" "merkle_roots (cf_anchor (approved_by empty_frame [''v''])) = None"
    by (simp_all add: approved_by_def empty_frame_def cf_new_def anchor_new_def)
  have v: "votes (approved_by empty_frame [''v'']) = fmupd ''v'' (vote_new ''v'' (cf_id empty_frame) True 0) fmempty"
    by (simp add: approved_by_def empty_frame_def cf_new_def add_vote_def vote_new_def)
  show "check_quorum (approved_by empty_frame [''v'']) 1"
    by (simp add: check_quorum_def approve_count_card approvers_def v vote_new_def)
  show "keyed (approved_by empty_frame [''v''])"
    unfolding keyed_def v by (intro fmpred_upd) (simp_all add: vote_new_def approved_by_def)
qed

theorem finalization_all_or_nothing_witness:
  "\<exists>m'. classify_finalization sample_ext (\<lambda>_. None) mem_b4 waiting (cf_id empty_frame) 0 0 = Some (m', LFinalized (cf_id empty_frame)) \<and>
     manager_ok {1} waiting \<and>
     one_anchor (cm_builder waiting) (cf_anchor (approved_by empty_frame [''v''])) (cm_builder m') \<and> removed_frame waiting (cf_id empty_frame) m'"
proof -
  obtain m' where r: "classify_finalization sample_ext (\<lambda>_. None) mem_b4 waiting (cf_id empty_frame) 0 0 = Some (m', LFinalized (cf_id empty_frame))"
    using empty_frame_finalizes [OF waiting_simps(1), of sample_ext "\<lambda>_. None" 0 0] empty_frame_simps by (auto simp: waiting_simps)
  have "manager_ok {1} (manager_new sample_ext (config_default\<lparr>validator_count := 1\<rparr>) ''v'')"
    by (simp add: manager_new_def manager_ok_def builds_ok_def frames_ok_def finalized_ok_def fcard_fempty)
  then have ok: "manager_ok {1} waiting"
    unfolding waiting_def by (rule receive_cf_ok) (rule empty_frame_simps)
  from finalization_all_or_nothing [OF ok r] ok r waiting_simps(1) show ?thesis
    by auto
qed

text \<open>A signature scheme whose signatures end with the public key.\<close>

definition toy_ed :: ed25519 where
  "toy_ed = \<lparr>ed_sign = \<lambda>k msg. replicate 32 0 @ k, ed_public = \<lambda>k. k, ed_point = \<lambda>_. True,
     ed_verify = \<lambda>pk msg sig. drop 32 sig = pk\<rparr>"

theorem manager_well_formed_witness:
  "\<exists>m. manager_run sample_ext toy_ed (\<lambda>_. None) mem_b4
      [OpReceiveVote (vote_new ''v'' (cf_id empty_frame) True 0) 0 0, OpReceive empty_frame, OpCount 4]
      (manager_new sample_ext config_default ''w'') = Some m \<and>
    manager_ok {3, 4} m \<and> fmlookup (pending_cfs m) (cf_id empty_frame) = Some (approved_by empty_frame [''v''])"
proof -
  let ?xs = "[OpReceiveVote (vote_new ''v'' (cf_id empty_frame) True 0) 0 0, OpReceive empty_frame, OpCount 4]"
  have none: "fmlookup (votes empty_frame) i = None" for i
    by (simp add: empty_frame_def cf_new_def)
  obtain m where m: "manager_run sample_ext toy_ed (\<lambda>_. None) mem_b4 ?xs (manager_new sample_ext config_default ''w'') = Some m"
    and l: "fmlookup (pending_cfs m) (cf_id empty_frame) = Some (approved_by empty_frame [''v''])"
    by (simp add: receive_vote_def receive_cf_def manager_new_def Let_def vote_new_def approved_by_def add_new_vote_def
        update_validator_count_def none)
  have "list_all op_keyed ?xs"
    by (simp add: keyed_def empty_frame_def cf_new_def)
  from manager_well_formed [OF m this] m l show ?thesis
    by (auto simp: List.map_filter_simps config_default_def)
qed

end
