(* ===== verification/Finality.thy ===== *)
theory Finality
  imports Consensus_Manager
begin

text \<open>
  The vote checks of \<^verbatim>\<open>consensus/src/engine.rs\<close> on frames that arrive from the network, over the validators
  of \<^verbatim>\<open>consensus/src/validator_set.rs\<close> (identifier and public key). A finalized frame that files its votes
  under their voters and passes the strict check carries signatures of a quorum of distinct validators; the
  check itself does not look at the names the votes are filed under, so one signed vote filed under
  several names passes as well. Each error stands for the \<open>InvalidData\<close> error with the text of its branch.
\<close>

section \<open>Checks\<close>

record validator =
  vl_id :: string
  public_key :: bytes

type_synonym validators = "(string, validator) fmap"

definition find_validator :: "validators \<Rightarrow> string \<Rightarrow> validator option" where
  "find_validator vs i = find (\<lambda>w. vl_id w = i) (map snd (entries vs))"

datatype vote_error =
    NoQuorum nat nat
  | VoteForDifferentCF string
  | NonValidator string
  | UnsignedVote string
  | MissingPublicKey string
  | InvalidSignature string

definition verify_vote_signature_policy :: "ed25519 \<Rightarrow> bool \<Rightarrow> vote \<Rightarrow> bytes \<Rightarrow> vote_error + unit" where
  "verify_vote_signature_policy S strict v pk =
     (if signature v = [] then (if strict then Inl (UnsignedVote (validator_id v)) else Inr ())
      else if pk = [] then (if strict then Inl (MissingPublicKey (validator_id v)) else Inr ())
      else if \<not> vote_verify_signature S v pk then Inl (InvalidSignature (validator_id v))
      else Inr ())"

fun verify_votes_loop :: "ed25519 \<Rightarrow> bool \<Rightarrow> validators \<Rightarrow> string \<Rightarrow> vote list \<Rightarrow> vote_error + unit" where
  "verify_votes_loop S strict vs i [] = Inr ()"
| "verify_votes_loop S strict vs i (v # us) =
     (if vt_cf_id v \<noteq> i then Inl (VoteForDifferentCF (vt_cf_id v))
      else case find_validator vs (validator_id v) of
             None \<Rightarrow> Inl (NonValidator (validator_id v))
           | Some w \<Rightarrow>
               (case verify_vote_signature_policy S strict v (public_key w) of
                  Inl e \<Rightarrow> Inl e
                | Inr _ \<Rightarrow> verify_votes_loop S strict vs i us))"

definition verify_finalized_cf_votes :: "ed25519 \<Rightarrow> bool \<Rightarrow> validators \<Rightarrow> consensus_frame \<Rightarrow> vote_error + unit" where
  "verify_finalized_cf_votes S strict vs c =
     (if \<not> check_quorum c (of_nat (fmlen vs)) then Inl (NoQuorum (approve_count c) (fmlen vs))
      else verify_votes_loop S strict vs (cf_id c) (map snd (entries (votes c))))"

definition keep_embedded_vote :: "ed25519 \<Rightarrow> validators \<Rightarrow> string \<Rightarrow> string \<Rightarrow> vote \<Rightarrow> bool" where
  "keep_embedded_vote S vs i k v \<longleftrightarrow>
     vt_cf_id v = i \<and>
     (case find_validator vs k of
        None \<Rightarrow> False
      | Some w \<Rightarrow> signature v \<noteq> [] \<and> public_key w \<noteq> [] \<and> vote_verify_signature S v (public_key w))"

definition filter_embedded_votes_for_strict_mode ::
  "ed25519 \<Rightarrow> bool \<Rightarrow> validators \<Rightarrow> consensus_frame \<Rightarrow> consensus_frame" where
  "filter_embedded_votes_for_strict_mode S strict vs c =
     (if \<not> strict \<or> fmlen (votes c) = 0 then c
      else c\<lparr>votes := fmfilter (\<lambda>k. case fmlookup (votes c) k of
               None \<Rightarrow> False | Some v \<Rightarrow> keep_embedded_vote S vs (cf_id c) k v) (votes c)\<rparr>)"

section \<open>What the checks establish\<close>

text \<open>The validators that have signed an approval of the frame.\<close>

definition signed_approval :: "ed25519 \<Rightarrow> validators \<Rightarrow> consensus_frame \<Rightarrow> string \<Rightarrow> bool" where
  "signed_approval S vs c i \<longleftrightarrow> (\<exists>w v. find_validator vs i = Some w \<and> fmlookup (votes c) i = Some v \<and>
     validator_id v = i \<and> vt_cf_id v = cf_id c \<and>
     approve v \<and> vote_verify_signature S v (public_key w))"

lemma find_validator_mem: "find_validator vs i = Some w \<Longrightarrow> vl_id w = i \<and> w \<in> set (map snd (entries vs))"
proof -
  have "find P xs = Some w \<Longrightarrow> P w \<and> w \<in> set xs" for P and xs :: "validator list"
    by (induction xs) (auto split: if_splits)
  then show "find_validator vs i = Some w \<Longrightarrow> ?thesis"
    unfolding find_validator_def by fast
qed

lemma votes_loop_iff:
  "verify_votes_loop S strict vs i us = Inr () \<longleftrightarrow>
     (\<forall>v\<in>set us. vt_cf_id v = i \<and> (\<exists>w. find_validator vs (validator_id v) = Some w \<and>
        verify_vote_signature_policy S strict v (public_key w) = Inr ()))"
  by (induction us) (auto split: option.splits sum.splits)

lemma strict_policy: "verify_vote_signature_policy S True v pk = Inr () \<longleftrightarrow> pk \<noteq> [] \<and> vote_verify_signature S v pk"
  by (auto simp: verify_vote_signature_policy_def vote_verify_signature_def)

lemma policy_signed: "vote_verify_signature S v pk \<Longrightarrow> verify_vote_signature_policy S strict v pk = Inr ()"
  by (auto simp: verify_vote_signature_policy_def vote_verify_signature_def)

text \<open>
  C6: in strict mode, a finalized frame that files its votes under their voters and passes the check of
  the engine carries the approvals of more than two thirds of the validators, each counted once: for
  each of them the frame itself holds a vote under the validator's id, cast by that validator for
  this frame, approving it, whose signature verifies under the validator's registered key.
\<close>

theorem verified_quorum_is_signed:
  assumes "verify_finalized_cf_votes S True vs c = Inr ()" and "keyed c"
  shows "unat ((of_nat (fmlen vs) :: u64) * 2 div 3 + 1) \<le> card {i. signed_approval S vs c i}"
proof -
  have q: "check_quorum c (of_nat (fmlen vs))"
    and ok: "verify_votes_loop S True vs (cf_id c) (map snd (entries (votes c))) = Inr ()"
    using assms(1) by (auto simp: verify_finalized_cf_votes_def split: if_splits)
  have "signed_approval S vs c i" if i: "i \<in> approvers c" for i
  proof -
    obtain v where v: "fmlookup (votes c) i = Some v" "approve v"
      using i by (auto simp: approvers_def)
    then have "v \<in> set (map snd (entries (votes c)))"
      by (force simp: mem_entries intro: image_eqI [of _ snd "(i, v)"])
    with ok obtain w where w: "find_validator vs (validator_id v) = Some w" "vote_verify_signature S v (public_key w)"
      unfolding votes_loop_iff strict_policy by blast
    moreover have "validator_id v = i" "vt_cf_id v = cf_id c"
      using assms(2) v(1) by (auto simp: keyed_def dest: fmpredD)
    ultimately show ?thesis
      using v by (auto simp: signed_approval_def)
  qed
  moreover have "finite {i. signed_approval S vs c i}"
  proof (rule finite_subset)
    show "{i. signed_approval S vs c i} \<subseteq> vl_id ` set (map snd (entries vs))"
    proof (rule subsetI)
      fix i assume "i \<in> {i. signed_approval S vs c i}"
      then obtain w where "find_validator vs i = Some w"
        by (auto simp: signed_approval_def)
      from find_validator_mem [OF this] show "i \<in> vl_id ` set (map snd (entries vs))"
        by blast
    qed
  qed simp
  ultimately have "card (approvers c) \<le> card {i. signed_approval S vs c i}"
    by (intro card_mono) auto
  with q show ?thesis
    by (simp add: check_quorum_def approve_count_card)
qed

section \<open>One vote under many names\<close>

definition filed_under :: "string list \<Rightarrow> vote \<Rightarrow> consensus_frame \<Rightarrow> consensus_frame" where
  "filed_under ks v c = c\<lparr>votes := fmap_of_list (map (\<lambda>k. (k, v)) ks)\<rparr>"

lemma filed_lookup: "fmlookup (votes (filed_under ks v c)) k = (if k \<in> set ks then Some v else None)"
  by (induction ks) (simp_all add: filed_under_def fmlookup_of_list)

lemma filed_approvers: "approve v \<Longrightarrow> approvers (filed_under ks v c) = set ks"
  by (auto simp: approvers_def filed_lookup split: if_splits)

lemma filed_quorum:
  "approve v \<Longrightarrow> distinct ks \<Longrightarrow> unat (n * 2 div 3 + 1) \<le> length ks \<Longrightarrow> check_quorum (filed_under ks v c) n"
  by (simp add: check_quorum_def approve_count_card filed_approvers distinct_card)

text \<open>
  C15: the check of a finalized frame accepts one vote as a quorum. Take any frame and one approval of it,
  validly signed by one validator, and file that vote under as many names as a quorum needs. The
  frame keeps its identifier, passes the check in either mode, and a manager that does not know the
  frame decides for it: the outcome is finalized, or failed in the apply, never pending or rejected.
\<close>

theorem one_vote_passes_as_quorum:
  assumes "find_validator vs (validator_id v) = Some w" and "vt_cf_id v = cf_id c" and "approve v"
    and "vote_verify_signature S v (public_key w)"
    and "distinct ks" and "unat ((of_nat (fmlen vs) :: u64) * 2 div 3 + 1) \<le> length ks"
    and "validator_count (cm_config m) = of_nat (fmlen vs)" and "\<not> has_cf m (cf_id c)"
    and "fmlookup (buffered_votes m) (cf_id c) = None"
    and "receive_finalized_cf E de ops m (filed_under ks v c) now t = Some (m', out)"
  shows "verify_finalized_cf_votes S strict vs (filed_under ks v c) = Inr () \<and>
    cf_verify_id E (filed_under ks v c) = cf_verify_id E c \<and>
    (out = LFinalized (cf_id c) \<or> (\<exists>f. out = LApplyFailed f))"
proof (intro conjI)
  have q: "check_quorum (filed_under ks v c) (of_nat (fmlen vs))"
    using assms by (intro filed_quorum)
  have "u = v" if "u \<in> set (map snd (entries (votes (filed_under ks v c))))" for u
    using that by (auto simp: filed_lookup split: if_splits)
  then have "verify_votes_loop S strict vs (cf_id c) (map snd (entries (votes (filed_under ks v c)))) = Inr ()"
    unfolding votes_loop_iff using assms(1,2) policy_signed [OF assms(4)] by blast
  with q show "verify_finalized_cf_votes S strict vs (filed_under ks v c) = Inr ()"
    by (simp add: verify_finalized_cf_votes_def filed_under_def)
  show "cf_verify_id E (filed_under ks v c) = cf_verify_id E c"
    by (simp add: cf_verify_id_def filed_under_def)
  have "\<not> is_finalized_cf m (cf_id c)" "fmlookup (pending_cfs m) (cf_id c) = None"
    using assms(8) by (auto simp: has_cf_def is_finalized_cf_def)
  then have "classify_finalization E de ops (m\<lparr>pending_cfs := fmupd (cf_id c) (filed_under ks v c) (pending_cfs m)\<rparr>)
      (cf_id c) now t = Some (m', out)"
    using assms(9,10) by (simp add: receive_finalized_cf_def receive_cf_def Let_def filed_under_def)
  then show "out = LFinalized (cf_id c) \<or> (\<exists>f. out = LApplyFailed f)"
    using q assms(7) by (auto simp: classify_finalization_def decision_def Let_def split: option.splits sum.splits)
qed

definition sample_validators :: "string list \<Rightarrow> validators" where
  "sample_validators is = fmap_of_list (map (\<lambda>i. (i, \<lparr>vl_id = i, public_key = replicate 32 1\<rparr>)) is)"

definition signed_vote :: vote where
  "signed_vote = fst (vote_sign toy_ed (vote_new ''a'' (cf_id empty_frame) True 0) (replicate 32 1))"

lemma signed_vote_simps:
  "validator_id signed_vote = ''a''" "vt_cf_id signed_vote = cf_id empty_frame" "approve signed_vote"
  "vote_verify_signature toy_ed signed_vote (replicate 32 1)"
  by (simp_all add: signed_vote_def vote_sign_def vote_new_def vote_verify_signature_def toy_ed_def)

lemma sample_validators_simps:
  "fmlen (sample_validators [''a'', ''b'', ''c'']) = 3" "fmlen (sample_validators [''a'']) = 1"
  "find_validator (sample_validators [''a'', ''b'', ''c'']) ''a'' = Some \<lparr>vl_id = ''a'', public_key = replicate 32 1\<rparr>"
  "find_validator (sample_validators [''a'']) ''a'' = Some \<lparr>vl_id = ''a'', public_key = replicate 32 1\<rparr>"
proof -
  have d: "fmdom (sample_validators is) = fset_of_list is" for "is"
    by (simp add: sample_validators_def comp_def)
  show "fmlen (sample_validators [''a'', ''b'', ''c'']) = 3" "fmlen (sample_validators [''a'']) = 1"
    unfolding d by (simp_all add: fcard_finsert_disjoint)
  have "sorted_list_of_fset (fset_of_list [''a'', ''b'', ''c'']) = [''a'', ''b'', ''c'']" "sorted_list_of_fset (fset_of_list [''a'']) = [''a'']"
    by (simp_all add: sorted_list_of_fset.rep_eq)
  then show "find_validator (sample_validators [''a'', ''b'', ''c'']) ''a'' = Some \<lparr>vl_id = ''a'', public_key = replicate 32 1\<rparr>"
    "find_validator (sample_validators [''a'']) ''a'' = Some \<lparr>vl_id = ''a'', public_key = replicate 32 1\<rparr>"
    unfolding find_validator_def sorted_list_of_fmap_def d by (simp_all add: sample_validators_def fmlookup_of_list)
qed

theorem verified_quorum_is_signed_witness:
  "1 \<le> card {i. signed_approval toy_ed (sample_validators [''a'']) (filed_under [''a''] signed_vote empty_frame) i}"
proof -
  let ?c = "filed_under [''a''] signed_vote empty_frame" and ?vs = "sample_validators [''a'']"
  have "check_quorum ?c 1"
    by (intro filed_quorum) (simp_all add: signed_vote_simps)
  moreover have "verify_votes_loop toy_ed True ?vs (cf_id ?c) (map snd (entries (votes ?c))) = Inr ()"
    unfolding votes_loop_iff strict_policy
    by (auto simp: filed_lookup signed_vote_simps sample_validators_simps filed_under_def split: if_splits)
  ultimately have "verify_finalized_cf_votes toy_ed True ?vs ?c = Inr ()"
    by (simp add: verify_finalized_cf_votes_def sample_validators_simps)
  moreover have "keyed ?c"
    by (auto simp: keyed_def fmpred_iff filed_lookup signed_vote_simps split: if_splits) (simp add: filed_under_def)
  ultimately show ?thesis
    using verified_quorum_is_signed [of toy_ed ?vs ?c] by (simp add: sample_validators_simps filed_under_def)
qed

theorem one_vote_passes_as_quorum_witness:
  "verify_finalized_cf_votes toy_ed True (sample_validators [''a'', ''b'', ''c''])
      (filed_under [''x'', ''y'', ''z''] signed_vote empty_frame) = Inr () \<and>
   (\<exists>m'. receive_finalized_cf sample_ext (\<lambda>_. None) mem_b4 (manager_new sample_ext config_default ''w'')
      (filed_under [''x'', ''y'', ''z''] signed_vote empty_frame) 0 0 = Some (m', LFinalized (cf_id empty_frame)))"
proof -
  let ?c = "filed_under [''x'', ''y'', ''z''] signed_vote empty_frame" and ?vs = "sample_validators [''a'', ''b'', ''c'']"
    and ?m = "manager_new sample_ext config_default ''w'' :: merkle_store consensus_manager"
  let ?m1 = "?m\<lparr>pending_cfs := fmupd (cf_id empty_frame) ?c fmempty\<rparr>"
  have q: "check_quorum ?c 3"
    by (intro filed_quorum) (simp_all add: signed_vote_simps)
  have "\<exists>m'. classify_finalization sample_ext (\<lambda>_. None) mem_b4 ?m1 (cf_id empty_frame) 0 0 = Some (m', LFinalized (cf_id empty_frame))"
    using q by (intro empty_frame_finalizes [of _ _ ?c])
      (simp_all add: manager_new_def config_default_def, simp_all add: filed_under_def empty_frame_def cf_new_def anchor_new_def)
  then obtain m' where r: "receive_finalized_cf sample_ext (\<lambda>_. None) mem_b4 ?m ?c 0 0 = Some (m', LFinalized (cf_id empty_frame))"
    by (auto simp: receive_finalized_cf_def receive_cf_def manager_new_def is_finalized_cf_def Let_def filed_under_def)
  have "verify_finalized_cf_votes toy_ed True ?vs ?c = Inr ()"
    using one_vote_passes_as_quorum [OF _ _ _ _ _ _ _ _ _ r, of ?vs "\<lparr>vl_id = ''a'', public_key = replicate 32 1\<rparr>" toy_ed True]
    by (simp add: signed_vote_simps sample_validators_simps manager_new_def config_default_def has_cf_def)
  with r show ?thesis
    by blast
qed

section \<open>A finalization that fails\<close>

lemma commit_loop_leaves:
  "distinct (map fst xs) \<Longrightarrow> (\<And>i s. (i, s) \<in> set xs \<Longrightarrow> fmlookup m i = Some s) \<Longrightarrow>
   sleaves (fst (commit_loop ops a xs m b)) = sleaves m"
proof (induction xs arbitrary: m b)
  case (Cons x xs)
  obtain i s where x: "x = (i, s)"
    by (rule prod.exhaust)
  obtain r where c: "commit_subnet ops a i s b = (settled s, r)"
    using commit_subnet_state [of ops a i s b] by (cases "commit_subnet ops a i s b") simp
  have s: "fmlookup m i = Some s"
    using Cons.prems(2) x by simp
  have same: "(\<lambda>j. if j = i then leaves (ss_tree s) else sleaves m j) = sleaves m"
    by (simp add: fun_eq_iff sleaves_def s)
  show ?case
  proof (cases r)
    case (Inr b1)
    have "fmlookup (fmupd i (settled s) m) j = Some u" if "(j, u) \<in> set xs" for j u
      using that Cons.prems x by force
    with Cons.IH [of "fmupd i (settled s) m" b1] Cons.prems(1) show ?thesis
      by (simp add: x c Inr same)
  qed (simp add: x c same)
qed simp

lemma gsm_commit_leaves: "gleaves (fst (gsm_commit E ops g a)) = gleaves g"
proof -
  let ?m = "fmmap (\<lambda>s. ss_set_last_anchor s a) (subnet_states g)"
  have m: "sleaves ?m = gleaves g"
    by (simp add: fun_eq_iff sleaves_def ss_set_last_anchor_def split: option.split)
  have "sleaves (fst (commit_loop ops a (entries ?m) ?m b)) = gleaves g" for b
    by (subst commit_loop_leaves) (simp_all add: m)
  then have "sleaves m' = gleaves g" if "commit_loop ops a (entries ?m) ?m b = (m', r)" for b m' r
    using that by (metis fst_conv)
  then show ?thesis
    by (auto simp: gsm_commit_def Let_def m split: option.split sum.split prod.split)
qed

text \<open>
  C39: when the store of the proposer fails while a frame is committed, the frame is discarded and the
  anchor chain of the builder stays as it was, but the trees the node builds its next frame on keep
  the changes of the discarded events.
\<close>

theorem failed_finalization_keeps_changes:
  assumes "commit_build E de ops b p t = Some (b', Inl (AB_MerkleError e))"
  shows "take_snapshot b' = take_snapshot b \<and>
    (\<exists>g s n. apply_committed_events E de (write_gsm (ab_shared b)) (all_events p) (new_anchor_depth p) = Some (g, s, n) \<and>
       gleaves (write_gsm (ab_shared b')) = gleaves g)"
proof -
  obtain g s n where ap: "apply_committed_events E de (write_gsm (ab_shared b)) (all_events p) (new_anchor_depth p) = Some (g, s, n)"
    using assms by (auto simp: commit_build_def apply_and_publish_def Let_def split: if_splits option.splits)
  obtain g' r where c: "gsm_commit E ops g (anchor_depth b + 1) = (g', r)"
    by (rule prod.exhaust)
  then have l: "gleaves g' = gleaves g"
    using gsm_commit_leaves [of E ops g "anchor_depth b + 1"] by simp
  have "b' = clear_overlay_for (b\<lparr>ab_shared := (ab_shared b)\<lparr>write_gsm := g'\<rparr>\<rparr>) (map ev_id (all_events p))"
    using assms ap c by (auto simp: commit_build_def apply_and_publish_def Let_def split: if_splits sum.splits)
  then show ?thesis
    using ap l by simp
qed

lemma fold_event_writes:
  assumes "fmlookup (gleaves g SubnetId_ROOT) (parse_state_change_key E key) = None"
    and "apply_committed_events E de g [fold_event i key] d = Some (g', s, n)"
  shows "fmlookup (gleaves g' SubnetId_ROOT) (parse_state_change_key E key) = Some [1]"
proof -
  have up: "fmlookup (leaves (ss_tree (fst (ss_upsert E s k v)))) k = Some v" for s k v
    by (simp add: ss_upsert_def Let_def inc_insert_conv insert_without_tracking_def split: prod.split)
  let ?c = "StateChange_insert key [1]" and ?k = "parse_state_change_key E key"
  let ?g = "g\<lparr>last_finalized_depth := max (last_finalized_depth g) d\<rparr>"
  note cs = StateChange_insert_def StateChange_new_def change_target_def Let_def
  have put: "fmlookup (gleaves h' SubnetId_ROOT) ?k = Some [1]"
    if "apply_state_change E de h SubnetId_ROOT ?c = Some (h', r)" for h h' r
    using that up by (auto simp: apply_state_change_def cs split: prod.splits) (metis fst_conv)
  obtain h sub where m: "get_subnet_mut E ?g SubnetId_ROOT = (h, sub)"
    by (rule prod.exhaust)
  then have "ss_get sub ?k = None"
    using ss_get_mut [of E ?g SubnetId_ROOT ?k] assms(1) by simp
  with m have f: "find_conflict E SubnetId_ROOT [?c] fmempty ?g = (h, None)"
    by (simp add: cs)
  have "er_state_changes (with_changes er_succeeded [?c]) = [?c]" "er_success (with_changes er_succeeded [?c])"
    by (simp_all add: with_changes_def er_succeeded_def)
  with assms(2) f obtain h1 r root where e: "apply_state_change E de h SubnetId_ROOT ?c = Some (h1, r)"
    and g': "subnet_states g' = subnet_states (fst (get_subnet_mut E h1 SubnetId_ROOT))"
    by (auto simp: apply_committed_events_def fold_event_def apply_event_def get_subnet_id_def apply_execution_result_def
        Let_def cs split: option.splits prod.splits)
  show ?thesis
    using put [OF e] by (simp add: g')
qed

theorem failed_finalization_keeps_changes_witness:
  "\<exists>p b' e. let b = with_shared_state_manager config_default (shared_new (with_store sample_ext ms_new));
      k = parse_state_change_key sample_ext ''user:a'' in
    prepare_build sample_ext (\<lambda>_. None) b fold_dag fold_clock {||} 0 = Some (Inr p) \<and>
    commit_build sample_ext (\<lambda>_. None) failing_b4 b p 0 = Some (b', Inl (AB_MerkleError e)) \<and>
    take_snapshot b' = take_snapshot b \<and> fmlookup (gleaves (write_gsm (ab_shared b)) SubnetId_ROOT) k = None \<and>
    fmlookup (gleaves (write_gsm (ab_shared b')) SubnetId_ROOT) k = Some [1]"
proof -
  let ?b = "with_shared_state_manager config_default (shared_new (with_store sample_ext ms_new))" and ?de = "\<lambda>_. None"
  let ?g = "write_gsm (ab_shared ?b)" and ?k = "parse_state_change_key sample_ext ''user:a''"
  obtain p where p: "prepare_build sample_ext ?de ?b fold_dag fold_clock {||} 0 = Some (Inr p)"
    and ps: "pre_build_snapshot p = take_snapshot ?b" "all_events p = [fold_event ''a'' ''user:a'']"
    using fold_dag_builds [of ?b sample_ext ?de 0] by (auto simp: with_shared_state_manager_def)
  have g: "?g = with_store sample_ext ms_new"
    by (simp add: with_shared_state_manager_def shared_new_def)
  have none: "fmlookup (gleaves ?g SubnetId_ROOT) ?k = None"
    unfolding g by (simp add: with_store_def gsm_new_def sleaves_def ss_new_def inc_new_def)
  obtain g1 s n where ap: "apply_committed_events sample_ext ?de ?g (all_events p) (new_anchor_depth p) = Some (g1, s, n)"
    using fold_event_applies unfolding ps(2) by (metis option.exhaust prod_cases3)
  have "gs_store g1 = Some ms_new"
    using store_apply_committed_events [OF ap] unfolding g by (simp add: with_store_def)
  then obtain g2 e where "gsm_commit sample_ext failing_b4 g1 (anchor_depth ?b + 1) = (g2, Inl e)"
    using failing_commit by blast
  with ap obtain b' where c: "commit_build sample_ext ?de failing_b4 ?b p 0 = Some (b', Inl (AB_MerkleError e))"
    by (simp add: commit_build_def Let_def ps(1) verify_snapshot_def take_snapshot_def apply_and_publish_def)
  from failed_finalization_keeps_changes [OF c] ap have "take_snapshot b' = take_snapshot ?b" "gleaves (write_gsm (ab_shared b')) = gleaves g1"
    by auto
  with p c none fold_event_writes [OF none ap [unfolded ps(2)]] show ?thesis
    unfolding Let_def by auto
qed

end
