(* ===== verification/Spec2Isabelle.thy ===== *)
theory Spec2Isabelle
  imports Setu_Prelude Vlc Simple_Transfer Dag_Runs Sparse_Proofs Binary_Merkle Finality
begin

text \<open>
  A verification library for Setu, a ledger whose validators order events by vector logical clocks,
  execute them per subnet, fold them into anchors and agree on the anchors by votes.

  \<^bold>\<open>The program and its parts.\<close> Coins are objects in a store; the runtime executes transfers, merges and
  splits on it. The outcome of an execution travels as an \<^emph>\<open>event\<close> with its state changes. Events form a
  DAG. A proposer folds pending events into an \<^emph>\<open>anchor\<close>, which commits to the events by a binary
  Merkle tree and to the state by one sparse Merkle tree per subnet and an aggregation tree over their
  roots; a \<^emph>\<open>consensus frame\<close> carries the anchor to a vote. A finalized frame is applied by
  the global state manager, which detects conflicts, updates the trees and persists them.

  \<^bold>\<open>Conventions\<close> (\<^verbatim>\<open>Setu_Prelude\<close>). Machine integers are words, so an unchecked addition wraps;
  \<open>checked_add\<close> and \<open>saturating_sub\<close> are defined as in Rust. A \<open>HashMap\<close> is a finite map, iterated by
  \<open>entries\<close>; where the order of iteration could matter, the lemma quantifies over every enumeration. Strings
  are lists of characters. \<open>Result\<close> is a sum with the error on the left, and what was
  mutated before an error is returned with it; a panic is \<open>None\<close> or the error \<open>Panic\<close>. Clocks are arguments.
  The third-party crates (BLAKE3, hex, BCS, JSON, Ed25519) are fields of the records \<open>ext\<close> and \<open>ed25519\<close>;
  what is assumed of them (round trips, no collision among finitely many named byte
  strings) is a hypothesis of the theorem that needs it, with a concrete instance in its witness.

  \<^bold>\<open>Theories.\<close>

  \<^item> \<^verbatim>\<open>Vlc\<close>: \<^verbatim>\<open>crates/setu-vlc/src/lib.rs\<close>, \<^verbatim>\<open>consensus/src/vlc.rs\<close>. The loops decide the product
    order, merge is the least upper bound, and in runs of several nodes a cause has a smaller clock
    than its effect.
  \<^item> \<^verbatim>\<open>Coin_Object\<close>, \<^verbatim>\<open>Events\<close>: objects, coins, keys, envelopes, resources, subnets and events of \<^verbatim>\<open>types/src\<close>.
    Coin identifiers are injective up to collisions; identifiers survive printing and parsing.
  \<^item> \<^verbatim>\<open>Runtime_State\<close>, \<^verbatim>\<open>Runtime_Executor\<close>: \<^verbatim>\<open>crates/setu-runtime/src\<close>, the stores and the executor, in a state
    and error monad. The locale \<open>coin_store\<close> is what the executor needs of a store; the plain store is its
    instance, and the envelope store returns the same values after the same operations. The ownership
    index is exact up to coins that record no owner, which keep the entry of their last owner. \<^verbatim>\<open>Runtime_Conservation\<close> and \<^verbatim>\<open>Simple_Transfer\<close> prove in it that transfers, merges and
    splits conserve every holding, what fails and what a failure leaves behind.
  \<^item> \<^verbatim>\<open>Event_Dag\<close>, \<^verbatim>\<open>Dag_Runs\<close>: \<^verbatim>\<open>consensus/src/dag.rs\<close>. An invariant of all runs of operations, acyclicity, safe
    and complete garbage collection, correct ancestor searches. The searches and the collector are loops over a
    work list with termination proofs, not fuel.
  \<^item> \<^verbatim>\<open>Sparse_Merkle\<close>, \<^verbatim>\<open>Sparse_Trees\<close>, \<^verbatim>\<open>Sparse_Merkle_Refine\<close>, \<^verbatim>\<open>Sparse_Proofs\<close>: \<^verbatim>\<open>crates/setu-merkle/src/sparse.rs\<close>. The incremental
    tree refines the tree rebuilt from scratch, through canonical trees determined by their leaves; its
    proofs are complete (but for keys that differ in the last bit only) and sound.
  \<^item> \<^verbatim>\<open>Binary_Merkle\<close>: \<^verbatim>\<open>binary.rs\<close> and \<^verbatim>\<open>aggregation.rs\<close>. Proof round trip, binding roots, independence of the
    order of subnets.
  \<^item> \<^verbatim>\<open>Merkle_Store\<close>, \<^verbatim>\<open>Global_State\<close>: \<^verbatim>\<open>crates/setu-merkle/src/storage.rs\<close> and \<^verbatim>\<open>storage/src/state/manager.rs\<close>.
    \<^verbatim>\<open>Ledger\<close> is the abstract specification, a map of leaves per subnet in which an event is applied whole or not
    at all; the manager refines it and conserves the supply. \<^verbatim>\<open>Recovery\<close> proves, for every
    backend that meets the contract \<open>b4_backend\<close>, that a restarted manager has the committed state;
    \<^verbatim>\<open>Commit_Faults\<close> shows two cases the contract does not cover.
  \<^item> \<^verbatim>\<open>Overlay\<close>: \<^verbatim>\<open>speculative_overlay.rs\<close> and \<^verbatim>\<open>shared.rs\<close>; the overlay is a log of writes.
  \<^item> \<^verbatim>\<open>Consensus_Frames\<close>: \<^verbatim>\<open>types/src/consensus.rs\<close>, anchors, votes and frames, with the bounds of the vote
    thresholds on words.
  \<^item> \<^verbatim>\<open>Anchor_Builder\<close>, \<^verbatim>\<open>Anchor_Agreement\<close>: \<^verbatim>\<open>consensus/src/router.rs\<close> and \<^verbatim>\<open>anchor_builder.rs\<close>. Folding empties the
    pending events in finitely many conflict-free frames; a follower that applies the frame of a proposer reaches
    the same state, by the locale \<open>subnet_simulation\<close> over pairs of managers.
  \<^item> \<^verbatim>\<open>Consensus_Manager\<close>: \<^verbatim>\<open>consensus/src/folder.rs\<close>. A well-formedness invariant of every sequence of calls, and
    finalization that is all or nothing for the anchor chain.
  \<^item> \<^verbatim>\<open>Finality\<close>: the vote checks of \<^verbatim>\<open>consensus/src/engine.rs\<close>, what they establish and what they miss, and what
    a failed finalization leaves in the trees.

  \<^bold>\<open>Composition.\<close> The executor produces balanced state changes (\<^verbatim>\<open>Runtime_Conservation\<close>); applied by
  the state manager they conserve the supply (\<^verbatim>\<open>Ledger\<close>); the commit makes them durable (\<^verbatim>\<open>Recovery\<close>); the
  builder commits to them and every follower computes the same roots (\<^verbatim>\<open>Anchor_Agreement\<close>); the manager applies
  a frame at most when it has a quorum (\<^verbatim>\<open>Consensus_Manager\<close>), which the checks of \<^verbatim>\<open>Finality\<close> tie to signatures.

  \<^bold>\<open>Bounds.\<close> No loop is cut off by fuel; \<open>lower_hex_digits\<close> counts the 16 digits a 64-bit
  number can have. The tree recursions go down at most 256 bits, the length of a key; the
  word-level thresholds hold below \<open>2 ^ 63\<close> validators, where doubling does not wrap; object counts are
  64-bit and their theorems assume fewer than \<open>2 ^ 64\<close> leaves.

  \<^bold>\<open>Not modelled.\<close> The asynchronous shell: the handlers of \<^verbatim>\<open>engine.rs\<close> around the modelled checks, \<^verbatim>\<open>dag_manager.rs\<close>,
  the broadcaster, networking, RPC, command line and the validator and solver processes, which interleave
  locks, channels and timers; what they call on the modelled state is covered for every order of calls. The
  RocksDB stores, a binding to a C++ database, enter as arbitrary instances of \<open>b4_backend\<close>. The Move virtual
  machine and the enclave embed third-party interpreters and attestation. Key handling and transport wrap
  cryptographic libraries. Leader election and \<open>ValidatorSet\<close>
  are left out: the modelled checks need only the identifiers and keys of the validators, and
  the reputation backend is unfinished in the code. Read accessors and text formatting are left out throughout.
\<close>

end
